(* ===== verification/Prelude.thy ===== *)
theory Prelude
  imports Main "HOL-Library.Word" "HOL-Library.Monad_Syntax" "HOL-Library.Char_ord"
begin

text \<open>
  Shared vocabulary of the development: the C integer types, byte strings and C strings, the
  conventions for pointers, errors and undefined behaviour, the script that decides which
  allocations succeed, and the generic lemmas on arrays of slots that several components search,
  fill and clear.

  Conventions.
  \<^item> A C pointer that may be \<open>NULL\<close> is an \<open>option\<close>; \<open>None\<close> is \<open>NULL\<close>.
  \<^item> A C function that returns an \<open>int\<close> status returns that number (\<open>0\<close>, \<open>-1\<close> or an index).
  \<^item> A step whose C counterpart has undefined behaviour (a dereferenced \<open>NULL\<close>, memory used after
    it was freed, an index outside its array) or never returns (a default mutex locked twice by
    the same thread) has the value \<open>None\<close>: such steps have type \<open>('a \<times> 'w) option\<close> and are
    sequenced with the option monad's \<open>do\<close> notation, the state being passed explicitly.
  \<^item> A \<open>size_t\<close> reference count keeps its width: it is a 64 bit word.
\<close>

unbundle bit_operations_syntax

subsection \<open>Integer types and strings of C\<close>

type_synonym size_t = "64 word"
type_synonym uint8 = "8 word"
type_synonym uint16 = "16 word"
type_synonym uint32 = "32 word"
type_synonym byte = "8 word"

text \<open>The bytes of a string without its terminator, and the C string that starts a buffer.\<close>

definition bytes_of :: "string \<Rightarrow> byte list" where
  "bytes_of s = map of_char s"

definition cstr :: "byte list \<Rightarrow> string" where
  "cstr bs = map (\<lambda>b. char_of (unat b)) (takeWhile (\<lambda>b. b \<noteq> 0) bs)"

definition is_cstring :: "string \<Rightarrow> bool" where
  "is_cstring s \<longleftrightarrow> CHR 0x00 \<notin> set s"

text \<open>Reading \<open>*(str + k)\<close>; position \<open>strlen(str)\<close> holds the terminator.\<close>

definition char_at :: "string \<Rightarrow> nat \<Rightarrow> char" where
  "char_at s k = (if k < length s then s ! k else CHR 0x00)"

text \<open>\<open>printf("%d")\<close> of a number that is not negative, and of any number.\<close>

fun dec_digits :: "nat \<Rightarrow> string" where
  "dec_digits n = (if n < 10 then [char_of (48 + n)]
                   else dec_digits (n div 10) @ [char_of (48 + n mod 10)])"

declare dec_digits.simps [simp del]

definition dec_string :: "int \<Rightarrow> string" where
  "dec_string i = (if i < 0 then CHR ''-'' # dec_digits (nat (- i)) else dec_digits (nat i))"

subsection \<open>Allocation\<close>

text \<open>
  The results of the coming allocations (\<open>malloc\<close>, \<open>calloc\<close>, \<open>open_memstream\<close>) are a script: one
  truth value per call, in order; an exhausted script means that memory is available. Every finite
  execution is covered by some script.
\<close>

type_synonym mem = "bool list"

fun malloc :: "mem \<Rightarrow> bool \<times> mem" where
  "malloc [] = (True, [])"
| "malloc (ok # m) = (ok, m)"

subsection \<open>Reference counts\<close>

definition size_inc :: "size_t \<Rightarrow> size_t" where
  "size_inc n = n + 1"

definition size_dec :: "size_t \<Rightarrow> size_t" where
  "size_dec n = n - 1"

lemma size_dec_inc [simp]: "size_dec (size_inc n) = n"
  by (simp add: size_dec_def size_inc_def)

lemma size_inc_of_nat: "size_inc (of_nat n) = of_nat (Suc n)"
  by (simp add: size_inc_def)

lemma size_dec_of_nat: "0 < n \<Longrightarrow> size_dec (of_nat n) = of_nat (n - 1)"
  by (simp add: size_dec_def of_nat_diff)

lemma of_nat_size_zero_iff: "n < 2 ^ 64 \<Longrightarrow> (of_nat n :: size_t) = 0 \<longleftrightarrow> n = 0"
  using of_nat_inverse [where ?'a = 64, of n 0] by auto

lemma of_nat_size_one_iff: "0 < n \<Longrightarrow> n < 2 ^ 64 \<Longrightarrow> (of_nat n :: size_t) = 1 \<longleftrightarrow> n = 1"
  using of_nat_size_zero_iff [of "n - 1"] by (cases n) auto

subsection \<open>Arrays of slots\<close>

text \<open>
  The search loops of the registries and of a client's invitation table: the first index whose
  entry satisfies a test.
\<close>

fun find_idx :: "('a \<Rightarrow> bool) \<Rightarrow> 'a list \<Rightarrow> nat option" where
  "find_idx P [] = None"
| "find_idx P (x # xs) = (if P x then Some 0 else map_option Suc (find_idx P xs))"

lemma find_idx_None_iff: "find_idx P xs = None \<longleftrightarrow> (\<forall>x \<in> set xs. \<not> P x)"
  by (induction xs) auto

lemma find_idx_SomeD:
  "find_idx P xs = Some k \<Longrightarrow> k < length xs \<and> P (xs ! k) \<and> (\<forall>j < k. \<not> P (xs ! j))"
proof (induction xs arbitrary: k)
  case Nil
  then show ?case by simp
next
  case (Cons x xs)
  then show ?case
    by (auto split: if_splits simp: less_Suc_eq_0_disj)
qed

lemma find_idx_Some_iff:
  "find_idx P xs = Some k \<longleftrightarrow> k < length xs \<and> P (xs ! k) \<and> (\<forall>j < k. \<not> P (xs ! j))"
proof
  assume "k < length xs \<and> P (xs ! k) \<and> (\<forall>j < k. \<not> P (xs ! j))"
  then show "find_idx P xs = Some k"
  proof (induction xs arbitrary: k)
    case Nil
    then show ?case by simp
  next
    case (Cons x xs)
    show ?case
    proof (cases k)
      case 0
      with Cons.prems show ?thesis by simp
    next
      case (Suc j)
      with Cons.prems have "find_idx P xs = Some j"
        by (intro Cons.IH) auto
      with Cons.prems Suc show ?thesis by fastforce
    qed
  qed
qed (rule find_idx_SomeD)

lemma find_idx_eq_None: "find_idx (\<lambda>x. x = y) xs = None \<longleftrightarrow> y \<notin> set xs"
  by (induction xs) auto

lemma find_idx_exists: "x \<in> set xs \<Longrightarrow> P x \<Longrightarrow> \<exists>k. find_idx P xs = Some k"
  using find_idx_None_iff by (metis not_None_eq)

lemma find_idx_member:
  assumes "x \<in> set xs"
  obtains k where "find_idx (\<lambda>y. y = x) xs = Some k"
  using find_idx_exists [OF assms, of "\<lambda>y. y = x"] by auto

text \<open>Occupied slots of an array of pointers.\<close>

definition occupied :: "'a option list \<Rightarrow> nat" where
  "occupied xs = length (filter (\<lambda>x. x \<noteq> None) xs)"

lemma occupied_le: "occupied xs \<le> length xs"
  by (simp add: occupied_def)

lemma occupied_Nil [simp]: "occupied [] = 0"
  by (simp add: occupied_def)

lemma occupied_Cons [simp]: "occupied (x # xs) = (if x = None then 0 else 1) + occupied xs"
  by (simp add: occupied_def)

lemma occupied_replicate_None [simp]: "occupied (replicate n None) = 0"
  by (induction n) auto

lemma occupied_fill: "k < length xs \<Longrightarrow> xs ! k = None \<Longrightarrow>
    occupied (xs[k := Some v]) = Suc (occupied xs)"
  by (induction xs arbitrary: k) (auto simp: less_Suc_eq_0_disj)

lemma occupied_clear: "k < length xs \<Longrightarrow> xs ! k \<noteq> None \<Longrightarrow>
    Suc (occupied (xs[k := None])) = occupied xs"
  by (induction xs arbitrary: k) (auto simp: less_Suc_eq_0_disj)

lemma occupied_full_iff: "occupied xs = length xs \<longleftrightarrow> None \<notin> set xs"
proof (induction xs)
  case (Cons x xs)
  then show ?case using occupied_le [of xs] by auto
qed simp

lemma occupied_zero_iff: "occupied xs = 0 \<longleftrightarrow> set xs \<subseteq> {None}"
  by (induction xs) auto

end
