(* ===== verification/Refcount.thy ===== *)
theory Refcount
  imports Prelude
begin

text \<open>
  The interface of a reference counted structure, as its clients rely on it: a reference adds one to
  the count, dropping one subtracts one and frees the structure when the count reaches zero. The
  interface is stated for the functions on structure contents that the game and player modules
  export (\<open>NULL\<close> is \<open>None\<close>, and so is the result of an \<open>unref\<close> that freed the structure), and
  interpreted on both.
\<close>

locale refcounted =
  fixes ref_op :: "'o option \<Rightarrow> 'o option"
    and unref_op :: "'o option \<Rightarrow> 'o option"
    and count :: "'o \<Rightarrow> size_t"
    and set_count :: "size_t \<Rightarrow> 'o \<Rightarrow> 'o"
  assumes ref_NULL: "ref_op None = None"
    and unref_NULL: "unref_op None = None"
    and ref_live: "ref_op (Some x) = Some (set_count (size_inc (count x)) x)"
    and unref_live: "unref_op (Some x) =
      (if size_dec (count x) = 0 then None else Some (set_count (size_dec (count x)) x))"
    and count_set: "count (set_count n x) = n"
    and set_set: "set_count m (set_count n x) = set_count m x"
    and set_same: "set_count (count x) x = x"

context refcounted
begin

lemma unref_ref: "count x \<noteq> 0 \<Longrightarrow> unref_op (ref_op (Some x)) = Some x"
  by (simp add: ref_live unref_live count_set set_set set_same)

lemma unref_last: "count x = 1 \<Longrightarrow> unref_op (Some x) = None"
  by (simp add: unref_live size_dec_def)

lemma unref_freed_iff: "unref_op (Some x) = None \<longleftrightarrow> count x = 1"
  by (simp add: unref_live size_dec_def)

lemma refs: "(ref_op ^^ n) (Some x) = Some (set_count (count x + of_nat n) x)"
proof (induction n)
  case 0
  then show ?case by (simp add: set_same)
next
  case (Suc n)
  then show ?case by (simp add: ref_live count_set set_set size_inc_def ac_simps)
qed

lemma unrefs:
  "n \<le> k \<Longrightarrow> k < 2 ^ 64 \<Longrightarrow> count x = of_nat k \<Longrightarrow> 0 < k \<Longrightarrow>
   (unref_op ^^ n) (Some x) = (if n = k then None else Some (set_count (of_nat (k - n)) x))"
proof (induction n)
  case 0
  then show ?case using set_same [of x] by simp
next
  case (Suc n)
  then have IH: "(unref_op ^^ n) (Some x) = Some (set_count (of_nat (k - n)) x)" by auto
  have dec: "size_dec (of_nat (k - n)) = (of_nat (k - Suc n) :: size_t)"
    using Suc.prems size_dec_of_nat [of "k - n"] by simp
  have zero: "(of_nat (k - Suc n) :: size_t) = 0 \<longleftrightarrow> Suc n = k"
    using of_nat_size_zero_iff [of "k - Suc n"] Suc.prems by auto
  show ?case using IH dec zero by (simp add: unref_live count_set set_set)
qed

text \<open>A structure that was created with one reference and referenced \<open>n\<close> more times outlives \<open>n\<close> calls
of \<open>unref\<close> and is freed by the next one.\<close>

lemma balanced:
  assumes "count x = 1" and "Suc n < 2 ^ 64"
  shows "(unref_op ^^ n) ((ref_op ^^ n) (Some x)) = Some x"
    and "(unref_op ^^ Suc n) ((ref_op ^^ n) (Some x)) = None"
proof -
  let ?y = "set_count (of_nat (Suc n)) x"
  have y: "(ref_op ^^ n) (Some x) = Some ?y" using refs [of n x] assms(1) by simp
  have "set_count 1 x = x" using set_same [of x] assms(1) by simp
  then show "(unref_op ^^ n) ((ref_op ^^ n) (Some x)) = Some x"
    using unrefs [of n "Suc n" ?y] assms(2) y by (simp add: count_set set_set)
  show "(unref_op ^^ Suc n) ((ref_op ^^ n) (Some x)) = None"
    using unrefs [of "Suc n" "Suc n" ?y] assms(2) y by (simp add: count_set del: funpow.simps)
qed

end

end
