(* ===== verification/Game.thy ===== *)
theory Game
  imports Refcount
begin

text \<open>
  The game module (\<open>src/src/game.c\<close>, \<open>src/include/game.h\<close>): the state of one tic-tac-toe game, its
  moves, and every operation of the module on that state.

  A function of the module that takes a \<open>GAME *\<close> is modelled on \<open>game option\<close>: \<open>None\<close> is the
  \<open>NULL\<close> pointer and \<open>Some g\<close> a pointer to a live structure with contents \<open>g\<close>. The updated
  contents are returned; \<open>game_unref\<close> returns \<open>None\<close> when it freed the structure. Each mutex of
  the structure protects one critical section inside one operation, so an operation is one step of
  the model. The board pointer of a live structure is never \<open>NULL\<close>.
\<close>

subsection \<open>Data\<close>

datatype GAME_ROLE = NULL_ROLE | FIRST_PLAYER_ROLE | SECOND_PLAYER_ROLE

definition GAME_RUNNING :: int where
  "GAME_RUNNING = 0"

definition GAME_TERMINATED :: int where
  "GAME_TERMINATED = 1"

type_synonym board_t = "char list list"

record game =
  board :: board_t
  cur_turn :: GAME_ROLE
  game_status :: int
  winner :: GAME_ROLE
  g_ref_count :: size_t

record game_move =
  gr :: GAME_ROLE
  i_coord :: nat
  j_coord :: nat
  original_num :: nat

subsection \<open>Setters and getters\<close>

definition set_winner :: "GAME_ROLE \<Rightarrow> game \<Rightarrow> game" where
  "set_winner r g = g\<lparr>winner := r\<rparr>"

definition get_winner :: "game \<Rightarrow> GAME_ROLE" where
  "get_winner g = winner g"

definition set_game_move :: "GAME_ROLE \<Rightarrow> game \<Rightarrow> game" where
  "set_game_move r g = g\<lparr>cur_turn := r\<rparr>"

definition get_game_move :: "game \<Rightarrow> GAME_ROLE" where
  "get_game_move g = cur_turn g"

definition set_game_status :: "int \<Rightarrow> game \<Rightarrow> game" where
  "set_game_status s g = g\<lparr>game_status := s\<rparr>"

definition get_game_status :: "game \<Rightarrow> int" where
  "get_game_status g = game_status g"

subsection \<open>Creation and reference counts\<close>

definition game_ref :: "game option \<Rightarrow> game option" where
  "game_ref gp = (case gp of None \<Rightarrow> None
     | Some g \<Rightarrow> Some (g\<lparr>g_ref_count := size_inc (g_ref_count g)\<rparr>))"

definition game_unref :: "game option \<Rightarrow> game option" where
  "game_unref gp = (case gp of None \<Rightarrow> None
     | Some g \<Rightarrow>
         let g' = g\<lparr>g_ref_count := size_dec (g_ref_count g)\<rparr>
         in if g_ref_count g' = 0 then None else Some g')"

text \<open>\<open>board[i][j] = c\<close>, and a loop nest that stores \<open>c\<close> at a list of positions.\<close>

definition set_cell :: "board_t \<Rightarrow> nat \<Rightarrow> nat \<Rightarrow> char \<Rightarrow> board_t" where
  "set_cell b i j c = b[i := (b ! i)[j := c]]"

definition fill_cells :: "(nat \<times> nat) list \<Rightarrow> char \<Rightarrow> board_t \<Rightarrow> board_t" where
  "fill_cells ps c b = fold (\<lambda>(i, j) b. set_cell b i j c) ps b"

text \<open>The five initialisation loops of \<open>game_create\<close>, over five zeroed rows of six bytes.\<close>

definition init_board :: board_t where
  "init_board =
    (let b0 = replicate 5 (replicate 6 (CHR 0x00));
         b1 = fill_cells (List.product [0,1,2,3,4] [0,1,2,3,4]) (CHR '' '') b0;
         b2 = fill_cells (List.product [0,1,2,3,4] [5]) (CHR 0x0A) b1;
         b3 = fill_cells (List.product [1,3] [0,1,2,3,4]) (CHR ''-'') b2
     in fill_cells (List.product [0,2,4] [1,3]) (CHR ''|'') b3)"

text \<open>The loop that allocates the rows stops at the first failure.\<close>

fun alloc_rows :: "nat \<Rightarrow> mem \<Rightarrow> bool \<times> mem" where
  "alloc_rows 0 m = (True, m)"
| "alloc_rows (Suc n) m =
     (let (ok, m1) = malloc m in if ok then alloc_rows n m1 else (False, m1))"

definition game_create :: "mem \<Rightarrow> game option \<times> mem" where
  "game_create m =
    (let (ok, m1) = malloc m
     in if \<not> ok then (None, m1)
        else let (ok, m2) = malloc m1
        in if \<not> ok then (None, m2)
        else let (ok, m3) = alloc_rows 5 m2
        in if \<not> ok then (None, m3)
        else (game_ref (Some \<lparr>board = init_board, cur_turn = FIRST_PLAYER_ROLE,
                              game_status = GAME_RUNNING, winner = NULL_ROLE,
                              g_ref_count = 0\<rparr>), m3))"

subsection \<open>Moves\<close>

text \<open>
  \<open>verify_board\<close>: the character that fills a row, a column or a diagonal, \<open>0\<close> if there is none.
  Each loop skips a line that starts with a blank, counts the cells equal to the first one, and
  returns at once when it counts three.
\<close>

fun verify_rows :: "board_t \<Rightarrow> nat list \<Rightarrow> char option" where
  "verify_rows b [] = None"
| "verify_rows b (i # is) =
     (let c = b ! i ! 0
      in if c = CHR '' '' then verify_rows b is
         else let co = length (filter (\<lambda>j. b ! i ! j = c) [0,2,4])
         in if co = 3 then Some c else verify_rows b is)"

fun verify_cols :: "board_t \<Rightarrow> nat list \<Rightarrow> char option" where
  "verify_cols b [] = None"
| "verify_cols b (j # js) =
     (let c = b ! 0 ! j
      in if c = CHR '' '' then verify_cols b js
         else let co = length (filter (\<lambda>i. b ! i ! j = c) [0,2,4])
         in if co = 3 then Some c else verify_cols b js)"

definition verify_diag :: "board_t \<Rightarrow> (nat \<times> nat) list \<Rightarrow> char \<Rightarrow> char option" where
  "verify_diag b ps c =
     (if c \<noteq> CHR '' '' \<and> length (filter (\<lambda>(i, j). b ! i ! j = c) ps) = 3
      then Some c else None)"

definition verify_board :: "board_t \<Rightarrow> int" where
  "verify_board b =
    (case verify_rows b [0,2,4] of Some c \<Rightarrow> of_char c | None \<Rightarrow>
     case verify_cols b [0,2,4] of Some c \<Rightarrow> of_char c | None \<Rightarrow>
     case verify_diag b [(0,0),(2,2),(4,4)] (b ! 0 ! 0) of Some c \<Rightarrow> of_char c | None \<Rightarrow>
     case verify_diag b [(0,4),(2,2),(4,0)] (b ! 0 ! 4) of Some c \<Rightarrow> of_char c | None \<Rightarrow> 0)"

definition space_exist :: "board_t \<Rightarrow> bool" where
  "space_exist b \<longleftrightarrow> (\<exists>i \<in> set [0,2,4]. \<exists>j \<in> set [0,2,4]. b ! i ! j = CHR '' '')"

text \<open>Reads and writes at the coordinates of a move; outside the five rows of six bytes they are
  undefined.\<close>

definition in_board :: "board_t \<Rightarrow> nat \<Rightarrow> nat \<Rightarrow> bool" where
  "in_board b i j \<longleftrightarrow> i < length b \<and> j < length (b ! i)"

definition apply_and_verify_safe :: "game \<Rightarrow> game_move \<Rightarrow> (int \<times> game) option" where
  "apply_and_verify_safe g move =
    (if \<not> space_exist (board g) then Some (33, g)
     else if \<not> in_board (board g) (i_coord move) (j_coord move) then None
     else let b = set_cell (board g) (i_coord move) (j_coord move)
                    (if gr move = FIRST_PLAYER_ROLE then CHR ''X'' else CHR ''O'');
              g' = g\<lparr>board := b\<rparr>;
              ret = verify_board b
     in if ret \<noteq> 0 then Some (ret, g')
        else if \<not> space_exist b then Some (33, g')
        else Some (0, g'))"

definition game_is_over :: "game option \<Rightarrow> bool" where
  "game_is_over gp = (case gp of None \<Rightarrow> False
     | Some g \<Rightarrow> get_game_status g = GAME_TERMINATED)"

definition game_apply_move :: "game option \<Rightarrow> game_move option \<Rightarrow> (int \<times> game option) option" where
  "game_apply_move gp mp =
    (case mp of None \<Rightarrow> Some (-1, gp)
     | Some move \<Rightarrow>
       if game_is_over gp then Some (-1, gp)
       else if gr move = NULL_ROLE then Some (-1, gp)
       else case gp of None \<Rightarrow> None
       | Some g \<Rightarrow>
         if \<not> in_board (board g) (i_coord move) (j_coord move) then None
         else if board g ! i_coord move ! j_coord move \<noteq> CHR '' '' then Some (-1, gp)
         else do {
           (c, g1) \<leftarrow> apply_and_verify_safe g move;
           let g2 = set_game_move (if FIRST_PLAYER_ROLE = gr move then SECOND_PLAYER_ROLE
                                   else FIRST_PLAYER_ROLE) g1;
           let g3 = (if c \<noteq> 0 then
                       let g4 = set_game_status GAME_TERMINATED g2
                       in if c = of_char (CHR ''X'') then set_winner FIRST_PLAYER_ROLE g4
                          else if c = of_char (CHR ''O'') then set_winner SECOND_PLAYER_ROLE g4
                          else g4
                     else g2);
           Some (0, Some g3)
         })"

definition game_resign :: "game option \<Rightarrow> GAME_ROLE \<Rightarrow> int \<times> game option" where
  "game_resign gp role =
    (case gp of None \<Rightarrow> (-1, None)
     | Some g \<Rightarrow>
       if game_is_over gp then (-1, gp)
       else let g1 = set_game_status GAME_TERMINATED g;
                g2 = set_winner (if role = FIRST_PLAYER_ROLE then SECOND_PLAYER_ROLE
                                 else FIRST_PLAYER_ROLE) g1
            in (0, Some g2))"

definition game_get_winner :: "game option \<Rightarrow> GAME_ROLE option" where
  "game_get_winner gp = map_option get_winner gp"

subsection \<open>Text\<close>

definition role_char :: "GAME_ROLE \<Rightarrow> char" where
  "role_char r = (if r = FIRST_PLAYER_ROLE then CHR ''X'' else CHR ''O'')"

definition game_unparse_state :: "game option \<Rightarrow> mem \<Rightarrow> string option \<times> mem" where
  "game_unparse_state gp m =
    (case gp of None \<Rightarrow> (None, m)
     | Some g \<Rightarrow>
       let (ok, m1) = malloc m
       in if \<not> ok then (None, m1)
          else (Some (concat (board g) @ [role_char (get_game_move g)] @ '' to move'' @ [CHR 0x0A]),
                m1))"

text \<open>
  \<open>is_valid_move_str\<close> reads \<open>*(str + k)\<close> only after the characters before it were found not to be
  the terminator, so every read is inside the string or at its terminator.
\<close>

definition is_valid_move_str :: "GAME_ROLE \<Rightarrow> string option \<Rightarrow> int" where
  "is_valid_move_str cur_role strp =
    (case strp of None \<Rightarrow> -1
     | Some str \<Rightarrow>
       if length str = 0 then -1
       else let first_char = char_at str 0
       in if first_char < CHR ''1'' \<or> first_char > CHR ''9'' then -1
       else if char_at str 1 = CHR 0x00 then of_char first_char - of_char (CHR ''0'')
       else if char_at str 1 \<noteq> CHR ''<'' then -1
       else if char_at str 2 \<noteq> CHR ''-'' then -1
       else if char_at str 3 = CHR ''X'' then
         (if cur_role \<noteq> FIRST_PLAYER_ROLE then -1
          else of_char first_char - of_char (CHR ''0''))
       else if char_at str 3 = CHR ''O'' then
         (if cur_role \<noteq> SECOND_PLAYER_ROLE then -1
          else of_char first_char - of_char (CHR ''0''))
       else -1)"

definition game_parse_move ::
  "game option \<Rightarrow> GAME_ROLE \<Rightarrow> string option \<Rightarrow> mem \<Rightarrow> game_move option \<times> mem" where
  "game_parse_move gp role strp m =
    (case gp of None \<Rightarrow> (None, m)
     | Some g \<Rightarrow>
       if role \<noteq> NULL_ROLE \<and> role \<noteq> get_game_move g then (None, m)
       else let move = is_valid_move_str role strp
       in if move = -1 then (None, m)
       else let (ok, m1) = malloc m
       in if \<not> ok then (None, m1)
       else (Some \<lparr>gr = role, i_coord = nat ((move - 1) div 3) * 2,
                   j_coord = nat ((move - 1) mod 3) * 2, original_num = nat move\<rparr>, m1))"

definition game_unparse_move :: "game_move option \<Rightarrow> mem \<Rightarrow> string option \<times> mem" where
  "game_unparse_move mp m =
    (case mp of None \<Rightarrow> (None, m)
     | Some move \<Rightarrow>
       let (ok, m1) = malloc m
       in if \<not> ok then (None, m1)
          else (Some (dec_string (int (original_num move)) @ ''<-'' @ [role_char (gr move)]
                      @ [CHR 0x0A]), m1))"

subsection \<open>Boards as nine cells\<close>

text \<open>
  The five by six character grid holds nine playable cells, at even coordinates, between fixed
  separators. \<open>mk_board\<close> lays nine cells out, \<open>cells_of\<close> reads them back, and \<open>cell_pos\<close> gives the
  coordinates of the cell with a given number, counted from 0 in reading order.
\<close>

definition mk_board :: "char list \<Rightarrow> board_t" where
  "mk_board cs =
    [[cs ! 0, CHR ''|'', cs ! 1, CHR ''|'', cs ! 2, CHR 0x0A],
     [CHR ''-'', CHR ''-'', CHR ''-'', CHR ''-'', CHR ''-'', CHR 0x0A],
     [cs ! 3, CHR ''|'', cs ! 4, CHR ''|'', cs ! 5, CHR 0x0A],
     [CHR ''-'', CHR ''-'', CHR ''-'', CHR ''-'', CHR ''-'', CHR 0x0A],
     [cs ! 6, CHR ''|'', cs ! 7, CHR ''|'', cs ! 8, CHR 0x0A]]"

definition cells_of :: "board_t \<Rightarrow> char list" where
  "cells_of b = map (\<lambda>k. b ! (2 * (k div 3)) ! (2 * (k mod 3))) [0..<9]"

definition wf_cells :: "char list \<Rightarrow> bool" where
  "wf_cells cs \<longleftrightarrow> length cs = 9 \<and> set cs \<subseteq> {CHR '' '', CHR ''X'', CHR ''O''}"

definition wf_board :: "board_t \<Rightarrow> bool" where
  "wf_board b \<longleftrightarrow> wf_cells (cells_of b) \<and> b = mk_board (cells_of b)"

lemma length9E:
  assumes "length cs = (9 :: nat)"
  obtains c0 c1 c2 c3 c4 c5 c6 c7 c8 where "cs = [c0, c1, c2, c3, c4, c5, c6, c7, c8]"
  using assms by (auto simp: eval_nat_numeral length_Suc_conv)

lemma upt9: "[0..<9] = [0, 1, 2, 3, 4, 5, 6, 7, 8 :: nat]"
  by (simp add: upt_rec)

lemma less9E:
  assumes "k < (9 :: nat)"
  obtains "k = 0" | "k = 1" | "k = 2" | "k = 3" | "k = 4" | "k = 5" | "k = 6" | "k = 7" | "k = 8"
  using assms by linarith

lemma cells_of_mk_board [simp]: "length cs = 9 \<Longrightarrow> cells_of (mk_board cs) = cs"
  by (erule length9E) (simp add: cells_of_def mk_board_def upt9)

lemma wf_boardI: "wf_cells cs \<Longrightarrow> wf_board (mk_board cs)"
  by (simp add: wf_board_def wf_cells_def)

lemma wf_boardE:
  assumes "wf_board b"
  obtains cs where "wf_cells cs" and "b = mk_board cs" and "cells_of b = cs" and "length cs = 9"
  using assms by (auto simp: wf_board_def wf_cells_def)

lemma init_board_eq: "init_board = mk_board (replicate 9 (CHR '' ''))"
  by code_simp

lemma in_board_mk_board: "k < 9 \<Longrightarrow> in_board (mk_board cs) (k div 3 * 2) (k mod 3 * 2)"
  by (erule less9E) (simp_all add: in_board_def mk_board_def)

lemma read_mk_board: "k < 9 \<Longrightarrow> mk_board cs ! (k div 3 * 2) ! (k mod 3 * 2) = cs ! k"
  by (erule less9E) (simp_all add: mk_board_def)

lemma set_cell_mk_board_list:
  "k < 9 \<Longrightarrow>
   set_cell (mk_board [c0,c1,c2,c3,c4,c5,c6,c7,c8]) (k div 3 * 2) (k mod 3 * 2) c
   = mk_board ([c0,c1,c2,c3,c4,c5,c6,c7,c8][k := c])"
  by (erule less9E) (simp_all add: set_cell_def mk_board_def)

lemma set_cell_mk_board:
  "k < 9 \<Longrightarrow> length cs = 9 \<Longrightarrow>
   set_cell (mk_board cs) (k div 3 * 2) (k mod 3 * 2) c = mk_board (cs[k := c])"
  using set_cell_mk_board_list by (elim length9E) blast

lemma wf_cells_update:
  "wf_cells cs \<Longrightarrow> c \<in> {CHR '' '', CHR ''X'', CHR ''O''} \<Longrightarrow> wf_cells (cs[k := c])"
  using set_update_subset_insert [of cs k c] by (auto simp: wf_cells_def)

lemma space_exist_mk_board: "length cs = 9 \<Longrightarrow> space_exist (mk_board cs) \<longleftrightarrow> CHR '' '' \<in> set cs"
  by (erule length9E) (auto simp: space_exist_def mk_board_def)

subsection \<open>Winning lines\<close>

text \<open>The reference definition that \<open>verify_board\<close> is compared with: three equal marks on one of the
eight lines, the lines taken in the order in which the code looks at them.\<close>

definition win_lines :: "nat list list" where
  "win_lines = [[0,1,2], [3,4,5], [6,7,8], [0,3,6], [1,4,7], [2,5,8], [0,4,8], [2,4,6]]"

definition on_line :: "char \<Rightarrow> char list \<Rightarrow> nat list \<Rightarrow> bool" where
  "on_line c cs l \<longleftrightarrow> (\<forall>k \<in> set l. cs ! k = c)"

definition has_line :: "char \<Rightarrow> char list \<Rightarrow> bool" where
  "has_line c cs \<longleftrightarrow> (\<exists>l \<in> set win_lines. on_line c cs l)"

definition first_line :: "char list \<Rightarrow> char option" where
  "first_line cs =
    map_option (\<lambda>l. cs ! hd l)
      (List.find (\<lambda>l. cs ! hd l \<noteq> CHR '' '' \<and> on_line (cs ! hd l) cs l) win_lines)"

lemma filter3_all: "length (filter P [x, y, z]) = 3 \<longleftrightarrow> P x \<and> P y \<and> P z"
  by simp

lemma verify_rows_Cons:
  "verify_rows b (i # is) =
     (if b ! i ! 0 \<noteq> CHR '' '' \<and> b ! i ! 2 = b ! i ! 0 \<and> b ! i ! 4 = b ! i ! 0
      then Some (b ! i ! 0) else verify_rows b is)"
  by (simp add: Let_def filter3_all del: filter.simps cong: if_cong)

lemma verify_cols_Cons:
  "verify_cols b (j # js) =
     (if b ! 0 ! j \<noteq> CHR '' '' \<and> b ! 2 ! j = b ! 0 ! j \<and> b ! 4 ! j = b ! 0 ! j
      then Some (b ! 0 ! j) else verify_cols b js)"
  by (simp add: Let_def filter3_all del: filter.simps cong: if_cong)

lemma verify_diag_three:
  "verify_diag b [p, q, r] c =
     (if c \<noteq> CHR '' '' \<and> (\<lambda>(i, j). b ! i ! j = c) p \<and> (\<lambda>(i, j). b ! i ! j = c) q
         \<and> (\<lambda>(i, j). b ! i ! j = c) r
      then Some c else None)"
  by (simp add: verify_diag_def filter3_all del: filter.simps)

lemma find_Cons_if: "List.find P (x # xs) = (if P x then Some x else List.find P xs)"
  by simp

lemma case_option_if:
  "(case (if P then Some x else y) of None \<Rightarrow> a | Some z \<Rightarrow> f z) =
   (if P then f x else (case y of None \<Rightarrow> a | Some z \<Rightarrow> f z))"
  by simp

lemma map_option_if: "map_option f (if P then Some x else y) = (if P then Some (f x) else map_option f y)"
  by simp

lemma verify_board_list:
  "verify_board (mk_board [c0,c1,c2,c3,c4,c5,c6,c7,c8]) =
   (case first_line [c0,c1,c2,c3,c4,c5,c6,c7,c8] of None \<Rightarrow> 0 | Some c \<Rightarrow> of_char c)"
  unfolding verify_board_def verify_rows_Cons verify_cols_Cons verify_diag_three first_line_def
    win_lines_def find_Cons_if case_option_if map_option_if on_line_def
  by (simp add: mk_board_def cong: if_cong)

lemma verify_board_mk_board:
  "length cs = 9 \<Longrightarrow>
   verify_board (mk_board cs) = (case first_line cs of None \<Rightarrow> 0 | Some c \<Rightarrow> of_char c)"
  using verify_board_list by (elim length9E) blast

lemma first_line_Some: "first_line cs = Some c \<Longrightarrow> c \<noteq> CHR '' '' \<and> has_line c cs"
  by (auto simp: first_line_def has_line_def find_Some_iff)

lemma first_line_None: "first_line cs = None \<Longrightarrow> c \<noteq> CHR '' '' \<Longrightarrow> \<not> has_line c cs"
proof
  assume none: "first_line cs = None" and c: "c \<noteq> CHR '' ''" and "has_line c cs"
  then obtain l where l: "l \<in> set win_lines" "on_line c cs l"
    by (auto simp: has_line_def)
  then have "hd l \<in> set l" by (auto simp: win_lines_def)
  with l have "cs ! hd l = c" by (simp add: on_line_def)
  with none l c show False by (auto simp: first_line_def find_None_iff)
qed

subsection \<open>The reference counts of a game\<close>

interpretation game_rc: refcounted game_ref game_unref g_ref_count "\<lambda>n g. g\<lparr>g_ref_count := n\<rparr>"
  by unfold_locales (simp_all add: game_ref_def game_unref_def Let_def)

end
