(* ===== verification/Tictactoe.thy ===== *)
theory Tictactoe
  imports Game
begin

text \<open>
  The contract of the game module: an abstract game of tic-tac-toe (nine marks, the player to move,
  whether the game is over and who won), the invariant of a live \<open>GAME\<close> structure, and the lemmas
  that show each operation of \<open>game.c\<close> keeps the invariant and implements the abstract game. The
  histories of a game as a list of events, and what holds of every history.
\<close>

subsection \<open>The abstract game\<close>

record ttt =
  marks :: "GAME_ROLE list"
  mover :: GAME_ROLE
  over :: bool
  won :: GAME_ROLE

definition opponent :: "GAME_ROLE \<Rightarrow> GAME_ROLE" where
  "opponent r = (if r = FIRST_PLAYER_ROLE then SECOND_PLAYER_ROLE else FIRST_PLAYER_ROLE)"

definition wins :: "GAME_ROLE \<Rightarrow> GAME_ROLE list \<Rightarrow> bool" where
  "wins r ms \<longleftrightarrow> (\<exists>l \<in> set win_lines. \<forall>k \<in> set l. ms ! k = r)"

definition ttt_start :: ttt where
  "ttt_start = \<lparr>marks = replicate 9 NULL_ROLE, mover = FIRST_PLAYER_ROLE, over = False,
                won = NULL_ROLE\<rparr>"

definition ttt_move :: "GAME_ROLE \<Rightarrow> nat \<Rightarrow> ttt \<Rightarrow> ttt option" where
  "ttt_move r k t =
    (if over t \<or> r = NULL_ROLE \<or> marks t ! k \<noteq> NULL_ROLE then None
     else let ms = (marks t)[k := r]
          in Some \<lparr>marks = ms, mover = opponent r, over = wins r ms \<or> NULL_ROLE \<notin> set ms,
                   won = (if wins r ms then r else NULL_ROLE)\<rparr>)"

definition ttt_resign :: "GAME_ROLE \<Rightarrow> ttt \<Rightarrow> ttt option" where
  "ttt_resign r t = (if over t then None else Some (t\<lparr>over := True, won := opponent r\<rparr>))"

subsection \<open>Abstraction and invariant of a game structure\<close>

definition role_of :: "char \<Rightarrow> GAME_ROLE" where
  "role_of c = (if c = CHR ''X'' then FIRST_PLAYER_ROLE
                else if c = CHR ''O'' then SECOND_PLAYER_ROLE else NULL_ROLE)"

definition abs_game :: "game \<Rightarrow> ttt" where
  "abs_game g = \<lparr>marks = map role_of (cells_of (board g)), mover = cur_turn g,
                 over = (game_status g = GAME_TERMINATED), won = winner g\<rparr>"

text \<open>
  A running game has no winner, no completed line and a free cell: \<open>game_apply_move\<close> would otherwise
  have terminated it.
\<close>

definition game_inv :: "game \<Rightarrow> bool" where
  "game_inv g \<longleftrightarrow>
     wf_board (board g) \<and> cur_turn g \<noteq> NULL_ROLE \<and>
     (game_status g = GAME_TERMINATED \<or>
      game_status g = GAME_RUNNING \<and> winner g = NULL_ROLE \<and>
      first_line (cells_of (board g)) = None \<and> CHR '' '' \<in> set (cells_of (board g)))"

text \<open>A move as \<open>game_parse_move\<close> builds it: its coordinates are those of its number.\<close>

definition wf_move :: "game_move \<Rightarrow> bool" where
  "wf_move mv \<longleftrightarrow> 1 \<le> original_num mv \<and> original_num mv \<le> 9 \<and>
     i_coord mv = (original_num mv - 1) div 3 * 2 \<and> j_coord mv = (original_num mv - 1) mod 3 * 2"

lemma statuses_differ [simp]: "GAME_RUNNING \<noteq> GAME_TERMINATED" "GAME_TERMINATED \<noteq> GAME_RUNNING"
  by (simp_all add: GAME_RUNNING_def GAME_TERMINATED_def)

lemma role_of_simps [simp]:
  "role_of (CHR ''X'') = FIRST_PLAYER_ROLE" "role_of (CHR ''O'') = SECOND_PLAYER_ROLE"
  "role_of (CHR '' '') = NULL_ROLE"
  by (simp_all add: role_of_def)

lemma role_of_char: "r \<noteq> NULL_ROLE \<Longrightarrow> role_of (role_char r) = r"
  by (cases r) (simp_all add: role_char_def)

lemma role_char_cell: "role_char r \<in> {CHR '' '', CHR ''X'', CHR ''O''}"
  by (simp add: role_char_def)

lemma role_of_eq_NULL: "c \<in> {CHR '' '', CHR ''X'', CHR ''O''} \<Longrightarrow>
    role_of c = NULL_ROLE \<longleftrightarrow> c = CHR '' ''"
  by (auto simp: role_of_def)

lemma role_of_inj: "c \<in> {CHR '' '', CHR ''X'', CHR ''O''} \<Longrightarrow> r \<noteq> NULL_ROLE \<Longrightarrow>
    role_of c = r \<longleftrightarrow> c = role_char r"
  by (cases r) (auto simp: role_of_def role_char_def)

lemma win_line_bounds: "l \<in> set win_lines \<Longrightarrow> k \<in> set l \<Longrightarrow> k < 9"
  by (auto simp: win_lines_def)

lemma win_line_hd: "l \<in> set win_lines \<Longrightarrow> hd l \<in> set l"
  by (auto simp: win_lines_def)

lemma wf_cells_nth: "wf_cells cs \<Longrightarrow> k < 9 \<Longrightarrow> cs ! k \<in> {CHR '' '', CHR ''X'', CHR ''O''}"
  by (metis nth_mem subsetD wf_cells_def)

lemma wins_marks:
  assumes "wf_cells cs" and "r \<noteq> NULL_ROLE"
  shows "wins r (map role_of cs) \<longleftrightarrow> has_line (role_char r) cs"
proof -
  have "length cs = 9" using assms(1) by (simp add: wf_cells_def)
  then have "k < 9 \<Longrightarrow> map role_of cs ! k = r \<longleftrightarrow> cs ! k = role_char r" for k
    using wf_cells_nth [OF assms(1), of k] role_of_inj [OF _ assms(2)] by simp
  then show ?thesis
    by (auto simp: wins_def has_line_def on_line_def win_line_bounds)
qed

lemma NULL_in_marks: "wf_cells cs \<Longrightarrow> NULL_ROLE \<in> set (map role_of cs) \<longleftrightarrow> CHR '' '' \<in> set cs"
  by (auto simp: wf_cells_def role_of_eq_NULL image_iff subset_iff) (metis role_of_simps(3))

text \<open>Two disjoint marks: after a move by one player, only that player can have gained a line.\<close>

lemma line_after_mark:
  assumes "first_line cs = None" and "c \<noteq> CHR '' ''" and "length cs = 9"
    and "has_line d (cs[k := c])" and "d \<noteq> CHR '' ''"
  shows "d = c"
proof (rule ccontr)
  assume "d \<noteq> c"
  from assms(4) obtain l where l: "l \<in> set win_lines" and on: "on_line d (cs[k := c]) l"
    by (auto simp: has_line_def)
  have "cs ! j = d" if "j \<in> set l" for j
    using on that \<open>d \<noteq> c\<close> assms(3) win_line_bounds [OF l that]
    by (cases "j = k") (auto simp: on_line_def)
  then have "has_line d cs" using l by (auto simp: has_line_def on_line_def)
  with first_line_None [OF assms(1,5)] show False by simp
qed

lemma first_line_after_mark:
  assumes "first_line cs = None" and "c \<noteq> CHR '' ''" and "length cs = 9"
  shows "first_line (cs[k := c]) = (if has_line c (cs[k := c]) then Some c else None)"
proof (cases "first_line (cs[k := c])")
  case None
  then show ?thesis using first_line_None [OF None assms(2)] by simp
next
  case (Some d)
  then have "d \<noteq> CHR '' ''" "has_line d (cs[k := c])" using first_line_Some by auto
  then show ?thesis using Some line_after_mark [OF assms] by auto
qed

subsection \<open>The operations on a game that satisfies the invariant\<close>

text \<open>The state after a legal move, with the cells as a list.\<close>

definition moved_game :: "game \<Rightarrow> GAME_ROLE \<Rightarrow> nat \<Rightarrow> game" where
  "moved_game g r k =
    (let cs = (cells_of (board g))[k := role_char r]
     in g\<lparr>board := mk_board cs, cur_turn := opponent r,
          game_status := (if has_line (role_char r) cs \<or> CHR '' '' \<notin> set cs
                          then GAME_TERMINATED else GAME_RUNNING),
          winner := (if has_line (role_char r) cs then r else NULL_ROLE)\<rparr>)"

definition legal_move :: "game \<Rightarrow> game_move \<Rightarrow> bool" where
  "legal_move g mv \<longleftrightarrow> game_status g \<noteq> GAME_TERMINATED \<and> gr mv \<noteq> NULL_ROLE \<and>
     cells_of (board g) ! (original_num mv - 1) = CHR '' ''"

lemma of_char_codes [simp]:
  "(of_char (CHR ''X'') :: int) = 88" "(of_char (CHR ''O'') :: int) = 79"
  by simp_all

lemma role_char_cases: "role_char r = CHR ''X'' \<or> role_char r = CHR ''O''"
  by (simp add: role_char_def)

lemma apply_and_verify_wf:
  assumes "game_inv g" and "game_status g = GAME_RUNNING" and "k < 9"
    and "i_coord mv = k div 3 * 2" and "j_coord mv = k mod 3 * 2"
  defines "cs \<equiv> (cells_of (board g))[k := role_char (gr mv)]"
  shows "apply_and_verify_safe g mv =
    Some (if has_line (role_char (gr mv)) cs then of_char (role_char (gr mv))
          else if CHR '' '' \<notin> set cs then 33 else 0, g\<lparr>board := mk_board cs\<rparr>)"
proof -
  from assms(1,2) obtain ds where ds: "wf_cells ds" "board g = mk_board ds" "cells_of (board g) = ds"
      "length ds = 9" and run: "first_line ds = None" "CHR '' '' \<in> set ds"
    by (auto simp: game_inv_def elim!: wf_boardE)
  let ?c = "role_char (gr mv)"
  have blank: "?c \<noteq> CHR '' ''" using role_char_cases [of "gr mv"] by auto
  have mark: "(if gr mv = FIRST_PLAYER_ROLE then CHR ''X'' else CHR ''O'') = ?c"
    by (simp add: role_char_def)
  have codes: "(of_char ?c :: int) \<noteq> 0" using role_char_cases [of "gr mv"] by auto
  have cs: "cs = ds[k := ?c]" "length cs = 9" by (simp_all add: cs_def ds)
  have ver: "verify_board (mk_board cs) = (if has_line ?c cs then of_char ?c else 0)"
    using first_line_after_mark [OF run(1) blank ds(4), of k] cs
    by (simp add: verify_board_mk_board)
  show ?thesis
    unfolding apply_and_verify_safe_def mark assms(4,5) ds(2)
    using run(2) ds(4) assms(3) cs codes
    by (simp add: space_exist_mk_board in_board_mk_board set_cell_mk_board ver Let_def
        flip: cs(1))
qed

lemma game_apply_move_legal:
  assumes "game_inv g" and "wf_move mv" and "legal_move g mv"
  shows "game_apply_move (Some g) (Some mv) =
           Some (0, Some (moved_game g (gr mv) (original_num mv - 1)))"
proof -
  let ?k = "original_num mv - 1"
  from assms(2) have mv: "?k < 9" "i_coord mv = ?k div 3 * 2" "j_coord mv = ?k mod 3 * 2"
    by (auto simp: wf_move_def)
  from assms(1,3) have run: "game_status g = GAME_RUNNING" "winner g = NULL_ROLE"
    by (auto simp: game_inv_def legal_move_def)
  from assms(1) obtain cs where cs: "board g = mk_board cs" "cells_of (board g) = cs" "length cs = 9"
    by (auto simp: game_inv_def elim!: wf_boardE)
  from assms(3) have r: "gr mv = FIRST_PLAYER_ROLE \<or> gr mv = SECOND_PLAYER_ROLE"
    by (cases "gr mv") (auto simp: legal_move_def)
  have free: "board g ! i_coord mv ! j_coord mv = CHR '' ''"
    and bounds: "in_board (board g) (i_coord mv) (j_coord mv)"
    using mv cs assms(3) by (simp_all add: read_mk_board in_board_mk_board legal_move_def)
  show ?thesis
    using r run(1,2) free bounds apply_and_verify_wf [OF assms(1) run(1) mv]
    by (auto simp: game_apply_move_def game_is_over_def get_game_status_def moved_game_def
        set_game_move_def set_game_status_def set_winner_def opponent_def role_char_def Let_def)
qed

lemma game_apply_move_illegal:
  assumes "game_inv g" and "wf_move mv" and "\<not> legal_move g mv"
  shows "game_apply_move (Some g) (Some mv) = Some (-1, Some g)"
proof -
  let ?k = "original_num mv - 1"
  from assms(2) have mv: "?k < 9" "i_coord mv = ?k div 3 * 2" "j_coord mv = ?k mod 3 * 2"
    by (auto simp: wf_move_def)
  from assms(1) obtain cs where cs: "board g = mk_board cs" "cells_of (board g) = cs" "length cs = 9"
    by (auto simp: game_inv_def elim!: wf_boardE)
  have "board g ! i_coord mv ! j_coord mv = cells_of (board g) ! ?k"
    and "in_board (board g) (i_coord mv) (j_coord mv)"
    using mv cs by (simp_all add: read_mk_board in_board_mk_board)
  with assms(3) show ?thesis
    by (auto simp: game_apply_move_def game_is_over_def get_game_status_def legal_move_def)
qed

lemma cells_moved_game [simp]:
  "length (cells_of (board g)) = 9 \<Longrightarrow>
   cells_of (board (moved_game g r k)) = (cells_of (board g))[k := role_char r]"
  by (simp add: moved_game_def Let_def)

lemma game_inv_cells: "game_inv g \<Longrightarrow> wf_cells (cells_of (board g))"
  by (simp add: game_inv_def wf_board_def)

lemma game_inv_length: "game_inv g \<Longrightarrow> length (cells_of (board g)) = 9"
  using game_inv_cells by (auto simp: wf_cells_def)

lemma moved_game_inv:
  assumes "game_inv g" and "game_status g \<noteq> GAME_TERMINATED"
  shows "game_inv (moved_game g r k)"
proof -
  let ?cs = "(cells_of (board g))[k := role_char r]"
  have wf: "wf_cells ?cs"
    by (intro wf_cells_update game_inv_cells assms(1) role_char_cell)
  then have len: "length ?cs = 9" by (simp add: wf_cells_def)
  from assms have none: "first_line (cells_of (board g)) = None"
    by (simp add: game_inv_def)
  have blank: "role_char r \<noteq> CHR '' ''" using role_char_cases [of r] by auto
  have "\<not> has_line (role_char r) ?cs \<Longrightarrow> first_line ?cs = None"
    using first_line_after_mark [OF none blank game_inv_length [OF assms(1)]] by simp
  then show ?thesis
    using wf_boardI [OF wf] len
    by (auto simp: game_inv_def moved_game_def Let_def opponent_def)
qed

lemma abs_moved_game:
  assumes "game_inv g" and "legal_move g mv" and "wf_move mv"
  shows "ttt_move (gr mv) (original_num mv - 1) (abs_game g)
    = Some (abs_game (moved_game g (gr mv) (original_num mv - 1)))"
proof -
  obtain k where k: "original_num mv = Suc k" and "k < 9"
    using assms(3) by (cases "original_num mv") (auto simp: wf_move_def)
  let ?r = "gr mv" and ?cs = "cells_of (board g)"
  from assms(2) have r: "?r \<noteq> NULL_ROLE" by (simp add: legal_move_def)
  have len: "length ?cs = 9" by (rule game_inv_length [OF assms(1)])
  have wf: "wf_cells (?cs[k := role_char ?r])"
    by (intro wf_cells_update game_inv_cells assms(1) role_char_cell)
  have upd: "(map role_of ?cs)[k := ?r] = map role_of (?cs[k := role_char ?r])"
    using r by (simp add: map_update role_of_char)
  have free: "map role_of ?cs ! k = NULL_ROLE"
    using assms(2) len \<open>k < 9\<close> k by (simp add: legal_move_def)
  have "ttt_move ?r k (abs_game g) =
      (let ms = map role_of (?cs[k := role_char ?r])
       in Some \<lparr>marks = ms, mover = opponent ?r, over = wins ?r ms \<or> NULL_ROLE \<notin> set ms,
               won = (if wins ?r ms then ?r else NULL_ROLE)\<rparr>)"
    using assms(2) r free upd by (simp add: ttt_move_def abs_game_def legal_move_def)
  then show ?thesis
    unfolding Let_def wins_marks [OF wf r] NULL_in_marks [OF wf]
    using len by (simp add: abs_game_def k moved_game_def Let_def)
qed

lemma abs_illegal:
  assumes "game_inv g" and "\<not> legal_move g mv" and "wf_move mv"
  shows "ttt_move (gr mv) (original_num mv - 1) (abs_game g) = None"
proof -
  obtain k where k: "original_num mv = Suc k" and "k < 9"
    using assms(3) by (cases "original_num mv") (auto simp: wf_move_def)
  have "role_of (cells_of (board g) ! k) = NULL_ROLE \<longleftrightarrow> cells_of (board g) ! k = CHR '' ''"
    using wf_cells_nth [OF game_inv_cells [OF assms(1)] \<open>k < 9\<close>] by (rule role_of_eq_NULL)
  then show ?thesis
    using assms(2) game_inv_length [OF assms(1)] \<open>k < 9\<close> k
    by (auto simp: ttt_move_def abs_game_def legal_move_def)
qed

lemma game_resign_abs:
  "game_resign (Some g) r =
    (case ttt_resign r (abs_game g) of
       None \<Rightarrow> (-1, Some g)
     | Some t \<Rightarrow> (0, Some (g\<lparr>game_status := GAME_TERMINATED, winner := opponent r\<rparr>)))"
  by (simp add: game_resign_def game_is_over_def get_game_status_def ttt_resign_def abs_game_def
      set_game_status_def set_winner_def opponent_def)

lemma game_resign_inv: "game_inv g \<Longrightarrow> game_resign (Some g) r = (st, Some g') \<Longrightarrow> game_inv g'"
  by (auto simp: game_resign_def game_inv_def game_is_over_def get_game_status_def
      set_game_status_def set_winner_def split: if_splits)

lemma alloc_rows_ok [simp]: "alloc_rows n [] = (True, [])"
  by (induction n) auto

lemma game_create_success:
  "game_create m = (Some g, m') \<Longrightarrow>
   g = \<lparr>board = mk_board (replicate 9 (CHR '' '')), cur_turn = FIRST_PLAYER_ROLE,
        game_status = GAME_RUNNING, winner = NULL_ROLE, g_ref_count = 1\<rparr>"
  by (auto simp: game_create_def game_ref_def size_inc_def init_board_eq
      split: prod.splits if_splits)

lemma first_line_blank: "first_line (replicate 9 (CHR '' '')) = None"
  by code_simp

lemma game_create_inv: "game_create m = (Some g, m') \<Longrightarrow> game_inv g"
  by (drule game_create_success)
     (simp add: game_inv_def wf_board_def wf_cells_def first_line_blank)

subsection \<open>Texts\<close>

lemma is_valid_move_str_range:
  "is_valid_move_str r sp \<noteq> -1 \<Longrightarrow> 1 \<le> is_valid_move_str r sp \<and> is_valid_move_str r sp \<le> 9"
proof -
  assume a: "is_valid_move_str r sp \<noteq> -1"
  then obtain str where sp: "sp = Some str" by (auto simp: is_valid_move_str_def split: option.splits)
  let ?c = "char_at str 0"
  from a sp have c: "\<not> ?c < CHR ''1''" "\<not> ?c > CHR ''9''"
      "is_valid_move_str r sp = of_char ?c - of_char (CHR ''0'')"
    by (auto simp: is_valid_move_str_def Let_def split: if_splits)
  then have "49 \<le> (of_char ?c :: nat)" "(of_char ?c :: nat) \<le> 57"
    by (simp_all add: less_char_def not_less)
  then have "49 \<le> (of_char ?c :: int)" "(of_char ?c :: int) \<le> 57"
    using of_nat_of_char [of ?c, where ?'a = int] by linarith+
  with c show ?thesis by simp
qed

lemma game_parse_move_wf:
  assumes "game_parse_move gp r sp m = (Some mv, m')"
  shows "wf_move mv \<and> gr mv = r \<and> (\<exists>g. gp = Some g \<and> (r = NULL_ROLE \<or> r = cur_turn g))"
proof -
  let ?v = "is_valid_move_str r sp"
  from assms have v: "?v \<noteq> -1" and mv: "mv = \<lparr>gr = r, i_coord = nat ((?v - 1) div 3) * 2,
      j_coord = nat ((?v - 1) mod 3) * 2, original_num = nat ?v\<rparr>"
    and g: "\<exists>g. gp = Some g \<and> (r = NULL_ROLE \<or> r = cur_turn g)"
    by (auto simp: game_parse_move_def get_game_move_def Let_def
        split: option.splits if_splits prod.splits)
  from is_valid_move_str_range [OF v] have "1 \<le> ?v" "?v \<le> 9" by auto
  moreover define n where "n = nat (?v - 1)"
  ultimately have n: "?v = int n + 1" and "n < 9" by auto
  then have "wf_move mv"
    by (simp add: wf_move_def mv n nat_div_distrib nat_mod_distrib nat_add_distrib)
  with g mv show ?thesis by simp
qed

subsection \<open>Histories of a game\<close>

text \<open>
  The ways in which a \<open>GAME\<close> changes once it was created: a move that was parsed for the player
  who makes it and then applied with success, and a successful resignation. The history lists the
  events, oldest first; a move is recorded with its role and its cell number (from 1).
\<close>

datatype game_event = Moved GAME_ROLE nat | Resigned GAME_ROLE

inductive played :: "game_event list \<Rightarrow> game \<Rightarrow> bool" where
  created: "game_create m = (Some g, m') \<Longrightarrow> played [] g"
| moved: "played es g \<Longrightarrow> r \<noteq> NULL_ROLE \<Longrightarrow>
    game_parse_move (Some g) r sp m = (Some mv, m') \<Longrightarrow>
    game_apply_move (Some g) (Some mv) = Some (0, Some g') \<Longrightarrow>
    played (es @ [Moved r (original_num mv)]) g'"
| resigned: "played es g \<Longrightarrow> r \<noteq> NULL_ROLE \<Longrightarrow> game_resign (Some g) r = (0, Some g') \<Longrightarrow>
    played (es @ [Resigned r]) g'"

inductive_cases played_NilE: "played [] g"

text \<open>The cells after the moves of a history, and the player whose turn it is after \<open>n\<close> moves.\<close>

fun place :: "game_event \<Rightarrow> char list \<Rightarrow> char list" where
  "place (Moved r n) cs = cs[n - 1 := role_char r]"
| "place (Resigned r) cs = cs"

definition cells_after :: "game_event list \<Rightarrow> char list" where
  "cells_after es = fold place es (replicate 9 (CHR '' ''))"

definition turn_after :: "nat \<Rightarrow> GAME_ROLE" where
  "turn_after n = (if even n then FIRST_PLAYER_ROLE else SECOND_PLAYER_ROLE)"

definition blanks :: "char list \<Rightarrow> nat" where
  "blanks cs = count_list cs (CHR '' '')"

lemma cells_after_snoc [simp]: "cells_after (es @ [e]) = place e (cells_after es)"
  by (simp add: cells_after_def)

lemma opponent_turn: "opponent (turn_after n) = turn_after (Suc n)"
  by (simp add: opponent_def turn_after_def)

lemma count_list_replace:
  "k < length cs \<Longrightarrow> cs ! k = b \<Longrightarrow> c \<noteq> b \<Longrightarrow> Suc (count_list (cs[k := c]) b) = count_list cs b"
  by (induction cs arbitrary: k) (auto simp: less_Suc_eq_0_disj)

lemma blanks_replicate: "blanks (replicate 9 (CHR '' '')) = 9"
  by code_simp

lemma blanks_zero: "CHR '' '' \<notin> set cs \<longleftrightarrow> blanks cs = 0"
  by (simp add: blanks_def count_list_0_iff)

text \<open>
  What every history satisfies. While the game runs all events are moves, made in turn by the two
  players, on different cells; a game that is over ended with a resignation, with a line of the
  player who moved last, or with a full board.
\<close>

definition turns_ok :: "game_event list \<Rightarrow> bool" where
  "turns_ok es \<longleftrightarrow> (\<forall>i < length es. \<forall>r n. es ! i = Moved r n \<longrightarrow>
     r = turn_after i \<and> 1 \<le> n \<and> n \<le> 9)"

definition resigned_by :: "GAME_ROLE \<Rightarrow> game_event list \<Rightarrow> bool" where
  "resigned_by r es \<longleftrightarrow> r \<noteq> NULL_ROLE \<and> es \<noteq> [] \<and> last es = Resigned r"

definition outcome_ok :: "game_event list \<Rightarrow> game \<Rightarrow> bool" where
  "outcome_ok es g \<longleftrightarrow>
     (\<exists>r. resigned_by r es \<and> winner g = opponent r) \<or>
     (winner g \<noteq> NULL_ROLE \<and> has_line (role_char (winner g)) (cells_after es)) \<or>
     (winner g = NULL_ROLE \<and> first_line (cells_after es) = None \<and> blanks (cells_after es) = 0)"

definition history_inv :: "game_event list \<Rightarrow> game \<Rightarrow> bool" where
  "history_inv es g \<longleftrightarrow>
     game_inv g \<and> cells_of (board g) = cells_after es \<and> turns_ok es \<and>
     (if game_status g = GAME_TERMINATED then length es \<le> 9 \<and> outcome_ok es g
      else cur_turn g = turn_after (length es) \<and> blanks (cells_after es) + length es = 9)"

lemma turns_ok_snoc_Moved:
  "turns_ok (es @ [Moved r n]) \<longleftrightarrow> turns_ok es \<and> r = turn_after (length es) \<and> 1 \<le> n \<and> n \<le> 9"
  by (auto simp: turns_ok_def nth_append less_Suc_eq)

lemma turns_ok_snoc_Resigned: "turns_ok (es @ [Resigned r]) \<longleftrightarrow> turns_ok es"
  by (auto simp: turns_ok_def nth_append less_Suc_eq)

lemma history_inv_runningD:
  assumes "history_inv es g" and "game_status g \<noteq> GAME_TERMINATED"
  shows "game_inv g" and "cells_of (board g) = cells_after es" and "turns_ok es"
    and "cur_turn g = turn_after (length es)" and "blanks (cells_after es) + length es = 9"
    and "first_line (cells_after es) = None" and "blanks (cells_after es) \<noteq> 0"
    and "length (cells_after es) = 9"
proof -
  show gi: "game_inv g" and cells: "cells_of (board g) = cells_after es" and "turns_ok es"
    and "cur_turn g = turn_after (length es)" and "blanks (cells_after es) + length es = 9"
    using assms by (simp_all add: history_inv_def)
  show "first_line (cells_after es) = None" and "blanks (cells_after es) \<noteq> 0"
    using gi cells assms(2) blanks_zero [of "cells_after es"] by (auto simp: game_inv_def)
  show "length (cells_after es) = 9" using game_inv_length [OF gi] cells by simp
qed

lemma history_inv_created:
  assumes "game_create m = (Some g, m')"
  shows "history_inv [] g"
  using game_create_inv [OF assms] game_create_success [OF assms]
  by (simp add: history_inv_def cells_after_def turn_after_def turns_ok_def blanks_replicate)

lemma apply_move_success:
  assumes "game_inv g" and "wf_move mv" and "game_apply_move (Some g) (Some mv) = Some (0, Some g')"
  shows "legal_move g mv \<and> g' = moved_game g (gr mv) (original_num mv - 1)"
  using assms game_apply_move_legal [OF assms(1,2)] game_apply_move_illegal [OF assms(1,2)]
  by (cases "legal_move g mv") auto

lemma moved_game_fields:
  assumes "game_inv g" and "cells_of (board g) = cs"
  shows "cells_of (board (moved_game g r k)) = cs[k := role_char r]"
    and "cur_turn (moved_game g r k) = opponent r"
    and "winner (moved_game g r k) = (if has_line (role_char r) (cs[k := role_char r]) then r else NULL_ROLE)"
    and "game_status (moved_game g r k) = GAME_TERMINATED \<longleftrightarrow>
      has_line (role_char r) (cs[k := role_char r]) \<or> blanks (cs[k := role_char r]) = 0"
  using assms(2) game_inv_length [OF assms(1)]
  by (simp_all add: moved_game_def Let_def blanks_zero)

lemma history_inv_moved:
  assumes inv: "history_inv es g" and r: "r \<noteq> NULL_ROLE"
    and parse: "game_parse_move (Some g) r sp m = (Some mv, m')"
    and app: "game_apply_move (Some g) (Some mv) = Some (0, Some g')"
  shows "history_inv (es @ [Moved r (original_num mv)]) g'"
proof -
  from game_parse_move_wf [OF parse] r have mv: "wf_move mv" "gr mv = r" "r = cur_turn g" by auto
  then obtain k where k: "original_num mv = Suc k" "k < 9"
    by (cases "original_num mv") (auto simp: wf_move_def)
  from inv have gi: "game_inv g" by (simp add: history_inv_def)
  from apply_move_success [OF gi mv(1) app] mv k
  have legal: "legal_move g mv" and g': "g' = moved_game g r k" by auto
  then have run: "game_status g \<noteq> GAME_TERMINATED" by (simp add: legal_move_def)
  note st = history_inv_runningD [OF inv run]
  let ?cs = "(cells_after es)[k := role_char r]"
  have blank: "role_char r \<noteq> CHR '' ''" using role_char_cases [of r] by auto
  have "cells_after es ! k = CHR '' ''" using legal st(2) k by (simp add: legal_move_def)
  then have count: "Suc (blanks ?cs) = blanks (cells_after es)"
    unfolding blanks_def using k st(8) blank by (intro count_list_replace) auto
  have line: "\<not> has_line (role_char r) ?cs \<Longrightarrow> first_line ?cs = None"
    using first_line_after_mark [OF st(6) blank st(8)] by simp
  have turn: "r = turn_after (length es)" using mv(3) st(4) by simp
  have out: "outcome_ok (es @ [Moved r (Suc k)]) g'" if "game_status g' = GAME_TERMINATED"
  proof (cases "has_line (role_char r) ?cs")
    case True
    then show ?thesis using r by (simp add: outcome_ok_def g' moved_game_fields [OF gi st(2)])
  next
    case False
    then have "blanks ?cs = 0" using that by (simp add: g' moved_game_fields [OF gi st(2)])
    with False line show ?thesis by (simp add: outcome_ok_def g' moved_game_fields [OF gi st(2)])
  qed
  have ok: "turns_ok (es @ [Moved r (Suc k)])"
    using st(3) turn k by (simp add: turns_ok_snoc_Moved)
  have next_turn: "cur_turn g' = turn_after (Suc (length es))"
    using turn opponent_turn by (simp add: g' moved_game_fields [OF gi st(2)])
  have cells: "cells_of (board g') = cells_after (es @ [Moved r (Suc k)])"
    by (simp add: g' moved_game_fields [OF gi st(2)])
  show ?thesis
    unfolding history_inv_def k cells
    using moved_game_inv [OF gi run, of r k] out ok next_turn count st(5) by (simp flip: g')
qed

lemma history_inv_resigned:
  assumes inv: "history_inv es g" and r: "r \<noteq> NULL_ROLE" and res: "game_resign (Some g) r = (0, Some g')"
  shows "history_inv (es @ [Resigned r]) g'"
proof -
  from res have run: "game_status g \<noteq> GAME_TERMINATED"
    and g': "g' = g\<lparr>game_status := GAME_TERMINATED, winner := opponent r\<rparr>"
    by (auto simp: game_resign_abs ttt_resign_def abs_game_def split: if_splits)
  note st = history_inv_runningD [OF inv run]
  from st(5,7) have "length es < 9" by simp
  moreover have "game_inv g'" using st(1) by (auto simp: g' game_inv_def)
  ultimately show ?thesis
    using st(2,3) r by (simp add: history_inv_def g' turns_ok_snoc_Resigned outcome_ok_def resigned_by_def)
qed

lemma played_history_inv: "played es g \<Longrightarrow> history_inv es g"
  by (induction rule: played.induct)
     (blast intro: history_inv_created history_inv_moved history_inv_resigned)+

subsection \<open>Properties of the game module\<close>

text \<open>C33: on every well-formed board \<open>verify_board\<close> returns the code of a mark exactly when three of
these marks stand on one of the eight lines, and 0 exactly when no line is complete.\<close>

theorem verify_board_correct:
  assumes "wf_board b"
  shows "(verify_board b = 0 \<and> \<not> has_line (CHR ''X'') (cells_of b) \<and> \<not> has_line (CHR ''O'') (cells_of b)) \<or>
     (\<exists>c \<in> {CHR ''X'', CHR ''O''}. verify_board b = of_char c \<and> has_line c (cells_of b))"
proof -
  from assms obtain cs where cs: "wf_cells cs" "b = mk_board cs" "cells_of b = cs" "length cs = 9"
    by (rule wf_boardE)
  show ?thesis
  proof (cases "first_line cs")
    case None
    then show ?thesis using cs first_line_None by (auto simp: verify_board_mk_board)
  next
    case (Some c)
    then have c: "c \<noteq> CHR '' ''" "has_line c cs" using first_line_Some by auto
    then obtain l where "l \<in> set win_lines" "on_line c cs l"
      by (auto simp: has_line_def)
    then have "l \<in> set win_lines" "hd l \<in> set l" "cs ! hd l = c"
      using win_line_hd by (auto simp: on_line_def)
    then have "c \<in> {CHR ''X'', CHR ''O''}"
      using wf_cells_nth [OF cs(1) win_line_bounds] c(1) by auto
    then show ?thesis using Some c cs by (auto simp: verify_board_mk_board)
  qed
qed

theorem verify_board_correct_witness:
  "verify_board (mk_board ''XXXOO    '') = 88 \<and> wf_board (mk_board ''XXXOO    '')"
  using verify_board_correct [OF wf_boardI [of "''XXXOO    ''"]]
  by (simp add: wf_cells_def verify_board_list first_line_def win_lines_def on_line_def wf_boardI)

text \<open>C15: \<open>game_apply_move\<close> implements the abstract game: on a game that satisfies the invariant and a
parsed move it returns -1 and changes nothing when the abstract move is illegal (the game is over,
no player is named, or the cell is taken), and otherwise returns 0 and a game that satisfies the
invariant and whose abstraction is the abstract game after the move.\<close>

theorem game_apply_move_refines:
  assumes "game_inv g" and "wf_move mv"
  shows "case ttt_move (gr mv) (original_num mv - 1) (abs_game g) of
      None \<Rightarrow> game_apply_move (Some g) (Some mv) = Some (-1, Some g)
    | Some t \<Rightarrow> \<exists>g'. game_apply_move (Some g) (Some mv) = Some (0, Some g') \<and>
        game_inv g' \<and> abs_game g' = t \<and> g_ref_count g' = g_ref_count g"
proof (cases "legal_move g mv")
  case True
  then have "game_inv (moved_game g (gr mv) (original_num mv - 1))"
    by (intro moved_game_inv assms) (simp add: legal_move_def)
  then show ?thesis
    using abs_moved_game [OF assms(1) True assms(2)] game_apply_move_legal [OF assms True]
    by (simp add: moved_game_def Let_def)
next
  case False
  then show ?thesis
    using abs_illegal [OF assms(1) False assms(2)] game_apply_move_illegal [OF assms False] by simp
qed

definition sample_game :: game where
  "sample_game = \<lparr>board = mk_board ''XX OO    '', cur_turn = FIRST_PLAYER_ROLE,
     game_status = GAME_RUNNING, winner = NULL_ROLE, g_ref_count = 1\<rparr>"

definition sample_move :: game_move where
  "sample_move = \<lparr>gr = FIRST_PLAYER_ROLE, i_coord = 0, j_coord = 4, original_num = 3\<rparr>"

lemma sample_game_inv: "game_inv sample_game" "wf_move sample_move"
  by code_simp+

theorem game_apply_move_refines_witness:
  "\<exists>g'. game_apply_move (Some sample_game) (Some sample_move) = Some (0, Some g') \<and>
     won (abs_game g') = FIRST_PLAYER_ROLE \<and> over (abs_game g')"
proof -
  have "ttt_move (gr sample_move) (original_num sample_move - 1) (abs_game sample_game) =
      Some \<lparr>marks = map role_of ''XXXOO    '', mover = SECOND_PLAYER_ROLE, over = True,
            won = FIRST_PLAYER_ROLE\<rparr>"
    by code_simp
  with game_apply_move_refines [OF sample_game_inv] show ?thesis by fastforce
qed

text \<open>C16: whatever moves and resignations a created game goes through, when it is over its outcome is
right: the winner is the opponent of the player who resigned last, or the player who owns a complete
line, or nobody, on a full board without a line. While it runs there is no winner, no line, and a
free cell.\<close>

theorem played_outcome:
  assumes "played es g"
  shows "(game_is_over (Some g) \<and> outcome_ok es g) \<or>
    (\<not> game_is_over (Some g) \<and> game_get_winner (Some g) = Some NULL_ROLE \<and>
     first_line (cells_after es) = None \<and> blanks (cells_after es) \<noteq> 0)"
proof -
  from played_history_inv [OF assms] have inv: "history_inv es g" .
  show ?thesis
  proof (cases "game_status g = GAME_TERMINATED")
    case True
    with inv show ?thesis
      by (simp add: history_inv_def game_is_over_def get_game_status_def)
  next
    case False
    with history_inv_runningD [OF inv False] show ?thesis
      by (simp add: game_is_over_def get_game_status_def game_get_winner_def get_winner_def game_inv_def)
  qed
qed

lemma played_two_events:
  "\<exists>g. played [Moved FIRST_PLAYER_ROLE 5, Resigned SECOND_PLAYER_ROLE] g"
proof -
  obtain g0 where g0: "game_create [] = (Some g0, [])" by (simp add: game_create_def game_ref_def)
  define mv where "mv = \<lparr>gr = FIRST_PLAYER_ROLE, i_coord = 2, j_coord = 2, original_num = 5\<rparr>"
  note init = game_create_success [OF g0]
  have "game_parse_move (Some g0) FIRST_PLAYER_ROLE (Some ''5'') [] = (Some mv, [])"
    unfolding init mv_def by code_simp
  moreover have legal: "legal_move g0 mv" unfolding init mv_def by code_simp
  moreover have wf: "wf_move mv" unfolding mv_def by code_simp
  ultimately have one: "played ([] @ [Moved FIRST_PLAYER_ROLE (original_num mv)])
      (moved_game g0 (gr mv) (original_num mv - 1))"
    using game_apply_move_legal [OF game_create_inv [OF g0]] g0
    by (intro played.moved [OF played.created [OF g0]]) auto
  have "game_status (moved_game g0 (gr mv) (original_num mv - 1)) = GAME_RUNNING"
    unfolding init mv_def by code_simp
  then show ?thesis
    using played.resigned [OF one, of SECOND_PLAYER_ROLE]
    by (auto simp: mv_def game_resign_def game_is_over_def get_game_status_def)
qed

theorem played_outcome_witness:
  "\<exists>g. played [Moved FIRST_PLAYER_ROLE 5, Resigned SECOND_PLAYER_ROLE] g \<and>
     (game_is_over (Some g) \<or> first_line (cells_after [Moved FIRST_PLAYER_ROLE 5, Resigned SECOND_PLAYER_ROLE]) = None)"
  using played_two_events played_outcome by blast

text \<open>C20: a game ends: no history has more than nine events. The players move in turn, the first
player first, and the board shows exactly the moves of the history.\<close>

theorem played_bounded_turns:
  assumes "played es g"
  shows "length es \<le> 9 \<and> turns_ok es \<and> board g = mk_board (cells_after es)"
proof -
  from played_history_inv [OF assms] have inv: "history_inv es g" .
  then have "wf_board (board g)" and "cells_of (board g) = cells_after es"
    by (simp_all add: history_inv_def game_inv_def)
  then have "board g = mk_board (cells_after es)" by (auto simp: wf_board_def)
  with inv show ?thesis by (auto simp: history_inv_def split: if_splits)
qed

theorem played_bounded_turns_witness:
  "\<exists>g. played [Moved FIRST_PLAYER_ROLE 5, Resigned SECOND_PLAYER_ROLE] g \<and>
     turns_ok [Moved FIRST_PLAYER_ROLE 5, Resigned SECOND_PLAYER_ROLE] \<and> board g = mk_board ''    X    ''"
proof -
  obtain g where g: "played [Moved FIRST_PLAYER_ROLE 5, Resigned SECOND_PLAYER_ROLE] g"
    using played_two_events by blast
  have "cells_after [Moved FIRST_PLAYER_ROLE 5, Resigned SECOND_PLAYER_ROLE] = ''    X    ''"
    by code_simp
  then show ?thesis using g played_bounded_turns [OF g] by auto
qed

text \<open>The digit of a cell number, and the two move notations: the digit alone, or the digit followed by
an arrow and the mark of the player (after which the parser reads no further).\<close>

definition digit :: "nat \<Rightarrow> char" where
  "digit n = char_of (48 + n)"

definition move_text :: "GAME_ROLE \<Rightarrow> nat \<Rightarrow> string \<Rightarrow> bool" where
  "move_text r n s \<longleftrightarrow> 1 \<le> n \<and> n \<le> 9 \<and>
     (s = [digit n] \<or> r \<noteq> NULL_ROLE \<and> take 4 s = [digit n, CHR ''<'', CHR ''-'', role_char r])"

lemma digit_between:
  "(\<not> c < CHR ''1'' \<and> \<not> c > CHR ''9'') \<longleftrightarrow> (\<exists>n. 1 \<le> n \<and> n \<le> 9 \<and> c = digit n)"
proof
  assume a: "\<not> c < CHR ''1'' \<and> \<not> c > CHR ''9''"
  define n where "n = of_char c - (48 :: nat)"
  from a have "49 \<le> (of_char c :: nat)" "(of_char c :: nat) \<le> 57" by (auto simp: less_char_def)
  then have "1 \<le> n \<and> n \<le> 9 \<and> 48 + n = of_char c" by (auto simp: n_def)
  then show "\<exists>n. 1 \<le> n \<and> n \<le> 9 \<and> c = digit n" by (metis digit_def char_of_char)
next
  assume "\<exists>n. 1 \<le> n \<and> n \<le> 9 \<and> c = digit n"
  then show "\<not> c < CHR ''1'' \<and> \<not> c > CHR ''9''"
    by (auto simp: less_char_def digit_def of_char_of)
qed

lemma digit_value: "n \<le> 9 \<Longrightarrow> of_char (digit n) - of_char (CHR ''0'') = int n"
proof -
  assume "n \<le> 9"
  then have "of_char (digit n) = (48 + n :: nat)" by (simp add: digit_def of_char_of)
  then have "(of_char (digit n) :: int) = int (48 + n)" by (metis of_nat_of_char)
  then show ?thesis by simp
qed

lemma digit_nonzero: "1 \<le> n \<Longrightarrow> n \<le> 9 \<Longrightarrow> digit n \<noteq> CHR 0x00"
  using digit_value [of n] by auto

lemma dec_string_digit:
  assumes "n \<le> 9"
  shows "dec_string (int n) = [digit n]"
proof -
  have "dec_digits n = [digit n]" using assms by (subst dec_digits.simps) (simp add: digit_def)
  then show ?thesis by (simp add: dec_string_def)
qed

lemma take4_iff: "take 4 s = [a, b, c, d] \<longleftrightarrow> (\<exists>t. s = a # b # c # d # t)"
proof
  assume "take 4 s = [a, b, c, d]"
  then have "s = [a, b, c, d] @ drop 4 s" by (metis append_take_drop_id)
  then show "\<exists>t. s = a # b # c # d # t" by auto
qed auto

lemma char_at_long: "char_at s k \<noteq> CHR 0x00 \<Longrightarrow> k < length s"
  by (auto simp: char_at_def split: if_splits)

lemma take4_char_at:
  assumes "char_at s 3 \<noteq> CHR 0x00"
  shows "take 4 s = [char_at s 0, char_at s 1, char_at s 2, char_at s 3]"
proof -
  from assms have "3 < length s" by (rule char_at_long)
  then show ?thesis
    by (intro nth_equalityI) (auto simp: char_at_def numeral_eq_Suc less_Suc_eq)
qed

lemma short_cstring: "is_cstring s \<Longrightarrow> s \<noteq> [] \<Longrightarrow> char_at s 1 = CHR 0x00 \<longleftrightarrow> s = [char_at s 0]"
  by (cases s; cases "tl s") (auto simp: is_cstring_def char_at_def)

lemma is_valid_move_str_sound:
  assumes "is_cstring s" and "is_valid_move_str r (Some s) = int n"
  shows "move_text r n s"
proof -
  let ?c = "char_at s 0"
  from assms(2) have ne: "s \<noteq> []" and c: "\<not> ?c < CHR ''1''" "\<not> ?c > CHR ''9''"
    and n: "int n = of_char ?c - of_char (CHR ''0'')"
    and shape: "char_at s 1 = CHR 0x00 \<or> char_at s 1 = CHR ''<'' \<and> char_at s 2 = CHR ''-'' \<and>
       (char_at s 3 = CHR ''X'' \<and> r = FIRST_PLAYER_ROLE \<or>
        char_at s 3 = CHR ''O'' \<and> r = SECOND_PLAYER_ROLE)"
    by (auto simp: is_valid_move_str_def Let_def split: if_splits)
  from c obtain k where k: "1 \<le> k" "k \<le> 9" "?c = digit k" using digit_between by metis
  with n have nk: "n = k" using digit_value [of k] by simp
  from shape show ?thesis
  proof
    assume "char_at s 1 = CHR 0x00"
    then show ?thesis using short_cstring [OF assms(1) ne] k nk by (simp add: move_text_def)
  next
    assume a: "char_at s 1 = CHR ''<'' \<and> char_at s 2 = CHR ''-'' \<and>
       (char_at s 3 = CHR ''X'' \<and> r = FIRST_PLAYER_ROLE \<or>
        char_at s 3 = CHR ''O'' \<and> r = SECOND_PLAYER_ROLE)"
    then have "char_at s 3 = role_char r" "r \<noteq> NULL_ROLE" by (auto simp: role_char_def)
    moreover have "char_at s 3 \<noteq> CHR 0x00" using a by auto
    ultimately show ?thesis using take4_char_at [of s] a k nk by (simp add: move_text_def)
  qed
qed

lemma is_valid_move_str_complete:
  assumes "move_text r n s"
  shows "is_valid_move_str r (Some s) = int n"
proof -
  from assms have n: "1 \<le> n" "n \<le> 9" by (auto simp: move_text_def)
  have range: "\<not> digit n < CHR ''1''" "\<not> CHR ''9'' < digit n" using n digit_between [of "digit n"] by auto
  note val = digit_value [OF n(2)]
  from assms consider "s = [digit n]"
    | t where "r \<noteq> NULL_ROLE" "s = digit n # CHR ''<'' # CHR ''-'' # role_char r # t"
    by (auto simp: move_text_def take4_iff)
  then show ?thesis
  proof cases
    case 1
    then show ?thesis using range val by (simp add: is_valid_move_str_def char_at_def)
  next
    case 2
    then show ?thesis using range val
      by (cases r) (simp_all add: is_valid_move_str_def char_at_def role_char_def numeral_eq_Suc)
  qed
qed

text \<open>\<open>is_valid_move_str\<close> accepts exactly the two move notations and returns the cell number.\<close>

theorem is_valid_move_str_iff:
  assumes "is_cstring s"
  shows "is_valid_move_str r (Some s) = int n \<longleftrightarrow> move_text r n s"
  using is_valid_move_str_sound [OF assms] is_valid_move_str_complete by blast

theorem is_valid_move_str_iff_witness:
  "is_valid_move_str FIRST_PLAYER_ROLE (Some ''5<-X'') = int 5 \<and>
   is_valid_move_str FIRST_PLAYER_ROLE (Some ''5<-O'') \<noteq> int 5"
proof -
  have "is_cstring ''5<-X''" "is_cstring ''5<-O''" by (simp_all add: is_cstring_def)
  note is_valid_move_str_iff [OF this(1), of FIRST_PLAYER_ROLE 5]
    is_valid_move_str_iff [OF this(2), of FIRST_PLAYER_ROLE 5]
  moreover have "move_text FIRST_PLAYER_ROLE 5 ''5<-X''" "\<not> move_text FIRST_PLAYER_ROLE 5 ''5<-O''"
    by code_simp+
  ultimately show ?thesis by blast
qed

text \<open>C34: the text that \<open>game_unparse_move\<close> prints for a move of the player on turn is read back by
\<open>game_parse_move\<close> as the same move.\<close>

theorem unparse_parse_move:
  assumes "wf_move mv" and "gr mv = cur_turn g" and "cur_turn g \<noteq> NULL_ROLE"
  shows "\<exists>s. game_unparse_move (Some mv) [] = (Some s, []) \<and> is_cstring s \<and>
     game_parse_move (Some g) (gr mv) (Some s) [] = (Some mv, [])"
proof -
  let ?n = "original_num mv"
  let ?s = "[digit ?n, CHR ''<'', CHR ''-'', role_char (gr mv), CHR 0x0A]"
  from assms(1) have n: "1 \<le> ?n" "?n \<le> 9" by (auto simp: wf_move_def)
  have "move_text (gr mv) ?n ?s" using n assms(2,3) by (simp add: move_text_def)
  then have val: "is_valid_move_str (gr mv) (Some ?s) = int ?n" by (rule is_valid_move_str_complete)
  have "game_parse_move (Some g) (gr mv) (Some ?s) [] = (Some mv, [])"
    using assms n unfolding game_parse_move_def val
    by (cases mv) (simp add: get_game_move_def wf_move_def nat_div_distrib nat_mod_distrib nat_diff_distrib)
  moreover have "is_cstring ?s"
    using digit_nonzero [OF n] by (auto simp: is_cstring_def role_char_def)
  moreover have "game_unparse_move (Some mv) [] = (Some ?s, [])"
    using dec_string_digit [OF n(2)] by (simp add: game_unparse_move_def)
  ultimately show ?thesis by blast
qed

theorem unparse_parse_move_witness:
  "\<exists>s. game_parse_move (Some sample_game) FIRST_PLAYER_ROLE (Some s) [] = (Some sample_move, [])"
  using unparse_parse_move [OF sample_game_inv(2), of sample_game]
  by (auto simp: sample_game_def sample_move_def)

end
