(* ===== verification/Protocol.thy ===== *)
theory Protocol
  imports Prelude
begin

text \<open>
  The wire protocol (\<open>src/src/protocol.c\<close>, \<open>src/src/packet_common.c\<close>, \<open>src/include/protocol.h\<close>):
  packet types and headers, the byte order conversions, the layout of a header in memory, the loop
  that moves a buffer through a file descriptor, and the functions that send and receive a packet.

  The operating system is the record \<open>os_state\<close>. The results of the coming \<open>write\<close> and \<open>read\<close>
  calls are scripts (partial transfers, interruptions, errors; an exhausted script means that a call
  transfers as much as it can), \<open>wire\<close> logs what was written to which descriptor, \<open>inbox\<close> holds the
  bytes that a peer sends, and \<open>peer_closed\<close> tells whether it closes the connection after them. The host
  is little endian.
\<close>

subsection \<open>Packets\<close>

datatype JEUX_PACKET_TYPE =
    JEUX_NO_PKT
  | JEUX_LOGIN_PKT | JEUX_USERS_PKT | JEUX_INVITE_PKT | JEUX_REVOKE_PKT | JEUX_ACCEPT_PKT
  | JEUX_DECLINE_PKT | JEUX_MOVE_PKT | JEUX_RESIGN_PKT
  | JEUX_ACK_PKT | JEUX_NACK_PKT
  | JEUX_INVITED_PKT | JEUX_REVOKED_PKT | JEUX_ACCEPTED_PKT | JEUX_DECLINED_PKT
  | JEUX_MOVED_PKT | JEUX_RESIGNED_PKT | JEUX_ENDED_PKT

primrec pkt_code :: "JEUX_PACKET_TYPE \<Rightarrow> uint8" where
  "pkt_code JEUX_NO_PKT = 0"
| "pkt_code JEUX_LOGIN_PKT = 1"
| "pkt_code JEUX_USERS_PKT = 2"
| "pkt_code JEUX_INVITE_PKT = 3"
| "pkt_code JEUX_REVOKE_PKT = 4"
| "pkt_code JEUX_ACCEPT_PKT = 5"
| "pkt_code JEUX_DECLINE_PKT = 6"
| "pkt_code JEUX_MOVE_PKT = 7"
| "pkt_code JEUX_RESIGN_PKT = 8"
| "pkt_code JEUX_ACK_PKT = 9"
| "pkt_code JEUX_NACK_PKT = 10"
| "pkt_code JEUX_INVITED_PKT = 11"
| "pkt_code JEUX_REVOKED_PKT = 12"
| "pkt_code JEUX_ACCEPTED_PKT = 13"
| "pkt_code JEUX_DECLINED_PKT = 14"
| "pkt_code JEUX_MOVED_PKT = 15"
| "pkt_code JEUX_RESIGNED_PKT = 16"
| "pkt_code JEUX_ENDED_PKT = 17"

record packet_header =
  pkt_type :: uint8
  pkt_id :: uint8
  pkt_role :: uint8
  pkt_size :: uint16
  timestamp_sec :: uint32
  timestamp_nsec :: uint32

text \<open>\<open>JEUX_PACKET_HEADER jph = {0}\<close>\<close>

definition zero_header :: packet_header where
  "zero_header = \<lparr>pkt_type = 0, pkt_id = 0, pkt_role = 0, pkt_size = 0, timestamp_sec = 0,
                  timestamp_nsec = 0\<rparr>"

subsection \<open>Byte order\<close>

definition htons :: "uint16 \<Rightarrow> uint16" where
  "htons v = push_bit 8 v OR drop_bit 8 v"

definition ntohs :: "uint16 \<Rightarrow> uint16" where
  "ntohs v = push_bit 8 v OR drop_bit 8 v"

definition htonl :: "uint32 \<Rightarrow> uint32" where
  "htonl v = push_bit 24 v OR push_bit 16 (take_bit 8 (drop_bit 8 v))
             OR push_bit 8 (take_bit 8 (drop_bit 16 v)) OR drop_bit 24 v"

definition ntohl :: "uint32 \<Rightarrow> uint32" where
  "ntohl v = push_bit 24 v OR push_bit 16 (take_bit 8 (drop_bit 8 v))
             OR push_bit 8 (take_bit 8 (drop_bit 16 v)) OR drop_bit 24 v"

subsection \<open>The operating system\<close>

datatype io_result = Done nat | Interrupted | Broken

record os_state =
  mem :: mem
  clock :: "nat \<Rightarrow> 64 word \<times> 64 word"
  ticks :: nat
  net :: "io_result list"
  rnet :: "io_result list"
  wire :: "(int \<times> byte list) list"
  inbox :: "int \<Rightarrow> byte list"
  peer_closed :: "int \<Rightarrow> bool"
  closed_fds :: "int list"
  shut_fds :: "int list"

definition os_malloc :: "os_state \<Rightarrow> bool \<times> os_state" where
  "os_malloc os = (let (ok, m) = malloc (mem os) in (ok, os\<lparr>mem := m\<rparr>))"

definition clock_gettime :: "os_state \<Rightarrow> (64 word \<times> 64 word) \<times> os_state" where
  "clock_gettime os = (clock os (ticks os), os\<lparr>ticks := Suc (ticks os)\<rparr>)"

text \<open>\<open>write\<close> and \<open>read\<close>: the number of bytes moved (\<open>-1\<close> for an error) and whether \<open>errno\<close> is
\<open>EINTR\<close>. A \<open>read\<close> returns 0 only at the end of the stream, which comes when the peer has closed the
connection or the descriptor was shut down for reading; a \<open>read\<close> that waits for input that never comes
does not return, and has no value.\<close>

definition read_ends :: "int \<Rightarrow> os_state \<Rightarrow> bool" where
  "read_ends fd os \<longleftrightarrow> peer_closed os fd \<or> fd \<in> set (shut_fds os)"

definition os_write :: "int \<Rightarrow> byte list \<Rightarrow> os_state \<Rightarrow> (int \<times> bool) \<times> os_state" where
  "os_write fd bs os =
    (case net os of
       [] \<Rightarrow> ((int (length bs), False), os\<lparr>wire := wire os @ [(fd, bs)]\<rparr>)
     | Done k # rest \<Rightarrow>
         let n = min k (length bs)
         in ((int n, False), os\<lparr>net := rest, wire := wire os @ [(fd, take n bs)]\<rparr>)
     | Interrupted # rest \<Rightarrow> ((-1, True), os\<lparr>net := rest\<rparr>)
     | Broken # rest \<Rightarrow> ((-1, False), os\<lparr>net := rest\<rparr>))"

definition os_read :: "int \<Rightarrow> nat \<Rightarrow> byte list \<times> os_state \<Rightarrow> ((int \<times> bool) \<times> byte list \<times> os_state) option" where
  "os_read fd sz s =
    (let (buf, os) = s; avail = inbox os fd; waits = (avail = [] \<and> \<not> read_ends fd os) in
     case rnet os of
       [] \<Rightarrow>
         if waits then None
         else let n = min sz (length avail)
         in Some ((int n, False), buf @ take n avail, os\<lparr>inbox := (inbox os)(fd := drop n avail)\<rparr>)
     | Done k # rest \<Rightarrow>
         if waits then None
         else let n = min (max 1 k) (min sz (length avail))
         in Some ((int n, False), buf @ take n avail,
              os\<lparr>rnet := rest, inbox := (inbox os)(fd := drop n avail)\<rparr>)
     | Interrupted # rest \<Rightarrow> Some ((-1, True), buf, os\<lparr>rnet := rest\<rparr>)
     | Broken # rest \<Rightarrow> Some ((-1, False), buf, os\<lparr>rnet := rest\<rparr>))"

subsection \<open>Headers\<close>

text \<open>\<open>pack_header\<close> stores every field; the 64 bit clock values are cut to 32 bits.\<close>

definition pack_header ::
  "JEUX_PACKET_TYPE \<Rightarrow> uint8 \<Rightarrow> uint8 \<Rightarrow> uint16 \<Rightarrow> os_state \<Rightarrow> packet_header \<times> os_state" where
  "pack_header typ ident role sz os =
    (let jph = zero_header\<lparr>pkt_type := pkt_code typ, pkt_id := ident, pkt_role := role,
                           pkt_size := htons sz\<rparr>;
         ((tv_sec, tv_nsec), os') = clock_gettime os;
         tsec = ucast tv_sec; tnsec = ucast tv_nsec
     in (jph\<lparr>timestamp_sec := htonl tsec, timestamp_nsec := htonl tnsec\<rparr>, os'))"

definition unpack_header :: "packet_header \<Rightarrow> packet_header" where
  "unpack_header jph =
    jph\<lparr>timestamp_sec := ntohl (timestamp_sec jph), timestamp_nsec := ntohl (timestamp_nsec jph),
        pkt_size := ntohs (pkt_size jph)\<rparr>"

text \<open>
  The sixteen bytes of the structure in memory: one byte of padding before \<open>size\<close> and two after it;
  \<open>uint16_t\<close> and \<open>uint32_t\<close> fields are little endian.
\<close>

definition le16 :: "uint16 \<Rightarrow> byte list" where
  "le16 v = [ucast v, ucast (drop_bit 8 v)]"

definition le32 :: "uint32 \<Rightarrow> byte list" where
  "le32 v = [ucast v, ucast (drop_bit 8 v), ucast (drop_bit 16 v), ucast (drop_bit 24 v)]"

definition of_le16 :: "byte list \<Rightarrow> uint16" where
  "of_le16 bs = ucast (bs ! 0) OR push_bit 8 (ucast (bs ! 1))"

definition of_le32 :: "byte list \<Rightarrow> uint32" where
  "of_le32 bs = ucast (bs ! 0) OR push_bit 8 (ucast (bs ! 1)) OR push_bit 16 (ucast (bs ! 2))
                OR push_bit 24 (ucast (bs ! 3))"

definition HEADER_SIZE :: nat where
  "HEADER_SIZE = 16"

definition header_bytes :: "packet_header \<Rightarrow> byte list" where
  "header_bytes h = [pkt_type h, pkt_id h, pkt_role h, 0] @ le16 (pkt_size h) @ [0, 0]
                    @ le32 (timestamp_sec h) @ le32 (timestamp_nsec h)"

definition header_of_bytes :: "byte list \<Rightarrow> packet_header" where
  "header_of_bytes bs =
    \<lparr>pkt_type = bs ! 0, pkt_id = bs ! 1, pkt_role = bs ! 2, pkt_size = of_le16 (drop 4 bs),
     timestamp_sec = of_le32 (drop 8 bs), timestamp_nsec = of_le32 (drop 12 bs)\<rparr>"

subsection \<open>Moving a buffer through a descriptor\<close>

text \<open>
  \<open>fd_op\<close>: the operation is called with the offset of \<open>byte_ptr\<close> in the buffer and the number of
  bytes left; its result is the number of bytes moved and the \<open>EINTR\<close> flag. \<open>is_write\<close> tells whether
  \<open>op_write\<close> is not \<open>NULL\<close>. The value \<open>None\<close> stands for an operation or a loop that never ends.
\<close>

partial_function (option) fd_op ::
  "bool \<Rightarrow> (nat \<Rightarrow> nat \<Rightarrow> 's \<Rightarrow> ((int \<times> bool) \<times> 's) option) \<Rightarrow> nat \<Rightarrow> nat \<Rightarrow> 's \<Rightarrow> (int \<times> 's) option" where
  "fd_op is_write operation ptr sz s =
    (if sz = 0 then Some (1, s)
     else do {
       ((n, eintr), s') \<leftarrow> operation ptr sz s;
       if \<not> is_write \<and> n = 0 then Some (-1, s')
       else if n = -1 then
         (if eintr then fd_op is_write operation ptr sz s' else Some (-1, s'))
       else fd_op is_write operation (ptr + nat n) (sz - nat n) s'
     })"

text \<open>Writing a buffer, and reading into an empty one.\<close>

definition write_op :: "int \<Rightarrow> byte list \<Rightarrow> nat \<Rightarrow> nat \<Rightarrow> os_state \<Rightarrow> ((int \<times> bool) \<times> os_state) option" where
  "write_op fd data ptr sz os = Some (os_write fd (take sz (drop ptr data)) os)"

definition read_op ::
  "int \<Rightarrow> nat \<Rightarrow> nat \<Rightarrow> byte list \<times> os_state \<Rightarrow> ((int \<times> bool) \<times> byte list \<times> os_state) option" where
  "read_op fd ptr sz s = os_read fd sz s"

text \<open>The payload sent is the first \<open>ntohs(hdr->size)\<close> bytes at \<open>data\<close>; reading past the end of
the buffer is undefined.\<close>

definition proto_send_packet ::
  "int \<Rightarrow> packet_header \<Rightarrow> byte list option \<Rightarrow> os_state \<Rightarrow> (int \<times> os_state) option" where
  "proto_send_packet fd hdr datap os = do {
     (st, os) \<leftarrow> fd_op True (write_op fd (header_bytes hdr)) 0 HEADER_SIZE os;
     if st = -1 then Some (-1, os)
     else
       let sz = unat (ntohs (pkt_size hdr))
       in case datap of
            None \<Rightarrow> Some (0, os)
          | Some data \<Rightarrow>
              if sz > 0 then
                (if length data < sz then None
                 else do {
                   (st, os) \<leftarrow> fd_op True (write_op fd data) 0 sz os;
                   if st = -1 then Some (-1, os) else Some (0, os)
                 })
              else Some (0, os)
   }"

text \<open>
  The caller's header and payload pointer are zeroed before the call. When the payload buffer cannot
  be allocated, \<open>read\<close> is given a \<open>NULL\<close> buffer and fails. The result is the status, the header, and
  the payload (\<open>None\<close> is a payload pointer that is still \<open>NULL\<close>).
\<close>

definition proto_recv_packet ::
  "int \<Rightarrow> os_state \<Rightarrow> ((int \<times> packet_header \<times> byte list option) \<times> os_state) option" where
  "proto_recv_packet fd os = do {
     (st, (buf, os)) \<leftarrow> fd_op False (read_op fd) 0 HEADER_SIZE ([], os);
     if st = -1 then Some ((-1, zero_header, None), os)
     else
       let hdr = header_of_bytes buf; payload_size = unat (ntohs (pkt_size hdr))
       in if payload_size > 0 then
            (let (ok, os) = os_malloc os in
             if \<not> ok then Some ((-1, hdr, None), os)
             else do {
               (st, (payload, os)) \<leftarrow> fd_op False (read_op fd) 0 payload_size ([], os);
               if st = -1 then Some ((-1, hdr, Some payload), os)
               else Some ((0, hdr, Some payload), os)
             })
          else Some ((0, hdr, None), os)
   }"

subsection \<open>Byte order and layout lemmas\<close>

lemma ntohs_htons [simp]: "ntohs (htons v) = v"
  by (rule bit_word_eqI) (auto simp: ntohs_def htons_def bit_simps)

lemma htons_ntohs [simp]: "htons (ntohs v) = v"
  by (rule bit_word_eqI) (auto simp: ntohs_def htons_def bit_simps)

lemma byte_cases:
  assumes "n < LENGTH(32)"
  obtains "n < 8" | "8 \<le> n" "n < 16" | "16 \<le> n" "n < 24" | "24 \<le> n" "n < 32"
  using assms by fastforce

lemma bit_htonl:
  assumes "n < LENGTH(32)"
  shows "bit (htonl v) n \<longleftrightarrow>
    bit v (if n < 8 then n + 24 else if n < 16 then n + 8 else if n < 24 then n - 8 else n - 24)"
  using assms
  by (cases n rule: byte_cases)
     (auto simp: htonl_def bit_simps add.commute [of _ n] not_less less_diff_conv2
        dest: bit_imp_le_length)

lemma ntohl_eq_htonl: "ntohl v = htonl v"
  by (simp add: ntohl_def htonl_def)

lemma ntohl_htonl [simp]: "ntohl (htonl v) = v"
proof (rule bit_word_eqI)
  fix n
  assume n: "n < LENGTH(32)"
  then show "bit (ntohl (htonl v)) n = bit v n"
    unfolding ntohl_eq_htonl by (cases n rule: byte_cases) (simp_all add: bit_htonl less_diff_conv2)
qed

lemma of_le16_le16 [simp]: "of_le16 (le16 v @ xs) = v"
  by (rule bit_word_eqI) (auto simp: of_le16_def le16_def bit_simps not_less)

lemma of_le32_le32 [simp]: "of_le32 (le32 v @ xs) = v"
proof (rule bit_word_eqI)
  fix n
  assume "n < LENGTH(32)"
  then show "bit (of_le32 (le32 v @ xs)) n = bit v n"
    by (cases n rule: byte_cases) (auto simp: of_le32_def le32_def bit_simps)
qed

lemma of_le32_le32_Nil [simp]: "of_le32 (le32 v) = v"
  using of_le32_le32 [of v "[]"] by simp

lemma length_header_bytes [simp]: "length (header_bytes h) = HEADER_SIZE"
  by (simp add: header_bytes_def le16_def le32_def HEADER_SIZE_def)

lemma header_of_header_bytes [simp]: "header_of_bytes (header_bytes h) = h"
proof -
  have l: "length (le16 v) = 2" "length (le32 w) = 4" for v w by (simp_all add: le16_def le32_def)
  have "drop 4 (header_bytes h) = le16 (pkt_size h) @ [0, 0] @ le32 (timestamp_sec h) @ le32 (timestamp_nsec h)"
    "drop 8 (header_bytes h) = le32 (timestamp_sec h) @ le32 (timestamp_nsec h)"
    "drop 12 (header_bytes h) = le32 (timestamp_nsec h) @ []"
    by (simp_all add: header_bytes_def l numeral_eq_Suc le16_def le32_def)
  moreover have "header_bytes h ! 0 = pkt_type h" "header_bytes h ! 1 = pkt_id h"
    "header_bytes h ! 2 = pkt_role h"
    by (simp_all add: header_bytes_def)
  ultimately show ?thesis
    unfolding header_of_bytes_def by (cases h) simp
qed

subsection \<open>What a write loop leaves on the wire\<close>

definition stream :: "int \<Rightarrow> os_state \<Rightarrow> byte list" where
  "stream fd os = concat (map snd (filter (\<lambda>p. fst p = fd) (wire os)))"

definition wrote :: "int \<Rightarrow> byte list \<Rightarrow> os_state \<Rightarrow> os_state \<Rightarrow> bool" where
  "wrote fd bs os os' \<longleftrightarrow>
     stream fd os' = stream fd os @ bs \<and> (\<forall>fd'. fd' \<noteq> fd \<longrightarrow> stream fd' os' = stream fd' os) \<and>
     os' = os\<lparr>net := net os', wire := wire os'\<rparr>"

lemma wrote_refl [simp]: "wrote fd [] os os"
  by (simp add: wrote_def)

lemma wrote_trans: "wrote fd a x y \<Longrightarrow> wrote fd b y z \<Longrightarrow> wrote fd (a @ b) x z"
  unfolding wrote_def by (cases x; cases y; cases z) auto

lemma wrote_net [simp]: "wrote fd [] os (os\<lparr>net := r\<rparr>)"
  by (simp add: wrote_def stream_def)

lemma wrote_log: "wrote fd bs os (os\<lparr>net := r, wire := wire os @ [(fd, bs)]\<rparr>)"
  by (auto simp: wrote_def stream_def)

lemma fd_op_write:
  "p + n \<le> length data \<Longrightarrow>
   \<exists>st k os'. fd_op True (write_op fd data) p n os = Some (st, os') \<and>
     wrote fd (take k (drop p data)) os os' \<and> (st = 1 \<and> k = n \<or> st = -1 \<and> k < n)"
proof (induction "net os" arbitrary: os p n)
  case Nil
  then have "write_op fd data p n os = Some ((int n, False), os\<lparr>net := [], wire := wire os @ [(fd, take n (drop p data))]\<rparr>)"
    by (cases os) (simp add: write_op_def os_write_def)
  then show ?case
    by (cases "n = 0") (auto simp: fd_op.simps wrote_log intro!: exI [of _ n])
next
  case (Cons r rs)
  show ?case
  proof (cases "n = 0")
    case True
    then show ?thesis by (simp add: fd_op.simps)
  next
    case False
    let ?os1 = "os\<lparr>net := rs\<rparr>"
    show ?thesis
    proof (cases r)
      case (Done j)
      let ?m = "min j n" and ?os2 = "os\<lparr>net := rs, wire := wire os @ [(fd, take (min j n) (drop p data))]\<rparr>"
      have "write_op fd data p n os = Some ((int ?m, False), ?os2)"
        using Cons.prems Done
        by (simp add: write_op_def os_write_def Let_def min_absorb1 flip: Cons.hyps(2))
      then have step: "fd_op True (write_op fd data) p n os = fd_op True (write_op fd data) (p + ?m) (n - ?m) ?os2"
        using False by (subst fd_op.simps) simp
      have "rs = net ?os2" "p + ?m + (n - ?m) \<le> length data" using Cons.prems by simp_all
      from Cons.hyps(1) [OF this] obtain st k os' where
        IH: "fd_op True (write_op fd data) (p + ?m) (n - ?m) ?os2 = Some (st, os')"
          "wrote fd (take k (drop (p + ?m) data)) ?os2 os'" "st = 1 \<and> k = n - ?m \<or> st = -1 \<and> k < n - ?m"
        by blast
      have "take ?m (drop p data) @ take k (drop (p + ?m) data) = take (?m + k) (drop p data)"
        by (subst take_add) (simp add: add.commute)
      with wrote_trans [OF wrote_log IH(2)]
      have "wrote fd (take (?m + k) (drop p data)) os os'" by simp
      moreover have "st = 1 \<and> ?m + k = n \<or> st = -1 \<and> ?m + k < n" using IH(3) by auto
      ultimately show ?thesis using IH(1) step by metis
    next
      case Interrupted
      then have "write_op fd data p n os = Some ((-1, True), ?os1)"
        by (simp add: write_op_def os_write_def flip: Cons.hyps(2))
      then have step: "fd_op True (write_op fd data) p n os = fd_op True (write_op fd data) p n ?os1"
        using False by (subst fd_op.simps) simp
      have "rs = net ?os1" by simp
      from Cons.hyps(1) [OF this Cons.prems] obtain st k os' where
        "fd_op True (write_op fd data) p n ?os1 = Some (st, os')"
        "wrote fd (take k (drop p data)) ?os1 os'" "st = 1 \<and> k = n \<or> st = -1 \<and> k < n"
        by blast
      with step wrote_trans [OF wrote_net] show ?thesis by fastforce
    next
      case Broken
      then have "write_op fd data p n os = Some ((-1, False), ?os1)"
        by (simp add: write_op_def os_write_def flip: Cons.hyps(2))
      then have "fd_op True (write_op fd data) p n os = Some (-1, ?os1)"
        using False by (subst fd_op.simps) simp
      with False show ?thesis by (auto intro!: exI [of _ 0])
    qed
  qed
qed

subsection \<open>Sending\<close>

definition payload_size :: "packet_header \<Rightarrow> nat" where
  "payload_size hdr = unat (ntohs (pkt_size hdr))"

text \<open>The bytes of a packet: its header and the announced part of its payload.\<close>

definition packet_bytes :: "packet_header \<Rightarrow> byte list option \<Rightarrow> byte list" where
  "packet_bytes hdr datap = header_bytes hdr @
     (case datap of None \<Rightarrow> [] | Some data \<Rightarrow> take (payload_size hdr) data)"

definition payload_fits :: "packet_header \<Rightarrow> byte list option \<Rightarrow> bool" where
  "payload_fits hdr datap \<longleftrightarrow> (case datap of None \<Rightarrow> True | Some data \<Rightarrow> payload_size hdr \<le> length data)"

lemma proto_send_packet_result:
  assumes "payload_fits hdr datap"
  shows "\<exists>st k os'. proto_send_packet fd hdr datap os = Some (st, os') \<and>
     wrote fd (take k (packet_bytes hdr datap)) os os' \<and>
     (st = 0 \<and> k = length (packet_bytes hdr datap) \<or> st = -1 \<and> k < length (packet_bytes hdr datap))"
proof -
  let ?n = "payload_size hdr"
  obtain st k os1 where h: "fd_op True (write_op fd (header_bytes hdr)) 0 HEADER_SIZE os = Some (st, os1)"
      "wrote fd (take k (header_bytes hdr)) os os1" "st = 1 \<and> k = HEADER_SIZE \<or> st = -1 \<and> k < HEADER_SIZE"
    using fd_op_write [of 0 HEADER_SIZE "header_bytes hdr" fd os] by auto
  show ?thesis
  proof (cases "st = -1")
    case True
    then have "take k (packet_bytes hdr datap) = take k (header_bytes hdr)" "k < HEADER_SIZE"
      using h(3) by (auto simp: packet_bytes_def)
    then show ?thesis
      using h True
      by (intro exI [of _ "-1"] exI [of _ k] exI [of _ os1])
         (simp add: proto_send_packet_def packet_bytes_def)
  next
    case False
    with h have h1: "st = 1" "wrote fd (header_bytes hdr) os os1" by auto
    show ?thesis
    proof (cases "datap = None \<or> ?n = 0")
      case True
      then have "packet_bytes hdr datap = header_bytes hdr"
        by (auto simp: packet_bytes_def split: option.splits)
      moreover have "proto_send_packet fd hdr datap os = Some (0, os1)"
        using h(1) h1(1) True by (auto simp: proto_send_packet_def payload_size_def split: option.splits)
      ultimately show ?thesis using h1(2)
        by (intro exI [of _ 0] exI [of _ "HEADER_SIZE"] exI [of _ os1]) simp
    next
      case False
      then obtain data where d: "datap = Some data" "?n \<noteq> 0" by auto
      with assms have fits: "?n \<le> length data" by (simp add: payload_fits_def)
      then obtain st2 k2 os2 where d2: "fd_op True (write_op fd data) 0 ?n os1 = Some (st2, os2)"
          "wrote fd (take k2 data) os1 os2" "st2 = 1 \<and> k2 = ?n \<or> st2 = -1 \<and> k2 < ?n"
        using fd_op_write [of 0 ?n data fd os1] by auto
      have "proto_send_packet fd hdr datap os = Some (if st2 = -1 then -1 else 0, os2)"
        using h(1) h1(1) d d2(1) fits by (simp add: proto_send_packet_def payload_size_def)
      moreover have "header_bytes hdr @ take k2 data = take (HEADER_SIZE + k2) (packet_bytes hdr datap)"
        using d d2(3) by (auto simp: packet_bytes_def)
      moreover have "length (packet_bytes hdr datap) = HEADER_SIZE + ?n"
        using d fits by (simp add: packet_bytes_def)
      ultimately show ?thesis
        using wrote_trans [OF h1(2) d2(2)] d2(3)
        by (intro exI [of _ "if st2 = -1 then -1 else 0"] exI [of _ "HEADER_SIZE + k2"] exI [of _ os2]) auto
    qed
  qed
qed

subsection \<open>Receiving\<close>

text \<open>What a read loop takes from the inbox of its descriptor.\<close>

definition took :: "int \<Rightarrow> nat \<Rightarrow> os_state \<Rightarrow> os_state \<Rightarrow> bool" where
  "took fd k os os' \<longleftrightarrow>
     inbox os' = (inbox os)(fd := drop k (inbox os fd)) \<and> set (rnet os') \<subseteq> set (rnet os) \<and>
     os' = os\<lparr>rnet := rnet os', inbox := inbox os'\<rparr>"

lemma took_zero [simp]: "took fd 0 os os"
  by (simp add: took_def)

lemma took_trans: "took fd j x y \<Longrightarrow> took fd k y z \<Longrightarrow> took fd (j + k) x z"
  unfolding took_def by (cases x; cases y; cases z) (auto simp: add.commute)

lemma took_rnet: "rnet os = r # rs \<Longrightarrow> took fd 0 os (os\<lparr>rnet := rs\<rparr>)"
  by (auto simp: took_def)

lemma os_read_cases:
  assumes "n \<noteq> 0"
  obtains (data) j os1 where
      "os_read fd n (buf, os) = Some ((int j, False), (buf @ take j (inbox os fd), os1))"
      "took fd j os os1" "0 < j" "j \<le> n" "j \<le> length (inbox os fd)"
      "length (rnet os1) \<le> length (rnet os)"
  | (eof) os1 where
      "os_read fd n (buf, os) = Some ((0, False), (buf, os1))" "took fd 0 os os1" "inbox os fd = []" "read_ends fd os"
  | (interrupted) os1 where
      "os_read fd n (buf, os) = Some ((-1, True), (buf, os1))" "took fd 0 os os1"
      "length (rnet os1) < length (rnet os)"
  | (broken) os1 where
      "os_read fd n (buf, os) = Some ((-1, False), (buf, os1))" "took fd 0 os os1"
      "Broken \<in> set (rnet os)"
  | (blocked) "os_read fd n (buf, os) = None" "inbox os fd = []" "\<not> read_ends fd os"
proof -
  define waits where "waits \<longleftrightarrow> inbox os fd = [] \<and> \<not> read_ends fd os"
  have z: "min n (length (inbox os fd)) = 0 \<longleftrightarrow> inbox os fd = []" using assms by (cases "inbox os fd") auto
  have more: thesis
    if op: "os_read fd n (buf, os) = Some ((int m, False), (buf @ take m (inbox os fd), os1))" and "took fd m os os1"
      "m = 0 \<longleftrightarrow> inbox os fd = []" "m \<le> n" "m \<le> length (inbox os fd)" "length (rnet os1) \<le> length (rnet os)" "\<not> waits" for m os1
    using that data [of m os1] eof [of os1] by (cases "inbox os fd = []") (auto simp: waits_def)
  show thesis
  proof (cases "rnet os")
    case Nil
    let ?m = "min n (length (inbox os fd))"
    let ?os1 = "os\<lparr>inbox := (inbox os)(fd := drop ?m (inbox os fd))\<rparr>"
    have "took fd ?m os ?os1" using Nil by (simp add: took_def)
    then show thesis
      using Nil assms blocked more [of ?m ?os1] z by (cases waits) (auto simp: os_read_def Let_def waits_def)
  next
    case (Cons r rs)
    show thesis
    proof (cases r)
      case (Done k)
      let ?m = "min (max 1 k) (min n (length (inbox os fd)))"
      let ?os1 = "os\<lparr>rnet := rs, inbox := (inbox os)(fd := drop ?m (inbox os fd))\<rparr>"
      have "took fd ?m os ?os1" using Cons by (auto simp: took_def)
      then show thesis
        using Cons Done assms blocked more [of ?m ?os1] z by (cases waits) (auto simp: os_read_def Let_def waits_def)
    next
      case Interrupted
      then show thesis using Cons interrupted [of "os\<lparr>rnet := rs\<rparr>"] took_rnet [OF Cons] by (simp add: os_read_def)
    next
      case Broken
      then show thesis using Cons broken [of "os\<lparr>rnet := rs\<rparr>"] took_rnet [OF Cons] by (simp add: os_read_def)
    qed
  qed
qed

lemma took_inbox: "took fd k os os' \<Longrightarrow> inbox os' fd = drop k (inbox os fd)"
  by (simp add: took_def)

lemma took_broken: "took fd k os os' \<Longrightarrow> Broken \<notin> set (rnet os) \<Longrightarrow> Broken \<notin> set (rnet os')"
  by (auto simp: took_def)

lemma took_ends:
  assumes "took fd k os os'"
  shows "read_ends fd' os' = read_ends fd' os"
proof -
  have "os' = os\<lparr>rnet := rnet os', inbox := inbox os'\<rparr>" using assms unfolding took_def by blast
  then have "read_ends fd' os' = read_ends fd' (os\<lparr>rnet := rnet os', inbox := inbox os'\<rparr>)" by (rule arg_cong)
  then show ?thesis by (simp add: read_ends_def)
qed

text \<open>The loop returns, or it waits for bytes that do not come.\<close>

lemma fd_op_read_any:
  "fd_op False (read_op fd) p n (buf, os) = None \<and> \<not> read_ends fd os \<and> length (inbox os fd) < n \<or>
   (\<exists>st k os'. fd_op False (read_op fd) p n (buf, os) = Some (st, (buf @ take k (inbox os fd), os')) \<and>
     took fd k os os' \<and> k \<le> length (inbox os fd) \<and> (st = 1 \<and> k = n \<or> st = -1 \<and> k < n) \<and>
     (Broken \<notin> set (rnet os) \<longrightarrow> n \<le> length (inbox os fd) \<longrightarrow> st = 1))"
proof (induction "length (rnet os) + n" arbitrary: os p n buf rule: less_induct)
  case less
  show ?case
  proof (cases "n = 0")
    case True
    then show ?thesis by (simp add: fd_op.simps)
  next
    case False
    note unfold = fd_op.simps [of False "read_op fd" p n "(buf, os)"] read_op_def
    from False show ?thesis
    proof (cases rule: os_read_cases [where n = n and fd = fd and buf = buf and os = os, consumes 1])
      case (data j os1)
      have eq: "fd_op False (read_op fd) p n (buf, os) =
          fd_op False (read_op fd) (p + j) (n - j) (buf @ take j (inbox os fd), os1)"
        using False data by (simp add: unfold)
      have "length (rnet os1) + (n - j) < length (rnet os) + n" using data by simp
      from less [OF this, of "p + j" "buf @ take j (inbox os fd)"] consider
          (waits) "fd_op False (read_op fd) (p + j) (n - j) (buf @ take j (inbox os fd), os1) = None"
            "\<not> read_ends fd os1" "length (inbox os1 fd) < n - j"
        | (returns) st k os' where "fd_op False (read_op fd) (p + j) (n - j) (buf @ take j (inbox os fd), os1) =
             Some (st, ((buf @ take j (inbox os fd)) @ take k (inbox os1 fd), os'))"
          "took fd k os1 os'" "k \<le> length (inbox os1 fd)" "st = 1 \<and> k = n - j \<or> st = -1 \<and> k < n - j"
          "Broken \<notin> set (rnet os1) \<longrightarrow> n - j \<le> length (inbox os1 fd) \<longrightarrow> st = 1"
        by (elim disjE [of "_ \<and> _ \<and> _"] conjE exE)
      then show ?thesis
      proof cases
        case waits
        then show ?thesis using took_ends [OF data(2)] took_inbox [OF data(2)] by (simp add: eq)
      next
        case returns
        then show ?thesis
          using data took_trans [OF data(2) returns(2)] took_inbox [OF data(2)] took_broken [OF data(2)]
          by (intro disjI2 exI [of _ st] exI [of _ "j + k"] exI [of _ os']) (auto simp: eq take_add)
      qed
    next
      case (eof os1)
      then have "fd_op False (read_op fd) p n (buf, os) = Some (-1, (buf, os1))"
        using False by (simp add: unfold)
      with eof False show ?thesis by (intro disjI2 exI [of _ "-1"] exI [of _ 0] exI [of _ os1]) auto
    next
      case (interrupted os1)
      then have eq: "fd_op False (read_op fd) p n (buf, os) = fd_op False (read_op fd) p n (buf, os1)"
        using False by (simp add: unfold)
      have i: "inbox os1 fd = inbox os fd" using took_inbox [OF interrupted(2)] by simp
      have "length (rnet os1) + n < length (rnet os) + n" using interrupted by simp
      from less [OF this, of p buf] consider
          (waits) "fd_op False (read_op fd) p n (buf, os1) = None" "\<not> read_ends fd os1" "length (inbox os1 fd) < n"
        | (returns) st k os' where "fd_op False (read_op fd) p n (buf, os1) = Some (st, (buf @ take k (inbox os1 fd), os'))"
          "took fd k os1 os'" "k \<le> length (inbox os1 fd)" "st = 1 \<and> k = n \<or> st = -1 \<and> k < n"
          "Broken \<notin> set (rnet os1) \<longrightarrow> n \<le> length (inbox os1 fd) \<longrightarrow> st = 1"
        by (elim disjE [of "_ \<and> _ \<and> _"] conjE exE)
      then show ?thesis
      proof cases
        case waits
        then show ?thesis using took_ends [OF interrupted(2)] by (simp add: eq i)
      next
        case returns
        then show ?thesis
          using took_trans [OF interrupted(2) returns(2)] took_broken [OF interrupted(2)] i
          by (intro disjI2 exI [of _ st] exI [of _ k] exI [of _ os']) (auto simp: eq)
      qed
    next
      case (broken os1)
      then have "fd_op False (read_op fd) p n (buf, os) = Some (-1, (buf, os1))"
        using False by (simp add: unfold)
      with broken False show ?thesis by (intro disjI2 exI [of _ "-1"] exI [of _ 0] exI [of _ os1]) auto
    next
      case blocked
      then show ?thesis using False by (simp add: unfold)
    qed
  qed
qed

lemma fd_op_read:
  assumes "read_ends fd os \<or> n \<le> length (inbox os fd)"
  shows "\<exists>st k os'. fd_op False (read_op fd) p n (buf, os) = Some (st, (buf @ take k (inbox os fd), os')) \<and>
     took fd k os os' \<and> k \<le> length (inbox os fd) \<and> (st = 1 \<and> k = n \<or> st = -1 \<and> k < n) \<and>
     (Broken \<notin> set (rnet os) \<longrightarrow> n \<le> length (inbox os fd) \<longrightarrow> st = 1)"
  using fd_op_read_any [of fd p n buf os] assms by auto

text \<open>An idle system, used by the witnesses: a clock that stands still, empty scripts and streams.\<close>

definition idle_os :: os_state where
  "idle_os = \<lparr>mem = [], clock = (\<lambda>_. (5, 7)), ticks = 0, net = [], rnet = [], wire = [],
              inbox = (\<lambda>_. []), peer_closed = (\<lambda>_. False), closed_fds = [], shut_fds = []\<rparr>"

subsection \<open>Properties of the protocol module\<close>

text \<open>\<open>unpack_header\<close> undoes \<open>pack_header\<close>: the type, the id, the role and the size come back, and the
time stamps are the clock's values cut to 32 bits. In memory the size is big endian.\<close>

theorem unpack_pack_header:
  "unpack_header (fst (pack_header typ ident role sz os)) =
     \<lparr>pkt_type = pkt_code typ, pkt_id = ident, pkt_role = role, pkt_size = sz,
      timestamp_sec = ucast (fst (clock os (ticks os))),
      timestamp_nsec = ucast (snd (clock os (ticks os)))\<rparr> \<and>
   take 2 (drop 4 (header_bytes (fst (pack_header typ ident role sz os)))) =
     [ucast (drop_bit 8 sz), ucast sz]"
proof -
  have "(ucast (htons sz) :: byte) = ucast (drop_bit 8 sz)"
    and "(ucast (drop_bit 8 (htons sz)) :: byte) = ucast sz"
    by (rule bit_word_eqI; auto simp: htons_def bit_simps not_less)+
  then show ?thesis
    by (auto simp: pack_header_def unpack_header_def clock_gettime_def zero_header_def Let_def
        header_bytes_def le16_def split: prod.splits)
qed

text \<open>\<open>proto_send_packet\<close> always returns, however the writes are cut short or interrupted. It
returns 0 exactly when the whole packet is on the wire of its descriptor, and otherwise -1 after a
proper prefix of it; no other descriptor is written.\<close>

theorem proto_send_packet_correct:
  assumes "payload_fits hdr datap"
  shows "\<exists>st k os'. proto_send_packet fd hdr datap os = Some (st, os') \<and>
     stream fd os' = stream fd os @ take k (packet_bytes hdr datap) \<and>
     (\<forall>fd'. stream fd' os' = (if fd' = fd then stream fd os' else stream fd' os)) \<and>
     (st = 0 \<and> k = length (packet_bytes hdr datap) \<or> st = -1 \<and> k < length (packet_bytes hdr datap))"
  using proto_send_packet_result [OF assms, of fd os] unfolding wrote_def by metis

theorem proto_send_packet_correct_witness:
  "\<exists>st os'. proto_send_packet 3 zero_header (Some [1, 2]) idle_os = Some (st, os') \<and> (st = 0 \<or> st = -1)"
  using proto_send_packet_correct [of zero_header "Some [1, 2]" 3 idle_os]
  by (auto simp: payload_fits_def payload_size_def zero_header_def ntohs_def)

text \<open>C18: a packet that was sent with success is received unchanged by a peer that reads these bytes,
however the reads are cut short or interrupted, and the bytes after it stay in the stream.\<close>

theorem send_recv_roundtrip:
  assumes "payload_fits hdr datap" and "datap = None \<Longrightarrow> payload_size hdr = 0"
    and "proto_send_packet fd hdr datap os = Some (0, os')"
    and "inbox peer fd2 = drop (length (stream fd os)) (stream fd os') @ rest"
    and "Broken \<notin> set (rnet peer)" and "mem peer = []"
  shows "\<exists>peer'. proto_recv_packet fd2 peer =
       Some ((0, hdr, if payload_size hdr = 0 then None
                      else map_option (take (payload_size hdr)) datap), peer') \<and>
     inbox peer' fd2 = rest"
proof -
  let ?n = "payload_size hdr"
  from proto_send_packet_result [OF assms(1), of fd os] assms(3)
  have "stream fd os' = stream fd os @ packet_bytes hdr datap" by (auto simp: wrote_def)
  then have inb: "inbox peer fd2 = packet_bytes hdr datap @ rest" using assms(4) by simp
  then have avail: "HEADER_SIZE \<le> length (inbox peer fd2)" by (simp add: packet_bytes_def)
  obtain p1 where r1: "fd_op False (read_op fd2) 0 HEADER_SIZE ([], peer) =
      Some (1, (take HEADER_SIZE (inbox peer fd2), p1))" and t1: "took fd2 HEADER_SIZE peer p1"
    using fd_op_read [of fd2 peer HEADER_SIZE 0 "[]"] avail assms(5) by auto
  have hd: "take HEADER_SIZE (inbox peer fd2) = header_bytes hdr" by (simp add: inb packet_bytes_def)
  have m1: "mem p1 = []" using t1 assms(6) unfolding took_def by (metis os_state.ext_inject os_state.surjective os_state.update_convs(5,7))
  show ?thesis
  proof (cases "?n = 0")
    case True
    then have "inbox p1 fd2 = rest" using t1 inb
      by (auto simp: took_inbox packet_bytes_def split: option.splits)
    with True r1 show ?thesis by (simp add: proto_recv_packet_def hd payload_size_def)
  next
    case False
    then obtain data where d: "datap = Some data" "?n \<le> length data"
      using assms(1,2) by (cases datap) (auto simp: payload_fits_def)
    let ?p2 = "p1\<lparr>mem := []\<rparr>"
    have in2: "inbox ?p2 fd2 = take ?n data @ rest" using t1 inb d by (simp add: took_inbox packet_bytes_def)
    have br: "Broken \<notin> set (rnet ?p2)" using took_broken [OF t1 assms(5)] by simp
    obtain p3 where r2: "fd_op False (read_op fd2) 0 ?n ([], ?p2) = Some (1, (take ?n data, p3))"
      and t2: "took fd2 ?n ?p2 p3"
      using fd_op_read [of fd2 ?p2 ?n 0 "[]"] in2 br d(2) by auto
    have "inbox p3 fd2 = rest" using took_inbox [OF t2] in2 d(2) by simp
    with False r1 r2 d m1 show ?thesis
      by (auto simp: proto_recv_packet_def hd payload_size_def os_malloc_def)
  qed
qed

text \<open>A sample exchange with interrupted and partial transfers.\<close>

definition sample_header :: packet_header where
  "sample_header = zero_header\<lparr>pkt_type := pkt_code JEUX_LOGIN_PKT, pkt_size := htons 2\<rparr>"

definition chunky_sender :: os_state where
  "chunky_sender = idle_os\<lparr>net := [Done 5, Interrupted, Done 0]\<rparr>"

definition chunky_peer :: os_state where
  "chunky_peer = idle_os\<lparr>rnet := [Interrupted, Done 1, Done 3],
     inbox := (\<lambda>_. packet_bytes sample_header (Some [65, 66]) @ [9])\<rparr>"

lemma sample_payload_size: "payload_size sample_header = 2"
  by (simp add: payload_size_def sample_header_def)

lemma chunky_send:
  "\<exists>os'. proto_send_packet 3 sample_header (Some [65, 66]) chunky_sender = Some (0, os')"
proof -
  have h: "header_bytes sample_header = [1, 0, 0, 0, 0, 2, 0, 0, 0, 0, 0, 0, 0, 0, 0, 0]" by code_simp
  have sz: "ntohs (pkt_size sample_header) = 2" by (simp add: sample_header_def)
  show ?thesis
    unfolding proto_send_packet_def h sz
    by (simp add: HEADER_SIZE_def fd_op.simps write_op_def os_write_def chunky_sender_def idle_os_def)
qed

theorem send_recv_roundtrip_witness:
  "\<exists>peer'. proto_recv_packet 4 chunky_peer = Some ((0, sample_header, Some [65, 66]), peer') \<and>
     inbox peer' 4 = [9]"
proof -
  obtain os' where sent: "proto_send_packet 3 sample_header (Some [65, 66]) chunky_sender = Some (0, os')"
    using chunky_send by blast
  have fits: "payload_fits sample_header (Some [65, 66])"
    by (simp add: payload_fits_def sample_payload_size)
  have "stream 3 chunky_sender = []" by (simp add: stream_def chunky_sender_def idle_os_def)
  moreover have "stream 3 os' = stream 3 chunky_sender @ packet_bytes sample_header (Some [65, 66])"
    using proto_send_packet_result [OF fits, of 3 chunky_sender] sent by (auto simp: wrote_def)
  ultimately have
    "inbox chunky_peer 4 = drop (length (stream 3 chunky_sender)) (stream 3 os') @ [9]"
    by (simp add: chunky_peer_def)
  from send_recv_roundtrip [OF fits _ sent this] show ?thesis
    by (simp add: sample_payload_size chunky_peer_def idle_os_def)
qed

end
