(* ===== verification/Player.thy ===== *)
theory Player
  imports Refcount Complex_Main
begin

text \<open>
  The player module (\<open>src/src/player.c\<close>): a player's structure, its creation, reference counts and
  accessors, and the rating update after a game. Ratings are real numbers: the model idealises the
  \<open>double\<close> arithmetic of the code (no rounding of intermediate results, no overflow), and \<open>pow(10, x)\<close>
  is the real power. As in the game module, a \<open>PLAYER *\<close> is a \<open>player option\<close>.
\<close>

definition PLAYER_INITIAL_RATING :: real where
  "PLAYER_INITIAL_RATING = 1500"

record player =
  rating :: real
  player_id :: int
  p_name :: "string option"
  p_ref_count :: size_t

definition player_ref :: "player option \<Rightarrow> player option" where
  "player_ref pp = (case pp of None \<Rightarrow> None
     | Some p \<Rightarrow> Some (p\<lparr>p_ref_count := size_inc (p_ref_count p)\<rparr>))"

definition player_unref :: "player option \<Rightarrow> player option" where
  "player_unref pp = (case pp of None \<Rightarrow> None
     | Some p \<Rightarrow>
         let p' = p\<lparr>p_ref_count := size_dec (p_ref_count p)\<rparr>
         in if p_ref_count p' = 0 then None else Some p')"

text \<open>\<open>player_create\<close>: the first number is the static counter \<open>player_id\<close>. A failing \<open>strdup\<close> leaves
the name \<open>NULL\<close>.\<close>

definition player_create :: "string option \<Rightarrow> int \<Rightarrow> mem \<Rightarrow> player option \<times> int \<times> mem" where
  "player_create namep counter m =
    (case namep of None \<Rightarrow> (None, counter, m)
     | Some nm \<Rightarrow>
       let (ok, m1) = malloc m
       in if \<not> ok then (None, counter, m1)
       else let (ok, m2) = malloc m1;
                p = \<lparr>rating = PLAYER_INITIAL_RATING, player_id = counter,
                     p_name = (if ok then Some nm else None), p_ref_count = 0\<rparr>
       in (player_ref (Some p), counter + 1, m2))"

definition player_get_name :: "player \<Rightarrow> string option" where
  "player_get_name p = p_name p"

text \<open>\<open>round\<close> of the C library: to the nearest integer, halves away from zero.\<close>

definition c_round :: "real \<Rightarrow> int" where
  "c_round x = (if 0 \<le> x then \<lfloor>x + 1 / 2\<rfloor> else - \<lfloor>1 / 2 - x\<rfloor>)"

definition player_get_rating :: "player \<Rightarrow> int" where
  "player_get_rating p = c_round (rating p)"

text \<open>The order in which \<open>player_post_result\<close> takes the two rating mutexes.\<close>

definition rating_lock_order :: "'a \<times> player \<Rightarrow> 'a \<times> player \<Rightarrow> 'a list" where
  "rating_lock_order x y =
    (if player_id (snd x) < player_id (snd y) then [fst x, fst y] else [fst y, fst x])"

definition elo_score :: "int \<Rightarrow> int \<Rightarrow> real" where
  "elo_score result me = (if result = 0 then 1 / 2 else if result = me then 1 else 0)"

definition elo_expect :: "real \<Rightarrow> real \<Rightarrow> real" where
  "elo_expect mine other = 1 / (1 + 10 powr ((other - mine) / 400))"

text \<open>The body of \<open>player_post_result\<close> between locking and unlocking.\<close>

definition post_result :: "player \<Rightarrow> player \<Rightarrow> int \<Rightarrow> player \<times> player" where
  "post_result p1 p2 result =
    (let s1 = elo_score result 1; s2 = elo_score result 2;
         r1 = rating p1; r2 = rating p2;
         e1 = elo_expect r1 r2; e2 = elo_expect r2 r1
     in (p1\<lparr>rating := r1 + 32 * (s1 - e1)\<rparr>, p2\<lparr>rating := r2 + 32 * (s2 - e2)\<rparr>))"

subsection \<open>Lemmas\<close>

interpretation player_rc: refcounted player_ref player_unref p_ref_count
  "\<lambda>n p. p\<lparr>p_ref_count := n\<rparr>"
  by unfold_locales (simp_all add: player_ref_def player_unref_def Let_def)

lemma elo_expect_pos: "0 < elo_expect a b" and elo_expect_less_one: "elo_expect a b < 1"
proof -
  have "0 < (10 :: real) powr ((b - a) / 400)" by simp
  then have "1 < 1 + (10 :: real) powr ((b - a) / 400)" "0 < 1 + (10 :: real) powr ((b - a) / 400)"
    by linarith+
  then show "0 < elo_expect a b" "elo_expect a b < 1"
    by (simp_all add: elo_expect_def)
qed

lemma elo_expect_sum: "elo_expect a b + elo_expect b a = 1"
proof -
  define t where "t = (10 :: real) powr ((b - a) / 400)"
  have "0 < t" by (simp add: t_def)
  have "(10 :: real) powr ((a - b) / 400) = 10 powr (- ((b - a) / 400))"
    by (simp add: minus_divide_left)
  then have "(10 :: real) powr ((a - b) / 400) = 1 / t"
    by (simp add: t_def powr_minus inverse_eq_divide)
  then show ?thesis
    using \<open>0 < t\<close> by (simp add: elo_expect_def flip: t_def) (simp add: field_simps)
qed

lemma elo_score_sum: "result \<in> {0, 1, 2} \<Longrightarrow> elo_score result 1 + elo_score result 2 = 1"
  by (auto simp: elo_score_def)

lemma post_result_frame:
  "fst (post_result p1 p2 r) = p1\<lparr>rating := rating (fst (post_result p1 p2 r))\<rparr>"
  "snd (post_result p1 p2 r) = p2\<lparr>rating := rating (snd (post_result p1 p2 r))\<rparr>"
  by (simp_all add: post_result_def Let_def)

subsection \<open>Properties of the player module\<close>

text \<open>C35: posting a result changes ratings only, conserves the sum of the two ratings, moves each by
less than 32 points, raises the winner and lowers the loser.\<close>

theorem post_result_elo:
  assumes "post_result p1 p2 result = (q1, q2)" and "result = 0 \<or> result = 1 \<or> result = 2"
  shows "q1 = p1\<lparr>rating := rating q1\<rparr> \<and> q2 = p2\<lparr>rating := rating q2\<rparr> \<and>
    rating q1 + rating q2 = rating p1 + rating p2 \<and>
    \<bar>rating q1 - rating p1\<bar> < 32 \<and>
    (result = 1 \<longrightarrow> rating p1 < rating q1 \<and> rating q2 < rating p2) \<and>
    (result = 2 \<longrightarrow> rating q1 < rating p1 \<and> rating p2 < rating q2)"
proof -
  let ?e = "elo_expect (rating p1) (rating p2)" and ?s = "elo_score result 1"
  have e: "0 < ?e" "?e < 1" by (rule elo_expect_pos elo_expect_less_one)+
  have e2: "elo_expect (rating p2) (rating p1) = 1 - ?e"
    using elo_expect_sum [of "rating p1" "rating p2"] by simp
  have s2: "elo_score result 2 = 1 - ?s"
    using elo_score_sum [of result] assms(2) by auto
  have q: "q1 = p1\<lparr>rating := rating p1 + 32 * (?s - ?e)\<rparr>"
    "q2 = p2\<lparr>rating := rating p2 - 32 * (?s - ?e)\<rparr>"
    using assms(1) by (auto simp: post_result_def e2 s2 Let_def)
  have s: "0 \<le> ?s" "?s \<le> 1" by (auto simp: elo_score_def)
  have "\<bar>?s - ?e\<bar> < 1" using s e by linarith
  then have "\<bar>32 * (?s - ?e)\<bar> < 32" by (simp add: abs_mult)
  moreover have "result = 1 \<longrightarrow> ?s = 1" and "result = 2 \<longrightarrow> ?s = 0" by (auto simp: elo_score_def)
  ultimately show ?thesis using e by (auto simp: q)
qed

theorem post_result_elo_witness:
  "\<exists>q1 q2. post_result \<lparr>rating = 1500, player_id = 0, p_name = Some ''a'', p_ref_count = 1\<rparr>
      \<lparr>rating = 1400, player_id = 1, p_name = Some ''b'', p_ref_count = 1\<rparr> 1 = (q1, q2) \<and>
    rating q1 + rating q2 = 2900 \<and> 1500 < rating q1"
proof -
  let ?a = "\<lparr>rating = 1500, player_id = 0, p_name = Some ''a'', p_ref_count = 1\<rparr> :: player"
  let ?b = "\<lparr>rating = 1400, player_id = 1, p_name = Some ''b'', p_ref_count = 1\<rparr> :: player"
  obtain q1 q2 where q: "post_result ?a ?b 1 = (q1, q2)" by fastforce
  from post_result_elo [OF q] show ?thesis using q by auto
qed

text \<open>Two threads that post results for the same two players with different ids take the two mutexes
in the same order, whichever of them is the first argument; so they cannot deadlock.\<close>

theorem rating_lock_order_sym:
  assumes "player_id p \<noteq> player_id q"
  shows "rating_lock_order (a, p) (b, q) = rating_lock_order (b, q) (a, p)"
  using assms by (auto simp: rating_lock_order_def)

theorem rating_lock_order_sym_witness:
  "let p = \<lparr>rating = 1500, player_id = 1, p_name = Some ''a'', p_ref_count = 1\<rparr>;
       q = \<lparr>rating = 1500, player_id = 2, p_name = Some ''b'', p_ref_count = 1\<rparr>
   in rating_lock_order (10 :: nat, p) (20, q) = rating_lock_order (20, q) (10, p)"
  unfolding Let_def by (rule rating_lock_order_sym) simp

end
