(* ===== verification/World.thy ===== *)
theory World
  imports Tictactoe Protocol Player
begin

text \<open>
  The state of the server: the structures that the modules allocate, in one heap per type, the two
  registries, and the operating system. A pointer is an address (\<open>nat\<close>); addresses are never reused,
  so an address that was freed stays free and any later access through it is detected (\<open>None\<close>).
  The structures of clients and invitations are here too, because each module reaches the other's.

  A mutex that an operation locks and unlocks is not part of the state: the operation is one step.
  The exception is the state mutex of an invitation, which one path of \<open>inv_accept\<close> leaves locked.
\<close>

subsection \<open>Structures\<close>

datatype INVITATION_STATE = INV_OPEN_STATE | INV_ACCEPTED_STATE | INV_CLOSED_STATE

text \<open>The order of the enumeration, which is the order of an invitation's life.\<close>

fun state_code :: "INVITATION_STATE \<Rightarrow> nat" where
  "state_code INV_OPEN_STATE = 0"
| "state_code INV_ACCEPTED_STATE = 1"
| "state_code INV_CLOSED_STATE = 2"

lemma state_code_inj: "state_code s = state_code s' \<longleftrightarrow> s = s'"
  by (cases s; cases s') simp_all

instantiation INVITATION_STATE :: linorder
begin

definition less_eq_INVITATION_STATE :: "INVITATION_STATE \<Rightarrow> INVITATION_STATE \<Rightarrow> bool" where
  "less_eq_INVITATION_STATE s s' \<longleftrightarrow> state_code s \<le> state_code s'"

definition less_INVITATION_STATE :: "INVITATION_STATE \<Rightarrow> INVITATION_STATE \<Rightarrow> bool" where
  "less_INVITATION_STATE s s' \<longleftrightarrow> state_code s < state_code s'"

instance
  by standard
     (auto simp: less_eq_INVITATION_STATE_def less_INVITATION_STATE_def state_code_inj
        dest: le_antisym)

end

record invitation =
  inv_src :: nat
  inv_target :: nat
  src_role :: GAME_ROLE
  target_role :: GAME_ROLE
  inv_game :: "nat option"
  inv_state :: INVITATION_STATE
  state_locked :: bool
  i_ref_count :: size_t

text \<open>A client. The array \<open>invs.lst\<close> is the list \<open>invs_lst\<close>; the \<open>NULL\<close> array is the empty list.\<close>

record client =
  c_player :: "nat option"
  c_fd :: int
  invs_lst :: "nat option list"
  invs_len :: nat
  invs_cap :: nat
  c_ref_count :: size_t

definition MAX_CLIENTS :: nat where
  "MAX_CLIENTS = 64"

record client_registry =
  creg_arr :: "nat option list"
  creg_len :: nat
  creg_cap :: nat
  count_sem :: nat

record player_registry =
  preg_arr :: "nat option list"
  preg_len :: nat
  preg_cap :: nat

record world =
  games :: "nat \<Rightarrow> game option"
  players :: "nat \<Rightarrow> player option"
  clients :: "nat \<Rightarrow> client option"
  invs :: "nat \<Rightarrow> invitation option"
  next_addr :: nat
  player_counter :: int
  creg :: client_registry
  preg :: player_registry
  os :: os_state

subsection \<open>Access through pointers\<close>

text \<open>\<open>deref h p\<close> is the structure at \<open>p\<close>, if \<open>p\<close> is \<open>NULL\<close> or live; \<open>assign\<close> writes the result of an
operation on the structure back (\<open>None\<close> when it was freed).\<close>

definition deref :: "('a \<Rightarrow> 'b option) \<Rightarrow> 'a option \<Rightarrow> 'b option option" where
  "deref h p = (case p of None \<Rightarrow> Some None
     | Some a \<Rightarrow> (case h a of None \<Rightarrow> None | Some v \<Rightarrow> Some (Some v)))"

definition assign :: "('a \<Rightarrow> 'b option) \<Rightarrow> 'a option \<Rightarrow> 'b option \<Rightarrow> ('a \<Rightarrow> 'b option)" where
  "assign h p r = (case p of None \<Rightarrow> h | Some a \<Rightarrow> h(a := r))"

lemma deref_simps [simp]:
  "deref h None = Some None"
  "h a = Some v \<Longrightarrow> deref h (Some a) = Some (Some v)"
  "h a = None \<Longrightarrow> deref h (Some a) = None"
  by (simp_all add: deref_def)

lemma assign_simps [simp]: "assign h None r = h" "assign h (Some a) r = h(a := r)"
  by (simp_all add: assign_def)

subsection \<open>Games and players in the heap\<close>

definition w_malloc :: "world \<Rightarrow> bool \<times> world" where
  "w_malloc w = (let (ok, o1) = os_malloc (os w) in (ok, w\<lparr>os := o1\<rparr>))"

text \<open>Each function below is the function of \<open>game.c\<close> or \<open>player.c\<close> of the same name, applied to the
structure that a pointer refers to; a created structure gets a fresh address.\<close>

definition w_game_create :: "world \<Rightarrow> nat option \<times> world" where
  "w_game_create w =
    (let (gp, m) = game_create (mem (os w)); w1 = w\<lparr>os := (os w)\<lparr>mem := m\<rparr>\<rparr>
     in case gp of None \<Rightarrow> (None, w1)
        | Some g \<Rightarrow> (Some (next_addr w1),
            w1\<lparr>games := (games w1)(next_addr w1 := Some g), next_addr := Suc (next_addr w1)\<rparr>))"

definition w_game_ref :: "nat option \<Rightarrow> world \<Rightarrow> (nat option \<times> world) option" where
  "w_game_ref p w = do {
     g \<leftarrow> deref (games w) p;
     Some (p, w\<lparr>games := assign (games w) p (game_ref g)\<rparr>)
   }"

definition w_game_unref :: "nat option \<Rightarrow> world \<Rightarrow> world option" where
  "w_game_unref p w = do {
     g \<leftarrow> deref (games w) p;
     Some (w\<lparr>games := assign (games w) p (game_unref g)\<rparr>)
   }"

definition w_game_resign :: "nat option \<Rightarrow> GAME_ROLE \<Rightarrow> world \<Rightarrow> (int \<times> world) option" where
  "w_game_resign p role w = do {
     g \<leftarrow> deref (games w) p;
     let (st, g') = game_resign g role;
     Some (st, w\<lparr>games := assign (games w) p g'\<rparr>)
   }"

definition w_game_apply_move :: "nat option \<Rightarrow> game_move option \<Rightarrow> world \<Rightarrow> (int \<times> world) option" where
  "w_game_apply_move p mv w = do {
     g \<leftarrow> deref (games w) p;
     (st, g') \<leftarrow> game_apply_move g mv;
     Some (st, w\<lparr>games := assign (games w) p g'\<rparr>)
   }"

definition w_game_is_over :: "nat option \<Rightarrow> world \<Rightarrow> bool option" where
  "w_game_is_over p w = map_option game_is_over (deref (games w) p)"

definition w_game_get_winner :: "nat option \<Rightarrow> world \<Rightarrow> GAME_ROLE option" where
  "w_game_get_winner p w = do { g \<leftarrow> deref (games w) p; game_get_winner g }"

definition w_game_unparse_state :: "nat option \<Rightarrow> world \<Rightarrow> (string option \<times> world) option" where
  "w_game_unparse_state p w = do {
     g \<leftarrow> deref (games w) p;
     let (s, m) = game_unparse_state g (mem (os w));
     Some (s, w\<lparr>os := (os w)\<lparr>mem := m\<rparr>\<rparr>)
   }"

definition w_game_parse_move ::
  "nat option \<Rightarrow> GAME_ROLE \<Rightarrow> string option \<Rightarrow> world \<Rightarrow> (game_move option \<times> world) option" where
  "w_game_parse_move p role str w = do {
     g \<leftarrow> deref (games w) p;
     let (mv, m) = game_parse_move g role str (mem (os w));
     Some (mv, w\<lparr>os := (os w)\<lparr>mem := m\<rparr>\<rparr>)
   }"

definition w_player_create :: "string option \<Rightarrow> world \<Rightarrow> nat option \<times> world" where
  "w_player_create nm w =
    (let (pp, c, m) = player_create nm (player_counter w) (mem (os w));
         w1 = w\<lparr>player_counter := c, os := (os w)\<lparr>mem := m\<rparr>\<rparr>
     in case pp of None \<Rightarrow> (None, w1)
        | Some p \<Rightarrow> (Some (next_addr w1),
            w1\<lparr>players := (players w1)(next_addr w1 := Some p), next_addr := Suc (next_addr w1)\<rparr>))"

definition w_player_ref :: "nat option \<Rightarrow> world \<Rightarrow> (nat option \<times> world) option" where
  "w_player_ref p w = do {
     v \<leftarrow> deref (players w) p;
     Some (p, w\<lparr>players := assign (players w) p (player_ref v)\<rparr>)
   }"

definition w_player_unref :: "nat option \<Rightarrow> world \<Rightarrow> world option" where
  "w_player_unref p w = do {
     v \<leftarrow> deref (players w) p;
     Some (w\<lparr>players := assign (players w) p (player_unref v)\<rparr>)
   }"

text \<open>\<open>player_get_name\<close> dereferences its argument. The result is the pointer \<open>name\<close>; the code then reads
the string at once, which is undefined when it is \<open>NULL\<close>, so the model returns the string.\<close>

definition w_player_get_name :: "nat option \<Rightarrow> world \<Rightarrow> string option" where
  "w_player_get_name p w = do {
     v \<leftarrow> deref (players w) p;
     (case v of None \<Rightarrow> None | Some pl \<Rightarrow> player_get_name pl)
   }"

definition w_player_get_rating :: "nat option \<Rightarrow> world \<Rightarrow> int option" where
  "w_player_get_rating p w = do {
     v \<leftarrow> deref (players w) p;
     map_option player_get_rating v
   }"

text \<open>\<open>player_post_result\<close>: nothing for a \<open>NULL\<close> player; the same player twice locks one mutex twice
and never returns.\<close>

definition w_player_post_result :: "nat option \<Rightarrow> nat option \<Rightarrow> int \<Rightarrow> world \<Rightarrow> world option" where
  "w_player_post_result p1 p2 result w =
    (case (p1, p2) of
       (Some a1, Some a2) \<Rightarrow>
         if a1 = a2 then None
         else do {
           v1 \<leftarrow> players w a1;
           v2 \<leftarrow> players w a2;
           let (v1', v2') = post_result v1 v2 result;
           Some (w\<lparr>players := (players w)(a1 := Some v1', a2 := Some v2')\<rparr>)
         }
     | _ \<Rightarrow> Some w)"

text \<open>A \<open>GAME_ROLE\<close> as the number that the enumeration gives it.\<close>

fun role_code :: "GAME_ROLE \<Rightarrow> int" where
  "role_code NULL_ROLE = 0"
| "role_code FIRST_PLAYER_ROLE = 1"
| "role_code SECOND_PLAYER_ROLE = 2"

subsection \<open>Sample states for the witnesses\<close>

definition blank_world :: world where
  "blank_world = \<lparr>games = (\<lambda>_. None), players = (\<lambda>_. None), clients = (\<lambda>_. None), invs = (\<lambda>_. None),
     next_addr = 100, player_counter = 0,
     creg = \<lparr>creg_arr = replicate 4 None, creg_len = 0, creg_cap = 4, count_sem = 1\<rparr>,
     preg = \<lparr>preg_arr = replicate 4 None, preg_len = 0, preg_cap = 4\<rparr>, os = idle_os\<rparr>"

definition sample_client :: "int \<Rightarrow> client" where
  "sample_client fd = \<lparr>c_player = None, c_fd = fd, invs_lst = replicate 4 None, invs_len = 0,
                       invs_cap = 4, c_ref_count = 1\<rparr>"

definition sample_inv :: "INVITATION_STATE \<Rightarrow> nat option \<Rightarrow> invitation" where
  "sample_inv s g = \<lparr>inv_src = 1, inv_target = 2, src_role = FIRST_PLAYER_ROLE,
     target_role = SECOND_PLAYER_ROLE, inv_game = g, inv_state = s, state_locked = False,
     i_ref_count = 2\<rparr>"

text \<open>Two clients at the addresses 1 and 2, an invitation between them at 3, a game at 4.\<close>

definition duo_world :: "INVITATION_STATE \<Rightarrow> nat option \<Rightarrow> world" where
  "duo_world s g = blank_world\<lparr>
     clients := [1 \<mapsto> sample_client 5, 2 \<mapsto> sample_client 6],
     invs := [3 \<mapsto> sample_inv s g], games := [4 \<mapsto> sample_game]\<rparr>"

end
