(* ===== verification/Lifetime.thy ===== *)
theory Lifetime
  imports World
begin

text \<open>
  The reference counts of clients and invitations (\<open>client_ref\<close>, \<open>client_unref\<close>,
  \<open>destroy_inv_lst_safe\<close> of \<open>client.c\<close>; \<open>inv_ref\<close>, \<open>inv_unref\<close> of \<open>invitation.c\<close>). Freeing an
  invitation drops references to its clients and its game, freeing a client drops references to the
  invitations in its list: the two functions call each other. The model runs the calls from a stack
  of pending \<open>unref\<close> calls, in the order of the code. A structure is taken out of its heap when its
  count reaches zero; a pending call that reaches it again is a deadlock on its mutex, or an access
  to a destroyed mutex, in the code, and has no value here.
\<close>

definition client_ref :: "nat option \<Rightarrow> world \<Rightarrow> (nat option \<times> world) option" where
  "client_ref p w =
    (case p of None \<Rightarrow> Some (None, w)
     | Some c \<Rightarrow>
       (case clients w c of None \<Rightarrow> None
        | Some v \<Rightarrow> Some (p, w\<lparr>clients := (clients w)
                             (c := Some (v\<lparr>c_ref_count := size_inc (c_ref_count v)\<rparr>))\<rparr>)))"

definition inv_ref :: "nat option \<Rightarrow> world \<Rightarrow> (nat option \<times> world) option" where
  "inv_ref p w =
    (case p of None \<Rightarrow> Some (None, w)
     | Some i \<Rightarrow>
       (case invs w i of None \<Rightarrow> None
        | Some v \<Rightarrow> Some (p, w\<lparr>invs := (invs w)
                             (i := Some (v\<lparr>i_ref_count := size_inc (i_ref_count v)\<rparr>))\<rparr>)))"

datatype pending = Unref_Client nat | Unref_Inv nat | Unref_Game nat

text \<open>The calls that \<open>destroy_inv_lst_safe\<close> makes for the entries of the array, and one step of each
function: the state after the count was decremented, and the calls that freeing entails.\<close>

definition destroy_inv_lst_safe :: "client \<Rightarrow> pending list" where
  "destroy_inv_lst_safe v =
    map (\<lambda>x. Unref_Inv (the x)) (filter (\<lambda>x. x \<noteq> None) (take (invs_cap v) (invs_lst v)))"

definition client_unref_step :: "nat \<Rightarrow> world \<Rightarrow> (pending list \<times> world) option" where
  "client_unref_step c w =
    (case clients w c of None \<Rightarrow> None
     | Some v \<Rightarrow>
       let v' = v\<lparr>c_ref_count := size_dec (c_ref_count v)\<rparr>
       in if c_ref_count v' = 0
          then Some (destroy_inv_lst_safe v', w\<lparr>clients := (clients w)(c := None)\<rparr>)
          else Some ([], w\<lparr>clients := (clients w)(c := Some v')\<rparr>))"

definition inv_unref_step :: "nat \<Rightarrow> world \<Rightarrow> (pending list \<times> world) option" where
  "inv_unref_step i w =
    (case invs w i of None \<Rightarrow> None
     | Some v \<Rightarrow>
       let v' = v\<lparr>i_ref_count := size_dec (i_ref_count v)\<rparr>
       in if i_ref_count v' = 0
          then Some ([Unref_Client (inv_src v'), Unref_Client (inv_target v')] @
                       (case inv_game v' of None \<Rightarrow> [] | Some g \<Rightarrow> [Unref_Game g]),
                     w\<lparr>invs := (invs w)(i := None)\<rparr>)
          else Some ([], w\<lparr>invs := (invs w)(i := Some v')\<rparr>))"

partial_function (option) release :: "pending list \<Rightarrow> world \<Rightarrow> world option" where
  "release xs w =
    (case xs of [] \<Rightarrow> Some w
     | x # rest \<Rightarrow>
       (case (case x of
                Unref_Client c \<Rightarrow> client_unref_step c w
              | Unref_Inv i \<Rightarrow> inv_unref_step i w
              | Unref_Game g \<Rightarrow> map_option (\<lambda>w'. ([], w')) (w_game_unref (Some g) w)) of
          None \<Rightarrow> None
        | Some (calls, w') \<Rightarrow> release (calls @ rest) w'))"

definition client_unref :: "nat option \<Rightarrow> world \<Rightarrow> world option" where
  "client_unref p w = (case p of None \<Rightarrow> Some w | Some c \<Rightarrow> release [Unref_Client c] w)"

definition inv_unref :: "nat option \<Rightarrow> world \<Rightarrow> world option" where
  "inv_unref p w = (case p of None \<Rightarrow> Some w | Some i \<Rightarrow> release [Unref_Inv i] w)"

subsection \<open>Equations for the stack of pending calls\<close>

lemma release_Nil [simp]: "release [] w = Some w"
  by (simp add: release.simps)

lemma release_Client: "release (Unref_Client c # xs) w =
    (case client_unref_step c w of None \<Rightarrow> None | Some (calls, w') \<Rightarrow> release (calls @ xs) w')"
  by (subst release.simps) simp

lemma release_Inv: "release (Unref_Inv i # xs) w =
    (case inv_unref_step i w of None \<Rightarrow> None | Some (calls, w') \<Rightarrow> release (calls @ xs) w')"
  by (subst release.simps) simp

lemma release_Game: "release (Unref_Game g # xs) w =
    (case w_game_unref (Some g) w of None \<Rightarrow> None | Some w' \<Rightarrow> release xs w')"
  by (subst release.simps) (simp split: option.split)

lemmas release_simps = release_Client release_Inv release_Game

lemma release_append:
  "release xs w = Some w' \<Longrightarrow> release (xs @ ys) w = release ys w'"
proof (rule release.raw_induct [where P = "\<lambda>xs w w'. release (xs @ ys) w = release ys w'"])
  fix rel :: "pending list \<Rightarrow> world \<Rightarrow> world option" and xs w w'
  assume IH: "\<And>xs w w'. rel xs w = Some w' \<Longrightarrow> release (xs @ ys) w = release ys w'"
    and eq: "(case xs of [] \<Rightarrow> Some w
       | x # rest \<Rightarrow>
         (case (case x of
                Unref_Client c \<Rightarrow> client_unref_step c w
              | Unref_Inv i \<Rightarrow> inv_unref_step i w
              | Unref_Game g \<Rightarrow> map_option (\<lambda>w'. ([], w')) (w_game_unref (Some g) w)) of
            None \<Rightarrow> None
          | Some (calls, w') \<Rightarrow> rel (calls @ rest) w')) = Some w'"
  show "release (xs @ ys) w = release ys w'"
  proof (cases xs)
    case Nil
    with eq show ?thesis by simp
  next
    case (Cons x rest)
    with eq show ?thesis
      by (auto simp: release_simps split: pending.splits option.splits dest!: IH)
  qed
qed

subsection \<open>One step of a release\<close>

definition unref_step :: "pending \<Rightarrow> world \<Rightarrow> (pending list \<times> world) option" where
  "unref_step x w = (case x of
     Unref_Client c \<Rightarrow> client_unref_step c w
   | Unref_Inv i \<Rightarrow> inv_unref_step i w
   | Unref_Game g \<Rightarrow> map_option (\<lambda>w'. ([], w')) (w_game_unref (Some g) w))"

lemma release_Cons:
  "release (x # xs) w = (case unref_step x w of None \<Rightarrow> None | Some (calls, w') \<Rightarrow> release (calls @ xs) w')"
  by (subst release.simps) (simp add: unref_step_def)

text \<open>What a release may change: structures lose references or disappear.\<close>

definition shrunk :: "(size_t \<Rightarrow> 'a \<Rightarrow> 'a) \<Rightarrow> (nat \<Rightarrow> 'a option) \<Rightarrow> (nat \<Rightarrow> 'a option) \<Rightarrow> bool" where
  "shrunk set_count h h' \<longleftrightarrow>
     (\<forall>a v'. h' a = Some v' \<longrightarrow> (\<exists>v n. h a = Some v \<and> v' = set_count n v))"

definition released :: "world \<Rightarrow> world \<Rightarrow> bool" where
  "released w w' \<longleftrightarrow>
     w' = w\<lparr>games := games w', clients := clients w', invs := invs w'\<rparr> \<and>
     shrunk (\<lambda>n v. v\<lparr>c_ref_count := n\<rparr>) (clients w) (clients w') \<and>
     shrunk (\<lambda>n v. v\<lparr>i_ref_count := n\<rparr>) (invs w) (invs w') \<and>
     shrunk (\<lambda>n v. v\<lparr>g_ref_count := n\<rparr>) (games w) (games w')"

lemma shrunk_refl:
  assumes "\<And>v. \<exists>n. set_count n v = v"
  shows "shrunk set_count h h"
  using assms unfolding shrunk_def by metis

lemma shrunk_trans:
  assumes "\<And>m n v. set_count m (set_count n v) = set_count m v"
    and "shrunk set_count h1 h2" and "shrunk set_count h2 h3"
  shows "shrunk set_count h1 h3"
  using assms unfolding shrunk_def by metis

lemma shrunk_remove: "shrunk set_count h h' \<Longrightarrow> shrunk set_count h (h'(a := None))"
  by (simp add: shrunk_def)

lemma shrunk_update: "shrunk set_count h h \<Longrightarrow> h a = Some v \<Longrightarrow> shrunk set_count h (h(a := Some (set_count n v)))"
  unfolding shrunk_def by (auto split: if_splits)

lemma shrunk_refls [simp]:
  "shrunk (\<lambda>n v. v\<lparr>c_ref_count := n\<rparr>) hc hc" "shrunk (\<lambda>n v. v\<lparr>i_ref_count := n\<rparr>) hi hi"
  "shrunk (\<lambda>n v. v\<lparr>g_ref_count := n\<rparr>) hg hg"
  by (rule shrunk_refl; rule exI; rule client.surjective [symmetric] invitation.surjective [symmetric]
      game.surjective [symmetric] client.equality invitation.equality game.equality; simp)+

lemma shrunk_update_client [simp]:
  "h a = Some v \<Longrightarrow> shrunk (\<lambda>n v. v\<lparr>c_ref_count := n\<rparr>) h (h(a := Some (v\<lparr>c_ref_count := k\<rparr>)))"
  by (rule shrunk_update [where set_count = "\<lambda>n v. v\<lparr>c_ref_count := n\<rparr>"]) simp_all

lemma shrunk_update_inv [simp]:
  "h a = Some v \<Longrightarrow> shrunk (\<lambda>n v. v\<lparr>i_ref_count := n\<rparr>) h (h(a := Some (v\<lparr>i_ref_count := k\<rparr>)))"
  by (rule shrunk_update [where set_count = "\<lambda>n v. v\<lparr>i_ref_count := n\<rparr>"]) simp_all

lemma shrunk_update_game [simp]:
  "h a = Some v \<Longrightarrow> shrunk (\<lambda>n v. v\<lparr>g_ref_count := n\<rparr>) h (h(a := Some (v\<lparr>g_ref_count := k\<rparr>)))"
  by (rule shrunk_update [where set_count = "\<lambda>n v. v\<lparr>g_ref_count := n\<rparr>"]) simp_all

lemma released_refl [simp]: "released w w"
  by (simp add: released_def)

lemma released_trans: "released w1 w2 \<Longrightarrow> released w2 w3 \<Longrightarrow> released w1 w3"
  unfolding released_def
  by (intro conjI; (elim conjE)?; (rule shrunk_trans; simp; fail)?) (cases w1; cases w2; cases w3; simp)

lemma unref_step_released:
  assumes "unref_step x w = Some (calls, w')"
  shows "released w w'"
proof (cases x)
  case (Unref_Client c)
  with assms show ?thesis
    by (auto simp: unref_step_def client_unref_step_def Let_def released_def shrunk_remove
        split: option.splits if_splits)
next
  case (Unref_Inv i)
  with assms show ?thesis
    by (auto simp: unref_step_def inv_unref_step_def Let_def released_def shrunk_remove
        split: option.splits if_splits)
next
  case (Unref_Game g)
  with assms show ?thesis
    by (cases "games w g")
       (auto simp: unref_step_def w_game_unref_def released_def shrunk_remove game_rc.unref_live)
qed

lemma release_released: "release xs w = Some w' \<Longrightarrow> released w w'"
proof (rule release.raw_induct [where P = "\<lambda>xs w w'. released w w'"])
  fix rel :: "pending list \<Rightarrow> world \<Rightarrow> world option" and xs w w'
  assume IH: "\<And>xs w w'. rel xs w = Some w' \<Longrightarrow> released w w'"
    and eq: "(case xs of [] \<Rightarrow> Some w
       | x # rest \<Rightarrow>
         (case (case x of
                Unref_Client c \<Rightarrow> client_unref_step c w
              | Unref_Inv i \<Rightarrow> inv_unref_step i w
              | Unref_Game g \<Rightarrow> map_option (\<lambda>w'. ([], w')) (w_game_unref (Some g) w)) of
            None \<Rightarrow> None
          | Some (calls, w') \<Rightarrow> rel (calls @ rest) w')) = Some w'"
  show "released w w'"
  proof (cases xs)
    case Nil
    with eq show ?thesis by simp
  next
    case (Cons x rest)
    with eq have "(case unref_step x w of None \<Rightarrow> None | Some (calls, w1) \<Rightarrow> rel (calls @ rest) w1) = Some w'"
      by (simp add: unref_step_def)
    then obtain calls w1 where "unref_step x w = Some (calls, w1)" "rel (calls @ rest) w1 = Some w'"
      by (auto split: option.splits)
    then show ?thesis using IH unref_step_released released_trans by blast
  qed
qed

lemma client_unref_released: "client_unref p w = Some w' \<Longrightarrow> released w w'"
  by (auto simp: client_unref_def dest: release_released split: option.splits)

lemma inv_unref_released: "inv_unref p w = Some w' \<Longrightarrow> released w w'"
  by (auto simp: inv_unref_def dest: release_released split: option.splits)

lemma released_frame:
  assumes "released w w'"
  shows "creg w' = creg w" and "preg w' = preg w" and "players w' = players w" and "os w' = os w"
    and "next_addr w' = next_addr w" and "player_counter w' = player_counter w"
  using assms by (cases w; cases w'; simp add: released_def)+

text \<open>Dropping a reference that is not the last one.\<close>

lemma client_unref_count:
  assumes "clients w c = Some v" and "c_ref_count v \<noteq> 1"
  shows "client_unref (Some c) w =
    Some (w\<lparr>clients := (clients w)(c := Some (v\<lparr>c_ref_count := size_dec (c_ref_count v)\<rparr>))\<rparr>)"
  using assms by (simp add: client_unref_def release_simps client_unref_step_def size_dec_def)

lemma inv_unref_count:
  assumes "invs w i = Some v" and "i_ref_count v \<noteq> 1"
  shows "inv_unref (Some i) w =
    Some (w\<lparr>invs := (invs w)(i := Some (v\<lparr>i_ref_count := size_dec (i_ref_count v)\<rparr>))\<rparr>)"
  using assms by (simp add: inv_unref_def release_simps inv_unref_step_def size_dec_def)

end
