(* ===== verification/Slots.thy ===== *)
theory Slots
  imports Prelude "HOL-Library.Multiset"
begin

text \<open>
  The interface of a table of pointers with free slots, as the client's list of invitations, the
  client registry and the player registry use it: reading the array, and one store. The searches of
  the code are \<open>find_idx\<close>; the lemmas say what a search finds after a store.
\<close>

subsection \<open>What the slots of an array hold\<close>

lemma slots_clear:
  "k < length xs \<Longrightarrow> xs ! k = Some i \<Longrightarrow>
   mset (map (\<lambda>x. f (the x)) (filter (\<lambda>x. x \<noteq> None) xs)) =
     add_mset (f i) (mset (map (\<lambda>x. f (the x)) (filter (\<lambda>x. x \<noteq> None) (xs[k := None]))))"
  by (induction xs arbitrary: k) (auto simp: less_Suc_eq_0_disj)

lemma slots_fill:
  "k < length xs \<Longrightarrow> xs ! k = None \<Longrightarrow>
   mset (map (\<lambda>x. f (the x)) (filter (\<lambda>x. x \<noteq> None) (xs[k := Some i]))) =
     add_mset (f i) (mset (map (\<lambda>x. f (the x)) (filter (\<lambda>x. x \<noteq> None) xs)))"
  by (induction xs arbitrary: k) (auto simp: less_Suc_eq_0_disj)

subsection \<open>The interface\<close>

locale slot_table =
  fixes arr :: "'s \<Rightarrow> nat option list"
    and put :: "nat \<Rightarrow> nat option \<Rightarrow> 's \<Rightarrow> 's"
  assumes arr_put: "arr (put k x s) = (arr s)[k := x]"

context slot_table
begin

lemma length_put: "length (arr (put k x s)) = length (arr s)"
  by (simp add: arr_put)

lemma no_free_slot: "find_idx (\<lambda>x. x = None) (arr s) = None \<longleftrightarrow> occupied (arr s) = length (arr s)"
  unfolding find_idx_None_iff occupied_full_iff by metis

lemma fill_occupied:
  assumes "find_idx (\<lambda>x. x = None) (arr s) = Some k"
  shows "occupied (arr (put k (Some v) s)) = Suc (occupied (arr s))"
  using find_idx_SomeD [OF assms] by (simp add: arr_put occupied_fill)

lemma fill_search:
  assumes "find_idx (\<lambda>x. x = None) (arr s) = Some k" and "Some v \<notin> set (arr s)"
  shows "find_idx (\<lambda>x. x = Some v) (arr (put k (Some v) s)) = Some k"
proof -
  have k: "k < length (arr s)" using find_idx_SomeD [OF assms(1)] by simp
  have "(arr s)[k := Some v] ! j \<noteq> Some v" if "j < k" for j
  proof -
    have "j < length (arr s)" using that k by simp
    then have "arr s ! j \<noteq> Some v" using assms(2) nth_mem by metis
    then show ?thesis using that by simp
  qed
  then show ?thesis using k by (simp add: arr_put find_idx_Some_iff)
qed


lemma clear_occupied:
  assumes "find_idx (\<lambda>x. x = Some v) (arr s) = Some k"
  shows "Suc (occupied (arr (put k None s))) = occupied (arr s)"
  using find_idx_SomeD [OF assms] by (simp add: arr_put occupied_clear)

lemma clear_fill:
  assumes "find_idx (\<lambda>x. x = None) (arr s) = Some k"
  shows "arr (put k None (put k (Some v) s)) = arr s"
  using find_idx_SomeD [OF assms] by (simp add: arr_put list_update_same_conv)

lemma put_get:
  "k < length (arr s) \<Longrightarrow> arr (put k x s) ! j = (if j = k then x else arr s ! j)"
  by (simp add: arr_put)

lemma set_fill:
  assumes "find_idx (\<lambda>x. x = None) (arr s) = Some k"
  shows "Some u \<in> set (arr (put k (Some v) s)) \<longleftrightarrow> u = v \<or> Some u \<in> set (arr s)"
proof -
  have k: "k < length (arr s)" "arr s ! k = None" using find_idx_SomeD [OF assms] by simp_all
  then show ?thesis
    unfolding arr_put in_set_conv_nth length_list_update
    by (metis nth_list_update_eq nth_list_update_neq option.inject option.distinct(1))
qed

end

end
