(* ===== verification/Invitation.thy ===== *)
theory Invitation
  imports Lifetime Slots
begin

text \<open>
  The invitation module (\<open>src/src/invitation.c\<close>): creation, accessors, and the two transitions of an
  invitation's state, \<open>inv_accept\<close> and \<open>inv_close\<close>.
\<close>

definition set_game :: "nat \<Rightarrow> nat option \<Rightarrow> world \<Rightarrow> world option" where
  "set_game i g w = do {
     v \<leftarrow> invs w i;
     Some (w\<lparr>invs := (invs w)(i := Some (v\<lparr>inv_game := g\<rparr>))\<rparr>)
   }"

definition inv_create ::
  "nat option \<Rightarrow> nat option \<Rightarrow> GAME_ROLE \<Rightarrow> GAME_ROLE \<Rightarrow> world \<Rightarrow> (nat option \<times> world) option" where
  "inv_create sourcep targetp srole trole w =
    (case (sourcep, targetp) of
       (Some source, Some target) \<Rightarrow>
         if srole = NULL_ROLE \<or> trole = NULL_ROLE then Some (None, w)
         else if source = target then Some (None, w)
         else let (ok, w) = w_malloc w in
         if \<not> ok then Some (None, w)
         else
           let i = next_addr w;
               v = \<lparr>inv_src = source, inv_target = target, src_role = srole,
                    target_role = trole, inv_game = None, inv_state = INV_OPEN_STATE,
                    state_locked = False, i_ref_count = 0\<rparr>;
               w = w\<lparr>invs := (invs w)(i := Some v), next_addr := Suc (next_addr w)\<rparr>
           in do {
             (_, w) \<leftarrow> inv_ref (Some i) w;
             (_, w) \<leftarrow> client_ref (Some source) w;
             (_, w) \<leftarrow> client_ref (Some target) w;
             Some (Some i, w)
           }
     | _ \<Rightarrow> Some (None, w))"

definition inv_get_source :: "nat option \<Rightarrow> world \<Rightarrow> nat option option" where
  "inv_get_source p w = do {
     v \<leftarrow> deref (invs w) p;
     Some (map_option inv_src v)
   }"

definition inv_get_target :: "nat option \<Rightarrow> world \<Rightarrow> nat option option" where
  "inv_get_target p w = do {
     v \<leftarrow> deref (invs w) p;
     Some (map_option inv_target v)
   }"

definition inv_get_source_role :: "nat option \<Rightarrow> world \<Rightarrow> GAME_ROLE option" where
  "inv_get_source_role p w = do {
     v \<leftarrow> deref (invs w) p;
     Some (case v of None \<Rightarrow> NULL_ROLE | Some i \<Rightarrow> src_role i)
   }"

definition inv_get_target_role :: "nat option \<Rightarrow> world \<Rightarrow> GAME_ROLE option" where
  "inv_get_target_role p w = do {
     v \<leftarrow> deref (invs w) p;
     Some (case v of None \<Rightarrow> NULL_ROLE | Some i \<Rightarrow> target_role i)
   }"

definition inv_get_game :: "nat option \<Rightarrow> world \<Rightarrow> nat option option" where
  "inv_get_game p w = do {
     v \<leftarrow> deref (invs w) p;
     Some (case v of None \<Rightarrow> None | Some i \<Rightarrow> inv_game i)
   }"

definition set_state :: "nat \<Rightarrow> INVITATION_STATE \<Rightarrow> world \<Rightarrow> world option" where
  "set_state i s w = do {
     v \<leftarrow> invs w i;
     Some (w\<lparr>invs := (invs w)(i := Some (v\<lparr>inv_state := s\<rparr>))\<rparr>)
   }"

text \<open>
  \<open>inv_accept\<close> holds the state mutex. When \<open>game_create\<close> fails it returns without unlocking it, which
  is recorded in \<open>state_locked\<close>: an operation that locks this mutex afterwards never returns.
\<close>

definition inv_accept :: "nat option \<Rightarrow> world \<Rightarrow> (int \<times> world) option" where
  "inv_accept p w =
    (case p of None \<Rightarrow> Some (-1, w)
     | Some i \<Rightarrow> do {
         v \<leftarrow> invs w i;
         if state_locked v then None
         else if inv_state v \<noteq> INV_OPEN_STATE then Some (-1, w)
         else do {
           let (g, w) = w_game_create w;
           w \<leftarrow> set_game i g w;
           gp \<leftarrow> inv_get_game (Some i) w;
           if gp = None then
             Some (-1, w\<lparr>invs := (invs w)(i := map_option (\<lambda>v. v\<lparr>state_locked := True\<rparr>) (invs w i))\<rparr>)
           else do {
             w \<leftarrow> set_state i INV_ACCEPTED_STATE w;
             Some (0, w)
           }
         }
       })"

definition inv_close :: "nat option \<Rightarrow> GAME_ROLE \<Rightarrow> world \<Rightarrow> (int \<times> world) option" where
  "inv_close p role w =
    (case p of None \<Rightarrow> Some (-1, w)
     | Some i \<Rightarrow> do {
         v \<leftarrow> invs w i;
         if state_locked v then None
         else if inv_state v \<noteq> INV_OPEN_STATE \<and> inv_state v \<noteq> INV_ACCEPTED_STATE then Some (-1, w)
         else if role = NULL_ROLE then do {
           g \<leftarrow> inv_get_game p w;
           if g = None then do {
             w \<leftarrow> set_state i INV_CLOSED_STATE w;
             Some (0, w)
           }
           else Some (-1, w)
         }
         else do {
           g \<leftarrow> inv_get_game p w;
           (status, w) \<leftarrow> w_game_resign g role w;
           if status \<noteq> -1 then do {
             w \<leftarrow> set_state i INV_CLOSED_STATE w;
             Some (status, w)
           }
           else Some (status, w)
         }
       })"

subsection \<open>Lemmas\<close>

text \<open>The game that \<open>game_create\<close> returns.\<close>

definition new_game :: game where
  "new_game = \<lparr>board = mk_board (replicate 9 (CHR '' '')), cur_turn = FIRST_PLAYER_ROLE,
               game_status = GAME_RUNNING, winner = NULL_ROLE, g_ref_count = 1\<rparr>"

lemma game_create_new: "game_create [] = (Some new_game, [])"
  by (simp add: game_create_def game_ref_def size_inc_def init_board_eq new_game_def)

lemma new_game_inv: "game_inv new_game"
  by (rule game_create_inv [OF game_create_new])

lemma new_game_abs: "abs_game new_game = ttt_start"
  using first_line_blank
  by (simp add: new_game_def abs_game_def ttt_start_def)

lemma set_game_live [simp]:
  "invs w i = Some v \<Longrightarrow> set_game i g w = Some (w\<lparr>invs := (invs w)(i := Some (v\<lparr>inv_game := g\<rparr>))\<rparr>)"
  by (simp add: set_game_def)

lemma set_state_live [simp]:
  "invs w i = Some v \<Longrightarrow> set_state i s w = Some (w\<lparr>invs := (invs w)(i := Some (v\<lparr>inv_state := s\<rparr>))\<rparr>)"
  by (simp add: set_state_def)

lemma inv_get_live [simp]:
  assumes "invs w i = Some v"
  shows "inv_get_source (Some i) w = Some (Some (inv_src v))"
    and "inv_get_target (Some i) w = Some (Some (inv_target v))"
    and "inv_get_source_role (Some i) w = Some (src_role v)"
    and "inv_get_target_role (Some i) w = Some (target_role v)"
    and "inv_get_game (Some i) w = Some (inv_game v)"
  using assms
  by (simp_all add: inv_get_source_def inv_get_target_def inv_get_source_role_def
      inv_get_target_role_def inv_get_game_def)

lemma client_ref_live [simp]:
  "clients w c = Some v \<Longrightarrow> client_ref (Some c) w =
     Some (Some c, w\<lparr>clients := (clients w)(c := Some (v\<lparr>c_ref_count := size_inc (c_ref_count v)\<rparr>))\<rparr>)"
  by (simp add: client_ref_def)

lemma inv_ref_live [simp]:
  "invs w i = Some v \<Longrightarrow> inv_ref (Some i) w =
     Some (Some i, w\<lparr>invs := (invs w)(i := Some (v\<lparr>i_ref_count := size_inc (i_ref_count v)\<rparr>))\<rparr>)"
  by (simp add: inv_ref_def)

lemma w_game_create_some:
  assumes "mem (os w) = []"
  shows "w_game_create w =
      (Some (next_addr w), w\<lparr>games := (games w)(next_addr w := Some new_game),
                             next_addr := Suc (next_addr w)\<rparr>)"
  using assms game_create_new by (simp add: w_game_create_def Let_def)

text \<open>A game is there exactly in the states that need one.\<close>

definition inv_ok :: "invitation \<Rightarrow> bool" where
  "inv_ok v \<longleftrightarrow> (inv_state v = INV_OPEN_STATE \<longrightarrow> inv_game v = None) \<and>
     (inv_state v = INV_ACCEPTED_STATE \<longrightarrow> inv_game v \<noteq> None)"

lemma w_game_create_invs: "w_game_create w = (r, w') \<Longrightarrow> invs w' = invs w \<and> clients w' = clients w"
  by (auto simp: w_game_create_def Let_def split: prod.splits option.splits)

lemma w_game_resign_invs: "w_game_resign g role w = Some (st, w') \<Longrightarrow> invs w' = invs w \<and> clients w' = clients w"
  by (auto simp: w_game_resign_def Let_def split: bind_splits prod.splits option.splits)

lemma game_resign_status: "fst (game_resign g r) = -1 \<or> fst (game_resign g r) = 0"
  by (auto simp: game_resign_def split: option.splits)

lemma w_game_resign_status: "w_game_resign g role w = Some (st, w') \<Longrightarrow> st = -1 \<or> st = 0"
  using game_resign_status [of _ role]
  by (auto simp: w_game_resign_def Let_def split: bind_splits prod.splits) (metis fst_conv)+

lemma inv_create_result:
  assumes "clients w s = Some sv" and "clients w t = Some tv" and "mem (os w) = []"
    and "invs w (next_addr w) = None"
  shows "inv_create (Some s) (Some t) srole trole w =
    (if srole = NULL_ROLE \<or> trole = NULL_ROLE \<or> s = t then Some (None, w)
     else Some (Some (next_addr w), w\<lparr>
       invs := (invs w)(next_addr w := Some
         \<lparr>inv_src = s, inv_target = t, src_role = srole, target_role = trole, inv_game = None,
          inv_state = INV_OPEN_STATE, state_locked = False, i_ref_count = 1\<rparr>),
       clients := (clients w)(s := Some (sv\<lparr>c_ref_count := c_ref_count sv + 1\<rparr>),
                              t := Some (tv\<lparr>c_ref_count := c_ref_count tv + 1\<rparr>)),
       next_addr := Suc (next_addr w)\<rparr>))"
proof -
  have m: "w_malloc w = (True, w)"
    using assms(3) by (simp add: w_malloc_def os_malloc_def)
  show ?thesis
    using assms by (simp add: inv_create_def m size_inc_def Let_def)
qed

lemma inv_accept_result:
  assumes "invs w i = Some v" and "\<not> state_locked v" and "mem (os w) = []"
  shows "inv_accept (Some i) w =
    (if inv_state v \<noteq> INV_OPEN_STATE then Some (-1, w)
     else Some (0, w\<lparr>games := (games w)(next_addr w := Some new_game),
            next_addr := Suc (next_addr w),
            invs := (invs w)(i := Some (v\<lparr>inv_game := Some (next_addr w),
                                          inv_state := INV_ACCEPTED_STATE\<rparr>))\<rparr>)) \<and>
    game_inv new_game \<and> abs_game new_game = ttt_start"
  using assms
  by (simp add: inv_accept_def w_game_create_some new_game_inv new_game_abs)

lemma inv_close_result:
  assumes "invs w i = Some v" and "\<not> state_locked v"
    and "case inv_game v of None \<Rightarrow> True | Some a \<Rightarrow> games w a = Some g"
  shows "inv_close (Some i) role w =
    (let closed = w\<lparr>invs := (invs w)(i := Some (v\<lparr>inv_state := INV_CLOSED_STATE\<rparr>))\<rparr> in
     if inv_state v = INV_CLOSED_STATE then Some (-1, w)
     else case (role, inv_game v) of
       (NULL_ROLE, None) \<Rightarrow> Some (0, closed)
     | (NULL_ROLE, Some a) \<Rightarrow> Some (-1, w)
     | (_, None) \<Rightarrow> Some (-1, w)
     | (_, Some a) \<Rightarrow>
         if over (abs_game g) then Some (-1, w)
         else Some (0, closed\<lparr>games := (games w)
                (a := Some (g\<lparr>game_status := GAME_TERMINATED, winner := opponent role\<rparr>))\<rparr>))"
proof (cases "inv_game v")
  case None
  then show ?thesis using assms
    by (cases "inv_state v"; cases role)
       (simp_all add: inv_close_def w_game_resign_def game_resign_def Let_def)
next
  case (Some a)
  then have g: "games w a = Some g" using assms(3) by simp
  have same: "w\<lparr>games := (games w)(a := Some g)\<rparr> = w" using g by (simp add: fun_upd_idem)
  show ?thesis using assms(1,2) Some g same
    by (cases "inv_state v"; cases role)
       (simp_all add: inv_close_def w_game_resign_def game_resign_abs ttt_resign_def Let_def)
qed

subsection \<open>Properties of the invitation module\<close>

text \<open>With memory available \<open>inv_create\<close> refuses a \<open>NULL_ROLE\<close> and an invitation of a client to
itself, and changes nothing then; otherwise the new invitation is open, has the given parties and
roles, no game and one reference, and each party has one reference more.\<close>

theorem inv_create_correct:
  assumes "clients w s = Some sv" and "clients w t = Some tv" and "mem (os w) = []"
    and "invs w (next_addr w) = None"
  shows "inv_create (Some s) (Some t) srole trole w =
    (if srole = NULL_ROLE \<or> trole = NULL_ROLE \<or> s = t then Some (None, w)
     else Some (Some (next_addr w), w\<lparr>
       invs := (invs w)(next_addr w := Some
         \<lparr>inv_src = s, inv_target = t, src_role = srole, target_role = trole, inv_game = None,
          inv_state = INV_OPEN_STATE, state_locked = False, i_ref_count = 1\<rparr>),
       clients := (clients w)(s := Some (sv\<lparr>c_ref_count := c_ref_count sv + 1\<rparr>),
                              t := Some (tv\<lparr>c_ref_count := c_ref_count tv + 1\<rparr>)),
       next_addr := Suc (next_addr w)\<rparr>))"
  by (rule inv_create_result [OF assms])

theorem inv_create_correct_witness:
  "\<exists>w'. inv_create (Some 1) (Some 2) FIRST_PLAYER_ROLE SECOND_PLAYER_ROLE (duo_world INV_OPEN_STATE None) =
     Some (Some 100, w') \<and> c_ref_count (the (clients w' 1)) = 2"
proof -
  let ?w = "duo_world INV_OPEN_STATE None"
  have "clients ?w 1 = Some (sample_client 5)" "clients ?w 2 = Some (sample_client 6)"
    "mem (os ?w) = []" "invs ?w (next_addr ?w) = None"
    by (simp_all add: duo_world_def blank_world_def idle_os_def)
  from inv_create_correct [OF this, of FIRST_PLAYER_ROLE SECOND_PLAYER_ROLE]
  show ?thesis by (simp add: duo_world_def blank_world_def sample_client_def)
qed

text \<open>\<open>inv_accept\<close> accepts exactly an open invitation: it gives it a new game in the initial state
with one reference and makes it accepted. In any other state it fails and changes nothing.\<close>

theorem inv_accept_correct:
  assumes "invs w i = Some v" and "\<not> state_locked v" and "mem (os w) = []"
  shows "inv_accept (Some i) w =
    (if inv_state v \<noteq> INV_OPEN_STATE then Some (-1, w)
     else Some (0, w\<lparr>games := (games w)(next_addr w := Some new_game),
            next_addr := Suc (next_addr w),
            invs := (invs w)(i := Some (v\<lparr>inv_game := Some (next_addr w),
                                          inv_state := INV_ACCEPTED_STATE\<rparr>))\<rparr>)) \<and>
    game_inv new_game \<and> abs_game new_game = ttt_start"
  by (rule inv_accept_result [OF assms])

theorem inv_accept_correct_witness:
  "\<exists>w'. inv_accept (Some 3) (duo_world INV_OPEN_STATE None) = Some (0, w') \<and>
     games w' 100 = Some new_game \<and>
     invs w' 3 = Some (sample_inv INV_ACCEPTED_STATE (Some 100))"
proof -
  let ?w = "duo_world INV_OPEN_STATE None"
  have "invs ?w 3 = Some (sample_inv INV_OPEN_STATE None)"
    "\<not> state_locked (sample_inv INV_OPEN_STATE None)" "mem (os ?w) = []"
    by (simp_all add: duo_world_def blank_world_def idle_os_def sample_inv_def)
  from inv_accept_correct [OF this] show ?thesis
    by (simp add: sample_inv_def duo_world_def blank_world_def)
qed

text \<open>\<open>inv_close\<close> without a role closes exactly the invitations that have no game yet; with a role
it closes exactly an invitation whose game is in progress, and that game ends with the other role as
its winner. Otherwise it fails and changes nothing.\<close>

theorem inv_close_correct:
  assumes "invs w i = Some v" and "\<not> state_locked v"
    and "case inv_game v of None \<Rightarrow> True | Some a \<Rightarrow> games w a = Some g"
  shows "inv_close (Some i) role w =
    (let closed = w\<lparr>invs := (invs w)(i := Some (v\<lparr>inv_state := INV_CLOSED_STATE\<rparr>))\<rparr> in
     if inv_state v = INV_CLOSED_STATE then Some (-1, w)
     else case (role, inv_game v) of
       (NULL_ROLE, None) \<Rightarrow> Some (0, closed)
     | (NULL_ROLE, Some a) \<Rightarrow> Some (-1, w)
     | (_, None) \<Rightarrow> Some (-1, w)
     | (_, Some a) \<Rightarrow>
         if over (abs_game g) then Some (-1, w)
         else Some (0, closed\<lparr>games := (games w)
                (a := Some (g\<lparr>game_status := GAME_TERMINATED, winner := opponent role\<rparr>))\<rparr>))"
  by (rule inv_close_result [OF assms])

theorem inv_close_correct_witness:
  "\<exists>w'. inv_close (Some 3) FIRST_PLAYER_ROLE (duo_world INV_ACCEPTED_STATE (Some 4)) = Some (0, w') \<and>
     winner (the (games w' 4)) = SECOND_PLAYER_ROLE"
proof -
  let ?w = "duo_world INV_ACCEPTED_STATE (Some 4)" and ?v = "sample_inv INV_ACCEPTED_STATE (Some 4)"
  have "invs ?w 3 = Some ?v" "\<not> state_locked ?v"
    "case inv_game ?v of None \<Rightarrow> True | Some a \<Rightarrow> games ?w a = Some sample_game"
    by (simp_all add: duo_world_def blank_world_def sample_inv_def)
  from inv_close_correct [OF this, of FIRST_PLAYER_ROLE] show ?thesis
    by (simp add: sample_inv_def sample_game_def abs_game_def opponent_def Let_def
        GAME_RUNNING_def GAME_TERMINATED_def)
qed

text \<open>C17: whatever \<open>inv_accept\<close> and \<open>inv_close\<close> do, with any arguments and any results of the
allocations, no invitation ever goes back in its life (open, accepted, closed), a closed one does not
change at all, and an invitation has a game when it is accepted and none while it is open.\<close>

theorem invitation_lifecycle:
  assumes "inv_accept p w = Some (st, w') \<or> inv_close p role w = Some (st, w')"
    and "invs w i = Some v" and "inv_ok v"
  shows "\<exists>v'. invs w' i = Some v' \<and> inv_state v \<le> inv_state v' \<and> inv_ok v' \<and>
     (inv_state v = INV_CLOSED_STATE \<longrightarrow> v' = v) \<and> (p \<noteq> Some i \<longrightarrow> v' = v) \<and>
     inv_src v' = inv_src v \<and> inv_target v' = inv_target v \<and> i_ref_count v' = i_ref_count v"
proof (cases "p = Some i")
  case False
  have "invs w' i = Some v"
    using assms(1,2) False
    by (auto simp: inv_accept_def inv_close_def set_state_def set_game_def
        split: option.splits if_splits bind_splits prod.splits dest: w_game_create_invs w_game_resign_invs)
  with False assms(3) show ?thesis by auto
next
  case True
  show ?thesis
    using assms True
    by (auto simp: inv_accept_def inv_close_def inv_ok_def less_eq_INVITATION_STATE_def
        split: option.splits if_splits bind_splits prod.splits
        dest!: w_game_create_invs w_game_resign_invs)
qed

theorem invitation_lifecycle_witness:
  "inv_ok (the (invs (snd (the (inv_accept (Some 3) (duo_world INV_OPEN_STATE None)))) 3))"
proof -
  let ?w = "duo_world INV_OPEN_STATE None" and ?v = "sample_inv INV_OPEN_STATE None"
  have "inv_accept (Some 3) ?w \<noteq> None"
    by (simp add: inv_accept_def duo_world_def blank_world_def sample_inv_def idle_os_def
        w_game_create_def game_create_new)
  then obtain st w' where r: "inv_accept (Some 3) ?w = Some (st, w')" by auto
  have "invs ?w 3 = Some ?v" "inv_ok ?v" by (simp_all add: duo_world_def inv_ok_def sample_inv_def)
  with invitation_lifecycle [of "Some 3" ?w st w' NULL_ROLE 3 ?v] r show ?thesis by auto
qed

text \<open>C32: when the game of an invitation that is accepted cannot be allocated, \<open>inv_accept\<close> fails, leaves
the invitation open, and keeps its state mutex: every later \<open>inv_accept\<close> or \<open>inv_close\<close> of this
invitation blocks for ever.\<close>

theorem inv_accept_out_of_memory:
  assumes "invs w i = Some v" and "inv_state v = INV_OPEN_STATE" and "\<not> state_locked v"
    and "mem (os w) = False # m"
  shows "\<exists>w'. inv_accept (Some i) w = Some (-1, w') \<and>
     invs w' i = Some (v\<lparr>inv_game := None, state_locked := True\<rparr>) \<and>
     inv_accept (Some i) w' = None \<and> inv_close (Some i) role w' = None"
proof -
  have "game_create (mem (os w)) = (None, m)" by (simp add: assms(4) game_create_def)
  then have "w_game_create w = (None, w\<lparr>os := (os w)\<lparr>mem := m\<rparr>\<rparr>)"
    by (simp add: w_game_create_def Let_def)
  with assms show ?thesis by (simp add: inv_accept_def inv_close_def)
qed

theorem inv_accept_out_of_memory_witness:
  "\<exists>w'. inv_accept (Some 3) ((duo_world INV_OPEN_STATE None)\<lparr>os := idle_os\<lparr>mem := [False]\<rparr>\<rparr>)
       = Some (-1, w') \<and> inv_close (Some 3) NULL_ROLE w' = None"
  using inv_accept_out_of_memory
    [of "(duo_world INV_OPEN_STATE None)\<lparr>os := idle_os\<lparr>mem := [False]\<rparr>\<rparr>" 3
        "sample_inv INV_OPEN_STATE None" "[]" NULL_ROLE]
  by (fastforce simp: duo_world_def sample_inv_def)

end
