(* ===== verification/Client_Base.thy ===== *)
theory Client_Base
  imports Invitation
begin

text \<open>
  The parts of the client module (\<open>src/src/client.c\<close>) that the registries and the protocol of
  invitations are built on: a client's table of invitations, its creation and accessors, and sending
  packets. An index is a natural number; a table access outside the array has no value. The mutexes
  taken and released inside one operation are not part of the state.
\<close>

subsection \<open>The table of invitations\<close>

definition set_slot :: "nat \<Rightarrow> nat option \<Rightarrow> client \<Rightarrow> client" where
  "set_slot k x v = v\<lparr>invs_lst := (invs_lst v)[k := x]\<rparr>"

text \<open>\<open>client->invs.lst[id]\<close>\<close>

definition read_slot :: "nat \<Rightarrow> nat \<Rightarrow> world \<Rightarrow> nat option option" where
  "read_slot c k w = do {
     v \<leftarrow> clients w c;
     if k < length (invs_lst v) then Some (invs_lst v ! k) else None
   }"

definition search_inv_lst :: "nat option \<Rightarrow> nat option \<Rightarrow> world \<Rightarrow> int option" where
  "search_inv_lst p ip w =
    (case p of None \<Rightarrow> Some (-1)
     | Some c \<Rightarrow> do {
         v \<leftarrow> clients w c;
         if invs_lst v = [] then Some (-1)
         else if invs_len v = 0 then Some (-1)
         else case find_idx (\<lambda>x. x = ip) (take (invs_cap v) (invs_lst v)) of
                None \<Rightarrow> Some (-1)
              | Some k \<Rightarrow> Some (int k)
       })"

definition insert_into_inv_lst :: "nat option \<Rightarrow> nat option \<Rightarrow> world \<Rightarrow> (int \<times> world) option" where
  "insert_into_inv_lst p ip w =
    (case p of None \<Rightarrow> Some (-1, w)
     | Some c \<Rightarrow> do {
         v \<leftarrow> clients w c;
         if invs_lst v = [] then Some (-1, w)
         else if invs_len v = invs_cap v then Some (-1, w)
         else do {
           (idx, w) \<leftarrow>
             (case find_idx (\<lambda>x. x = None) (take (invs_cap v) (invs_lst v)) of
                None \<Rightarrow> Some (-1, w)
              | Some k \<Rightarrow> do {
                  (r, w) \<leftarrow> inv_ref ip w;
                  Some (int k, w\<lparr>clients := (clients w)(c := map_option (set_slot k r) (clients w c))\<rparr>)
                });
           v \<leftarrow> clients w c;
           Some (idx, w\<lparr>clients := (clients w)
                    (c := Some (v\<lparr>invs_len := (invs_len v + 1) mod 2 ^ 64\<rparr>))\<rparr>)
         }
       })"

text \<open>The reference is dropped before the slot is cleared; if that frees the client, the store that
follows is an access to freed memory.\<close>

definition remove_from_inv_lst :: "nat option \<Rightarrow> nat option \<Rightarrow> world \<Rightarrow> (int \<times> world) option" where
  "remove_from_inv_lst p ip w =
    (case p of None \<Rightarrow> Some (-1, w)
     | Some c \<Rightarrow> do {
         v \<leftarrow> clients w c;
         if invs_lst v = [] then Some (-1, w)
         else if invs_len v = 0 then Some (-1, w)
         else case find_idx (\<lambda>x. x = ip) (take (invs_cap v) (invs_lst v)) of
                None \<Rightarrow> Some (-1, w)
              | Some k \<Rightarrow> do {
                  w \<leftarrow> inv_unref (invs_lst v ! k) w;
                  v \<leftarrow> clients w c;
                  Some (int k, w\<lparr>clients := (clients w)
                           (c := Some ((set_slot k None v)\<lparr>invs_len := invs_len v - 1\<rparr>))\<rparr>)
                }
       })"

definition client_add_invitation :: "nat option \<Rightarrow> nat option \<Rightarrow> world \<Rightarrow> (int \<times> world) option" where
  "client_add_invitation p ip w =
    (case p of None \<Rightarrow> Some (-1, w) | Some c \<Rightarrow> insert_into_inv_lst p ip w)"

definition client_remove_invitation :: "nat option \<Rightarrow> nat option \<Rightarrow> world \<Rightarrow> (int \<times> world) option" where
  "client_remove_invitation p ip w =
    (case p of None \<Rightarrow> Some (-1, w) | Some c \<Rightarrow> remove_from_inv_lst p ip w)"

definition search_inv_lst_safe :: "nat option \<Rightarrow> nat option \<Rightarrow> world \<Rightarrow> int option" where
  "search_inv_lst_safe p ip w =
    (case p of None \<Rightarrow> Some (-1) | Some c \<Rightarrow> search_inv_lst p ip w)"

subsection \<open>Creation and accessors\<close>

definition TABLE_SIZE :: nat where
  "TABLE_SIZE = MAX_CLIENTS * 128"

definition client_create :: "int \<Rightarrow> world \<Rightarrow> (nat option \<times> world) option" where
  "client_create fd w =
    (let (ok, w) = w_malloc w
     in if \<not> ok then Some (None, w)
        else let (ok, w) = w_malloc w
        in if \<not> ok then Some (None, w)
        else let c = next_addr w;
                 v = \<lparr>c_player = None, c_fd = fd, invs_lst = replicate TABLE_SIZE None,
                      invs_len = 0, invs_cap = TABLE_SIZE, c_ref_count = 0\<rparr>
             in client_ref (Some c)
                  (w\<lparr>clients := (clients w)(c := Some v), next_addr := Suc (next_addr w)\<rparr>))"

definition client_set_player_safe :: "nat \<Rightarrow> nat option \<Rightarrow> world \<Rightarrow> world option" where
  "client_set_player_safe c p w = do {
     v \<leftarrow> clients w c;
     Some (w\<lparr>clients := (clients w)(c := Some (v\<lparr>c_player := p\<rparr>))\<rparr>)
   }"

definition client_get_player :: "nat option \<Rightarrow> world \<Rightarrow> nat option option" where
  "client_get_player p w =
    (case p of None \<Rightarrow> Some None | Some c \<Rightarrow> do { v \<leftarrow> clients w c; Some (c_player v) })"

definition client_get_fd :: "nat \<Rightarrow> world \<Rightarrow> int option" where
  "client_get_fd c w = do { v \<leftarrow> clients w c; Some (c_fd v) }"

subsection \<open>Sending packets\<close>

definition w_pack_header ::
  "JEUX_PACKET_TYPE \<Rightarrow> uint8 \<Rightarrow> uint8 \<Rightarrow> uint16 \<Rightarrow> world \<Rightarrow> packet_header \<times> world" where
  "w_pack_header typ ident role sz w =
    (let (jph, o1) = pack_header typ ident role sz (os w) in (jph, w\<lparr>os := o1\<rparr>))"

definition client_send_packet ::
  "nat option \<Rightarrow> packet_header option \<Rightarrow> byte list option \<Rightarrow> world \<Rightarrow> (int \<times> world) option" where
  "client_send_packet p pkt datap w =
    (case p of None \<Rightarrow> Some (-1, w)
     | Some c \<Rightarrow>
       (case pkt of None \<Rightarrow> Some (-1, w)
        | Some hdr \<Rightarrow> do {
            fd \<leftarrow> client_get_fd c w;
            (status, o1) \<leftarrow> proto_send_packet fd hdr datap (os w);
            Some (status, w\<lparr>os := o1\<rparr>)
          }))"

definition client_send_ack :: "nat option \<Rightarrow> byte list option \<Rightarrow> nat \<Rightarrow> world \<Rightarrow> (int \<times> world) option" where
  "client_send_ack p datap datalen w =
    (case p of None \<Rightarrow> Some (-1, w)
     | Some c \<Rightarrow>
       let (jph, w) = w_pack_header JEUX_ACK_PKT 0 0 (of_nat datalen) w
       in client_send_packet p (Some jph) datap w)"

definition client_send_nack :: "nat option \<Rightarrow> world \<Rightarrow> (int \<times> world) option" where
  "client_send_nack p w =
    (case p of None \<Rightarrow> Some (-1, w)
     | Some c \<Rightarrow>
       let (jph, w) = w_pack_header JEUX_NACK_PKT 0 0 0 w
       in client_send_packet p (Some jph) None w)"

subsection \<open>Lemmas on the table\<close>

interpretation inv_table: slot_table invs_lst set_slot
  by unfold_locales (simp add: set_slot_def)

text \<open>The invariant of a client's table: the array has its capacity, and \<open>len\<close> counts its entries.\<close>

definition table_ok :: "client \<Rightarrow> bool" where
  "table_ok v \<longleftrightarrow> invs_cap v = length (invs_lst v) \<and> invs_lst v \<noteq> [] \<and>
     invs_len v = occupied (invs_lst v) \<and> invs_cap v < 2 ^ 64"

lemma insert_full:
  "clients w c = Some v \<Longrightarrow> table_ok v \<Longrightarrow> None \<notin> set (invs_lst v) \<Longrightarrow>
   insert_into_inv_lst (Some c) ip w = Some (-1, w)"
  by (simp add: insert_into_inv_lst_def table_ok_def occupied_full_iff)

lemma insert_free:
  assumes "clients w c = Some v" and "table_ok v" and "invs w i = Some iv"
    and "find_idx (\<lambda>x. x = None) (invs_lst v) = Some k"
  shows "insert_into_inv_lst (Some c) (Some i) w = Some (int k, w\<lparr>
      invs := (invs w)(i := Some (iv\<lparr>i_ref_count := size_inc (i_ref_count iv)\<rparr>)),
      clients := (clients w)(c := Some ((set_slot k (Some i) v)\<lparr>invs_len := invs_len v + 1\<rparr>))\<rparr>)"
    and "table_ok ((set_slot k (Some i) v)\<lparr>invs_len := invs_len v + 1\<rparr>)"
proof -
  have k: "k < length (invs_lst v)" "invs_lst v ! k = None"
    using find_idx_SomeD [OF assms(4)] by simp_all
  have occ: "occupied ((invs_lst v)[k := Some i]) = Suc (occupied (invs_lst v))"
    using k by (simp add: occupied_fill)
  have "Suc (occupied (invs_lst v)) \<le> length (invs_lst v)"
    using occupied_le [of "(invs_lst v)[k := Some i]"] occ by simp
  then show "insert_into_inv_lst (Some c) (Some i) w = Some (int k, w\<lparr>
      invs := (invs w)(i := Some (iv\<lparr>i_ref_count := size_inc (i_ref_count iv)\<rparr>)),
      clients := (clients w)(c := Some ((set_slot k (Some i) v)\<lparr>invs_len := invs_len v + 1\<rparr>))\<rparr>)"
    using assms by (simp add: insert_into_inv_lst_def table_ok_def set_slot_def)
  show "table_ok ((set_slot k (Some i) v)\<lparr>invs_len := invs_len v + 1\<rparr>)"
    using assms(2) occ by (auto simp: table_ok_def set_slot_def)
qed

lemma search_result:
  "clients w c = Some v \<Longrightarrow> table_ok v \<Longrightarrow>
   search_inv_lst_safe (Some c) (Some i) w =
     Some (case find_idx (\<lambda>x. x = Some i) (invs_lst v) of None \<Rightarrow> -1 | Some k \<Rightarrow> int k)"
  by (auto simp: search_inv_lst_safe_def search_inv_lst_def table_ok_def find_idx_None_iff
      occupied_zero_iff split: option.splits dest!: find_idx_SomeD)
     (metis nth_mem option.distinct(1) singletonD subsetD)+

lemma remove_missing:
  "clients w c = Some v \<Longrightarrow> table_ok v \<Longrightarrow> Some i \<notin> set (invs_lst v) \<Longrightarrow>
   remove_from_inv_lst (Some c) (Some i) w = Some (-1, w)"
  using find_idx_None_iff [of "\<lambda>x. x = Some i" "invs_lst v"]
  by (auto simp: remove_from_inv_lst_def table_ok_def)

lemma remove_found:
  assumes "clients w c = Some v" and "table_ok v" and "invs w i = Some iv" and "i_ref_count iv \<noteq> 1"
    and "find_idx (\<lambda>x. x = Some i) (invs_lst v) = Some k"
  shows "remove_from_inv_lst (Some c) (Some i) w = Some (int k, w\<lparr>
      invs := (invs w)(i := Some (iv\<lparr>i_ref_count := size_dec (i_ref_count iv)\<rparr>)),
      clients := (clients w)(c := Some ((set_slot k None v)\<lparr>invs_len := invs_len v - 1\<rparr>))\<rparr>)"
    and "table_ok ((set_slot k None v)\<lparr>invs_len := invs_len v - 1\<rparr>)"
proof -
  have k: "k < length (invs_lst v)" "invs_lst v ! k = Some i"
    using find_idx_SomeD [OF assms(5)] by simp_all
  then have occ: "Suc (occupied ((invs_lst v)[k := None])) = occupied (invs_lst v)"
    by (simp add: occupied_clear)
  have "size_dec (i_ref_count iv) \<noteq> 0" using assms(4) by (simp add: size_dec_def)
  then have "inv_unref (Some i) w =
      Some (w\<lparr>invs := (invs w)(i := Some (iv\<lparr>i_ref_count := size_dec (i_ref_count iv)\<rparr>))\<rparr>)"
    using assms(3) by (simp add: inv_unref_def release_simps inv_unref_step_def)
  then show "remove_from_inv_lst (Some c) (Some i) w = Some (int k, w\<lparr>
      invs := (invs w)(i := Some (iv\<lparr>i_ref_count := size_dec (i_ref_count iv)\<rparr>)),
      clients := (clients w)(c := Some ((set_slot k None v)\<lparr>invs_len := invs_len v - 1\<rparr>))\<rparr>)"
    using assms occ k by (auto simp: remove_from_inv_lst_def table_ok_def)
  show "table_ok ((set_slot k None v)\<lparr>invs_len := invs_len v - 1\<rparr>)"
    using assms(2) occ by (auto simp: table_ok_def set_slot_def)
qed

subsection \<open>Properties of the table\<close>

text \<open>C19: adding an invitation that is not in a client's table puts it into the first free slot, takes one
reference to it and returns the index, under which the search then finds it; removing it returns the
same index and restores the state. A full table is refused, with no effect.\<close>

theorem add_search_remove_roundtrip:
  assumes "clients w c = Some v" and "table_ok v" and "invs w i = Some iv" and "i_ref_count iv \<noteq> 0"
    and "Some i \<notin> set (invs_lst v)"
  shows "if None \<notin> set (invs_lst v) then client_add_invitation (Some c) (Some i) w = Some (-1, w)
    else \<exists>k w'. client_add_invitation (Some c) (Some i) w = Some (int k, w') \<and>
      invs_lst v ! k = None \<and> (\<forall>j < k. invs_lst v ! j \<noteq> None) \<and>
      invs w' i = Some (iv\<lparr>i_ref_count := i_ref_count iv + 1\<rparr>) \<and>
      search_inv_lst_safe (Some c) (Some i) w' = Some (int k) \<and>
      client_remove_invitation (Some c) (Some i) w' = Some (int k, w)"
proof (cases "None \<in> set (invs_lst v)")
  case False
  then show ?thesis using insert_full [OF assms(1,2)] by (simp add: client_add_invitation_def)
next
  case True
  then obtain k where k: "find_idx (\<lambda>x. x = None) (invs_lst v) = Some k"
    by (rule find_idx_member)
  let ?v = "(set_slot k (Some i) v)\<lparr>invs_len := invs_len v + 1\<rparr>"
  let ?w = "w\<lparr>invs := (invs w)(i := Some (iv\<lparr>i_ref_count := size_inc (i_ref_count iv)\<rparr>)),
      clients := (clients w)(c := Some ?v)\<rparr>"
  note ins = insert_free [OF assms(1-3) k]
  have found: "find_idx (\<lambda>x. x = Some i) (invs_lst ?v) = Some k"
    using inv_table.fill_search [OF k assms(5)] by (simp add: set_slot_def)
  have slot: "(invs_lst v)[k := None] = invs_lst v"
    using find_idx_SomeD [OF k] by (simp add: list_update_same_conv)
  have i: "invs ?w i = Some (iv\<lparr>i_ref_count := size_inc (i_ref_count iv)\<rparr>)" by simp
  have cnt: "i_ref_count (iv\<lparr>i_ref_count := size_inc (i_ref_count iv)\<rparr>) \<noteq> 1"
    using assms(4) by (simp add: size_inc_def)
  have restored: "(set_slot k None ?v)\<lparr>invs_len := invs_len ?v - 1\<rparr> = v"
    using slot by (simp add: set_slot_def)
  have cw: "clients ?w c = Some ?v" by simp
  have "w\<lparr>invs := (invs w)(i := Some iv), clients := (clients w)(c := Some v)\<rparr> = w"
    using assms(1,3) by (simp add: fun_upd_idem)
  then have rem: "remove_from_inv_lst (Some c) (Some i) ?w = Some (int k, w)"
    unfolding remove_found(1) [OF cw ins(2) i cnt found] restored by simp
  have srch: "search_inv_lst_safe (Some c) (Some i) ?w = Some (int k)"
    unfolding search_result [OF cw ins(2)] found by simp
  have add: "client_add_invitation (Some c) (Some i) w = Some (int k, ?w)"
    using ins(1) by (simp add: client_add_invitation_def)
  have "invs_lst v ! k = None" "\<forall>j < k. invs_lst v ! j \<noteq> None"
    using find_idx_SomeD [OF k] by simp_all
  moreover have "invs ?w i = Some (iv\<lparr>i_ref_count := i_ref_count iv + 1\<rparr>)"
    by (simp add: size_inc_def)
  moreover have "client_remove_invitation (Some c) (Some i) ?w = Some (int k, w)"
    using rem by (simp add: client_remove_invitation_def)
  ultimately have "\<exists>k w'. client_add_invitation (Some c) (Some i) w = Some (int k, w') \<and>
      invs_lst v ! k = None \<and> (\<forall>j < k. invs_lst v ! j \<noteq> None) \<and>
      invs w' i = Some (iv\<lparr>i_ref_count := i_ref_count iv + 1\<rparr>) \<and>
      search_inv_lst_safe (Some c) (Some i) w' = Some (int k) \<and>
      client_remove_invitation (Some c) (Some i) w' = Some (int k, w)"
    using add srch by blast
  then show ?thesis using True by (simp only: simp_thms if_False)
qed

theorem add_search_remove_roundtrip_witness:
  "\<exists>k w'. client_add_invitation (Some 1) (Some 3) (duo_world INV_OPEN_STATE None) = Some (int k, w') \<and>
     client_remove_invitation (Some 1) (Some 3) w' = Some (int k, duo_world INV_OPEN_STATE None)"
proof -
  have "clients (duo_world INV_OPEN_STATE None) 1 = Some (sample_client 5)" "table_ok (sample_client 5)"
    "invs (duo_world INV_OPEN_STATE None) 3 = Some (sample_inv INV_OPEN_STATE None)"
    "i_ref_count (sample_inv INV_OPEN_STATE None) \<noteq> 0" "Some 3 \<notin> set (invs_lst (sample_client 5))"
    by (simp_all add: duo_world_def sample_client_def table_ok_def sample_inv_def)
  moreover have "None \<in> set (invs_lst (sample_client 5))" by (simp add: sample_client_def)
  ultimately show ?thesis using add_search_remove_roundtrip by (metis (no_types, lifting))
qed

end
