(* ===== verification/Client_Registry.thy ===== *)
theory Client_Registry
  imports Client_Base
begin

text \<open>
  The client registry (\<open>src/src/client_registry.c\<close>): the table of connected clients and the
  semaphore that is free exactly while the table is empty. A \<open>sem_wait\<close> on a semaphore that is not
  free does not return: it has no value.
\<close>

definition creg_init :: "mem \<Rightarrow> client_registry option \<times> mem" where
  "creg_init m =
    (let (ok, m) = malloc m
     in if \<not> ok then (None, m)
        else (Some \<lparr>creg_arr = replicate MAX_CLIENTS None, creg_len = 0, creg_cap = MAX_CLIENTS,
                    count_sem = 1\<rparr>, m))"

definition sem_wait :: "client_registry \<Rightarrow> client_registry option" where
  "sem_wait r = (if count_sem r = 0 then None else Some (r\<lparr>count_sem := count_sem r - 1\<rparr>))"

definition sem_post :: "client_registry \<Rightarrow> client_registry" where
  "sem_post r = r\<lparr>count_sem := count_sem r + 1\<rparr>"

definition creg_slots :: "world \<Rightarrow> nat option list" where
  "creg_slots w = take (creg_cap (creg w)) (creg_arr (creg w))"

definition set_creg_slot :: "nat \<Rightarrow> nat option \<Rightarrow> world \<Rightarrow> world" where
  "set_creg_slot k x w = w\<lparr>creg := (creg w)\<lparr>creg_arr := (creg_arr (creg w))[k := x]\<rparr>\<rparr>"

definition creg_register :: "int \<Rightarrow> world \<Rightarrow> (nat option \<times> world) option" where
  "creg_register fd w =
    (case find_idx (\<lambda>x. x = None) (creg_slots w) of
       None \<Rightarrow> Some (None, w)
     | Some idx \<Rightarrow> do {
         (cp, w) \<leftarrow> client_create fd w;
         let w = set_creg_slot idx cp w;
         if cp = None then Some (None, w)
         else do {
           r \<leftarrow> (if creg_len (creg w) = 0 then sem_wait (creg w) else Some (creg w));
           let w = w\<lparr>creg := r\<lparr>creg_len := (creg_len r + 1) mod 2 ^ 64\<rparr>\<rparr>;
           Some (cp, w)
         }
       })"

definition os_close :: "int \<Rightarrow> world \<Rightarrow> world" where
  "os_close fd w = w\<lparr>os := (os w)\<lparr>closed_fds := closed_fds (os w) @ [fd]\<rparr>\<rparr>"

definition os_shutdown :: "int \<Rightarrow> world \<Rightarrow> world" where
  "os_shutdown fd w = w\<lparr>os := (os w)\<lparr>shut_fds := shut_fds (os w) @ [fd]\<rparr>\<rparr>"

definition creg_unregister :: "nat \<Rightarrow> world \<Rightarrow> (int \<times> world) option" where
  "creg_unregister c w =
    (case find_idx (\<lambda>x. x = Some c) (creg_slots w) of
       None \<Rightarrow> Some (-1, w)
     | Some idx \<Rightarrow> do {
         fd \<leftarrow> client_get_fd c w;
         let w = os_close fd w;
         w \<leftarrow> client_unref (Some c) w;
         let w = set_creg_slot idx None w;
         let len = (if creg_len (creg w) = 0 then 2 ^ 64 - 1 else creg_len (creg w) - 1);
         let r = (creg w)\<lparr>creg_len := len\<rparr>;
         let r = (if len = 0 then sem_post r else r);
         Some (0, w\<lparr>creg := r\<rparr>)
       })"

text \<open>The search of \<open>creg_lookup\<close>: the first client that is logged in under this name.\<close>

fun find_user :: "string \<Rightarrow> nat option list \<Rightarrow> world \<Rightarrow> nat option option" where
  "find_user user [] w = Some None"
| "find_user user (x # xs) w =
     (case x of None \<Rightarrow> find_user user xs w
      | Some c \<Rightarrow> do {
          p \<leftarrow> client_get_player (Some c) w;
          (case p of None \<Rightarrow> find_user user xs w
           | Some a \<Rightarrow> do {
               nm \<leftarrow> w_player_get_name (Some a) w;
               if nm = user then Some (Some c) else find_user user xs w
             })
        })"

definition creg_lookup :: "string \<Rightarrow> world \<Rightarrow> (nat option \<times> world) option" where
  "creg_lookup user w = do {
     ret \<leftarrow> find_user user (creg_slots w) w;
     client_ref ret w
   }"

text \<open>
  \<open>creg_all_players\<close>: the two loops. The result of \<open>calloc\<close> is not checked; the second loop, and the
  reader of the list, then write or read through \<open>NULL\<close>. The list is returned without its \<open>NULL\<close>
  terminator.
\<close>

fun logged_in :: "nat option list \<Rightarrow> world \<Rightarrow> nat list option" where
  "logged_in [] w = Some []"
| "logged_in (x # xs) w =
     (case x of None \<Rightarrow> logged_in xs w
      | Some c \<Rightarrow> do {
          p \<leftarrow> client_get_player (Some c) w;
          ps \<leftarrow> logged_in xs w;
          Some (case p of None \<Rightarrow> ps | Some a \<Rightarrow> a # ps)
        })"

fun ref_players :: "nat list \<Rightarrow> world \<Rightarrow> world option" where
  "ref_players [] w = Some w"
| "ref_players (a # as) w = do { (_, w) \<leftarrow> w_player_ref (Some a) w; ref_players as w }"

definition creg_all_players :: "world \<Rightarrow> (nat list \<times> world) option" where
  "creg_all_players w = do {
     ps \<leftarrow> logged_in (creg_slots w) w;
     let (ok, w) = w_malloc w;
     if \<not> ok then None
     else do { w \<leftarrow> ref_players ps w; Some (ps, w) }
   }"

definition creg_wait_for_empty :: "world \<Rightarrow> world option" where
  "creg_wait_for_empty w = do {
     r \<leftarrow> sem_wait (creg w);
     Some (w\<lparr>creg := sem_post r\<rparr>)
   }"

fun shutdown_slots :: "nat option list \<Rightarrow> world \<Rightarrow> world option" where
  "shutdown_slots [] w = Some w"
| "shutdown_slots (x # xs) w =
     (case x of None \<Rightarrow> shutdown_slots xs w
      | Some c \<Rightarrow> do { fd \<leftarrow> client_get_fd c w; shutdown_slots xs (os_shutdown fd w) })"

definition creg_shutdown_all :: "world \<Rightarrow> world option" where
  "creg_shutdown_all w = shutdown_slots (creg_slots w) w"

subsection \<open>The invariant of the registry\<close>

interpretation creg_table: slot_table "\<lambda>w. creg_arr (creg w)" set_creg_slot
  by unfold_locales (simp add: set_creg_slot_def)

text \<open>The array has its capacity, \<open>len\<close> counts the clients, and the semaphore is free exactly while the
registry is empty.\<close>

definition creg_ok :: "client_registry \<Rightarrow> bool" where
  "creg_ok r \<longleftrightarrow> length (creg_arr r) = creg_cap r \<and> creg_cap r < 2 ^ 64 - 1 \<and>
     creg_len r = occupied (creg_arr r) \<and> count_sem r = (if creg_len r = 0 then 1 else 0)"

lemma creg_slots_ok: "creg_ok (creg w) \<Longrightarrow> creg_slots w = creg_arr (creg w)"
  by (simp add: creg_slots_def creg_ok_def)

lemma creg_init_ok: "creg_init m = (Some r, m') \<Longrightarrow> creg_ok r"
  by (auto simp: creg_init_def creg_ok_def MAX_CLIENTS_def split: prod.splits if_splits)

text \<open>The client that \<open>client_create\<close> returns.\<close>

definition new_client :: "int \<Rightarrow> client" where
  "new_client fd = \<lparr>c_player = None, c_fd = fd, invs_lst = replicate TABLE_SIZE None, invs_len = 0,
                    invs_cap = TABLE_SIZE, c_ref_count = 1\<rparr>"

lemma new_client_table: "table_ok (new_client fd)"
  by (simp add: table_ok_def new_client_def TABLE_SIZE_def MAX_CLIENTS_def)

lemma client_create_result:
  obtains m where "client_create fd w = Some (None, w\<lparr>os := (os w)\<lparr>mem := m\<rparr>\<rparr>)"
  | m where "client_create fd w = Some (Some (next_addr w), w\<lparr>os := (os w)\<lparr>mem := m\<rparr>,
      clients := (clients w)(next_addr w := Some (new_client fd)), next_addr := Suc (next_addr w)\<rparr>)"
proof -
  obtain ok1 m1 where m1: "malloc (mem (os w)) = (ok1, m1)" by fastforce
  obtain ok2 m2 where m2: "malloc m1 = (ok2, m2)" by fastforce
  consider "ok1" "ok2" | "\<not> ok1" | "ok1" "\<not> ok2" by blast
  then show thesis
  proof cases
    case 1
    then have "client_create fd w = Some (Some (next_addr w), w\<lparr>os := (os w)\<lparr>mem := m2\<rparr>,
      clients := (clients w)(next_addr w := Some (new_client fd)), next_addr := Suc (next_addr w)\<rparr>)"
      using m1 m2
      by (simp add: client_create_def w_malloc_def os_malloc_def Let_def new_client_def size_inc_def)
    then show thesis by (rule that(2))
  next
    case 2
    then have "client_create fd w = Some (None, w\<lparr>os := (os w)\<lparr>mem := m1\<rparr>\<rparr>)"
      using m1 by (simp add: client_create_def w_malloc_def os_malloc_def)
    then show thesis by (rule that(1))
  next
    case 3
    then have "client_create fd w = Some (None, w\<lparr>os := (os w)\<lparr>mem := m2\<rparr>\<rparr>)"
      using m1 m2 by (simp add: client_create_def w_malloc_def os_malloc_def)
    then show thesis by (rule that(1))
  qed
qed

lemma register_full: "creg_ok (creg w) \<Longrightarrow> None \<notin> set (creg_arr (creg w)) \<Longrightarrow>
    creg_register fd w = Some (None, w)"
  using find_idx_eq_None [of None "creg_arr (creg w)"]
  by (simp add: creg_register_def creg_slots_ok)

lemma creg_ok_fill:
  assumes "creg_ok r" and "find_idx (\<lambda>x. x = None) (creg_arr r) = Some k"
  shows "creg_ok (r\<lparr>creg_arr := (creg_arr r)[k := Some c], creg_len := creg_len r + 1, count_sem := 0\<rparr>)"
    and "creg_len r + 1 < 2 ^ 64"
proof -
  have k: "k < length (creg_arr r)" "creg_arr r ! k = None"
    using find_idx_SomeD [OF assms(2)] by simp_all
  have "occupied ((creg_arr r)[k := Some c]) = Suc (occupied (creg_arr r))"
    using k by (simp add: occupied_fill)
  then show "creg_ok (r\<lparr>creg_arr := (creg_arr r)[k := Some c], creg_len := creg_len r + 1, count_sem := 0\<rparr>)"
    using assms(1) by (simp add: creg_ok_def)
  show "creg_len r + 1 < 2 ^ 64"
    using assms(1) occupied_le [of "creg_arr r"] by (simp add: creg_ok_def)
qed

lemma creg_ok_clear:
  assumes "creg_ok r" and "find_idx (\<lambda>x. x = Some c) (creg_arr r) = Some k"
  shows "creg_ok (r\<lparr>creg_arr := (creg_arr r)[k := None], creg_len := creg_len r - 1,
      count_sem := (if creg_len r = 1 then 1 else 0)\<rparr>)" and "creg_len r \<noteq> 0"
proof -
  have k: "k < length (creg_arr r)" "creg_arr r ! k = Some c"
    using find_idx_SomeD [OF assms(2)] by simp_all
  then have "Suc (occupied ((creg_arr r)[k := None])) = occupied (creg_arr r)"
    by (simp add: occupied_clear)
  then show "creg_ok (r\<lparr>creg_arr := (creg_arr r)[k := None], creg_len := creg_len r - 1,
      count_sem := (if creg_len r = 1 then 1 else 0)\<rparr>)" and "creg_len r \<noteq> 0"
    using assms(1) by (auto simp: creg_ok_def)
qed

lemma register_free:
  assumes "creg_ok (creg w)" and "find_idx (\<lambda>x. x = None) (creg_arr (creg w)) = Some k"
  shows "\<exists>m. creg_register fd w = Some (None, w\<lparr>os := (os w)\<lparr>mem := m\<rparr>\<rparr>) \<or>
     creg_register fd w = Some (Some (next_addr w), w\<lparr>os := (os w)\<lparr>mem := m\<rparr>,
       clients := (clients w)(next_addr w := Some (new_client fd)), next_addr := Suc (next_addr w),
       creg := (creg w)\<lparr>creg_arr := (creg_arr (creg w))[k := Some (next_addr w)],
                         creg_len := creg_len (creg w) + 1, count_sem := 0\<rparr>\<rparr>)"
proof -
  have k: "k < length (creg_arr (creg w))" "creg_arr (creg w) ! k = None"
    using find_idx_SomeD [OF assms(2)] by simp_all
  have same: "(creg_arr (creg w))[k := None] = creg_arr (creg w)"
    using k by (simp add: list_update_same_conv)
  have sem: "count_sem (creg w) = (if creg_len (creg w) = 0 then 1 else 0)"
    using assms(1) by (simp add: creg_ok_def)
  have len: "creg_len (creg w) + 1 < 2 ^ 64" by (rule creg_ok_fill [OF assms])
  show ?thesis
  proof (cases rule: client_create_result [of fd w])
    case (1 m)
    then show ?thesis
      using assms same by (intro exI [of _ m]) (simp add: creg_register_def creg_slots_ok set_creg_slot_def)
  next
    case (2 m)
    have "creg_register fd w = Some (Some (next_addr w), w\<lparr>os := (os w)\<lparr>mem := m\<rparr>,
       clients := (clients w)(next_addr w := Some (new_client fd)), next_addr := Suc (next_addr w),
       creg := (creg w)\<lparr>creg_arr := (creg_arr (creg w))[k := Some (next_addr w)],
                         creg_len := creg_len (creg w) + 1, count_sem := 0\<rparr>\<rparr>)"
      using 2 assms sem len
      by (cases "creg_len (creg w) = 0")
         (simp_all add: creg_register_def creg_slots_ok set_creg_slot_def sem_wait_def Let_def)
    then show ?thesis by blast
  qed
qed

lemma unregister_missing:
  "creg_ok (creg w) \<Longrightarrow> Some c \<notin> set (creg_arr (creg w)) \<Longrightarrow> creg_unregister c w = Some (-1, w)"
  using find_idx_eq_None [of "Some c" "creg_arr (creg w)"]
  by (simp add: creg_unregister_def creg_slots_ok)

lemma unregister_found:
  assumes "creg_ok (creg w)" and "find_idx (\<lambda>x. x = Some c) (creg_arr (creg w)) = Some k"
    and "clients w c = Some v" and "client_unref (Some c) (os_close (c_fd v) w) = Some w1"
  shows "creg_unregister c w = Some (0, w1\<lparr>creg := (creg w)\<lparr>creg_arr := (creg_arr (creg w))[k := None],
         creg_len := creg_len (creg w) - 1, count_sem := (if creg_len (creg w) = 1 then 1 else 0)\<rparr>\<rparr>)"
proof -
  have sem: "count_sem (creg w) = (if creg_len (creg w) = 0 then 1 else 0)"
    using assms(1) by (simp add: creg_ok_def)
  have len: "creg_len (creg w) \<noteq> 0" by (rule creg_ok_clear [OF assms(1,2)])
  have cr: "creg w1 = creg w"
    using released_frame(1) [OF client_unref_released [OF assms(4)]] by (simp add: os_close_def)
  note defs = creg_unregister_def creg_slots_ok [OF assms(1)] client_get_fd_def set_creg_slot_def
    sem_post_def Let_def
  show ?thesis
  proof (cases "creg_len (creg w) = 1")
    case True
    then show ?thesis using assms(2-4) sem cr by (simp add: defs)
  next
    case False
    then have "creg_len (creg w) - 1 \<noteq> 0" using len by simp
    then show ?thesis using assms(2-4) sem cr len False by (simp add: defs)
  qed
qed

lemma unregister_result:
  assumes "creg_ok (creg w)" and "creg_unregister c w = Some (st, w')"
  obtains "st = -1" "w' = w" "Some c \<notin> set (creg_arr (creg w))"
  | k v w1 where "st = 0" "find_idx (\<lambda>x. x = Some c) (creg_arr (creg w)) = Some k"
      "clients w c = Some v" "client_unref (Some c) (os_close (c_fd v) w) = Some w1"
      "w' = w1\<lparr>creg := (creg w)\<lparr>creg_arr := (creg_arr (creg w))[k := None],
         creg_len := creg_len (creg w) - 1, count_sem := (if creg_len (creg w) = 1 then 1 else 0)\<rparr>\<rparr>"
proof (cases "find_idx (\<lambda>x. x = Some c) (creg_arr (creg w))")
  case None
  then have "Some c \<notin> set (creg_arr (creg w))" by (simp add: find_idx_eq_None)
  with that(1) assms show thesis by (simp add: unregister_missing)
next
  case (Some k)
  note e = assms(2) [unfolded creg_unregister_def creg_slots_ok [OF assms(1)] Some client_get_fd_def Let_def]
  from e obtain v where v: "clients w c = Some v" by (cases "clients w c") simp_all
  from e v obtain w1 where w1: "client_unref (Some c) (os_close (c_fd v) w) = Some w1"
    by (cases "client_unref (Some c) (os_close (c_fd v) w)") simp_all
  show thesis
    using unregister_found [OF assms(1) Some v w1] assms(2) by (intro that(2) [OF _ Some v w1]) simp_all
qed

subsection \<open>Who is logged in\<close>

definition registered :: "world \<Rightarrow> nat \<Rightarrow> bool" where
  "registered w c \<longleftrightarrow> Some c \<in> set (creg_slots w)"

definition logged_as :: "world \<Rightarrow> nat \<Rightarrow> string \<Rightarrow> bool" where
  "logged_as w c nm \<longleftrightarrow> (\<exists>v a p. clients w c = Some v \<and> c_player v = Some a \<and>
     players w a = Some p \<and> p_name p = Some nm)"

text \<open>The client exists, is referenced, and its player, if any, exists and has a name.\<close>

definition client_live :: "world \<Rightarrow> nat \<Rightarrow> bool" where
  "client_live w c \<longleftrightarrow> (\<exists>v. clients w c = Some v \<and> c_ref_count v \<noteq> 0 \<and>
     (\<forall>a. c_player v = Some a \<longrightarrow> (\<exists>p nm. players w a = Some p \<and> p_name p = Some nm)))"

lemma w_player_get_name_live [simp]:
  "players w a = Some p \<Longrightarrow> w_player_get_name (Some a) w = p_name p"
  by (simp add: w_player_get_name_def player_get_name_def)

lemma client_get_player_live [simp]:
  "clients w c = Some v \<Longrightarrow> client_get_player (Some c) w = Some (c_player v)"
  by (simp add: client_get_player_def)

lemma logged_as_live: "clients w c = Some v \<Longrightarrow> c_player v = None \<Longrightarrow> \<not> logged_as w c nm"
  by (simp add: logged_as_def)

lemma find_user_correct:
  assumes "\<And>c. Some c \<in> set xs \<Longrightarrow> client_live w c"
  shows "\<exists>r. find_user user xs w = Some r \<and>
    (case r of None \<Rightarrow> \<forall>c. Some c \<in> set xs \<longrightarrow> \<not> logged_as w c user
     | Some c \<Rightarrow> Some c \<in> set xs \<and> logged_as w c user)"
  using assms
proof (induction xs)
  case Nil
  then show ?case by simp
next
  case (Cons x xs)
  then obtain r where r: "find_user user xs w = Some r"
    "case r of None \<Rightarrow> \<forall>c. Some c \<in> set xs \<longrightarrow> \<not> logged_as w c user
     | Some c \<Rightarrow> Some c \<in> set xs \<and> logged_as w c user" by auto
  show ?case
  proof (cases x)
    case None
    with r show ?thesis by (auto split: option.splits)
  next
    case (Some c)
    then obtain v where v: "clients w c = Some v"
      "\<And>a. c_player v = Some a \<Longrightarrow> \<exists>p nm. players w a = Some p \<and> p_name p = Some nm"
      using Cons.prems [of c] by (auto simp: client_live_def)
    show ?thesis
    proof (cases "c_player v")
      case None
      with r v(1) Some show ?thesis by (auto simp: logged_as_def split: option.splits)
    next
      case (Some a)
      with v obtain p nm where p: "players w a = Some p" "p_name p = Some nm" by blast
      have "logged_as w c user \<longleftrightarrow> nm = user" using v(1) Some p by (simp add: logged_as_def)
      with r v(1) Some p \<open>x = Some c\<close> show ?thesis by (cases "nm = user") (auto split: option.splits)
    qed
  qed
qed

text \<open>Two registered clients, the first logged in; used by the witnesses.\<close>

definition ann :: player where
  "ann = \<lparr>rating = 1500, player_id = 0, p_name = Some ''ann'', p_ref_count = 3\<rparr>"

definition lobby_world :: world where
  "lobby_world = blank_world\<lparr>
     clients := [1 \<mapsto> (sample_client 5)\<lparr>c_player := Some 7\<rparr>, 2 \<mapsto> sample_client 6],
     players := [7 \<mapsto> ann],
     creg := \<lparr>creg_arr = [Some 1, Some 2, None, None], creg_len = 2, creg_cap = 4, count_sem = 0\<rparr>\<rparr>"

lemma lobby_simps [simp]:
  "clients lobby_world (Suc 0) = Some ((sample_client 5)\<lparr>c_player := Some 7\<rparr>)"
  "clients lobby_world 2 = Some (sample_client 6)" "players lobby_world 7 = Some ann"
  "creg lobby_world = \<lparr>creg_arr = [Some 1, Some 2, None, None], creg_len = 2, creg_cap = 4, count_sem = 0\<rparr>"
  by (simp_all add: lobby_world_def)

lemma lobby_ok: "creg_ok (creg lobby_world)"
  by (simp add: creg_ok_def)

lemma lobby_slots: "creg_slots lobby_world = [Some 1, Some 2, None, None]"
  by (simp add: creg_slots_def)

lemma lobby_live: "registered lobby_world c \<Longrightarrow> client_live lobby_world c"
  by (auto simp: registered_def lobby_slots client_live_def sample_client_def ann_def)

subsection \<open>Properties of the client registry\<close>

text \<open>Registering and unregistering clients keep the invariant of the registry: \<open>len\<close> is the number
of registered clients, and the semaphore is free exactly while there is none.\<close>

theorem creg_invariant:
  assumes "creg_ok (creg w)"
    and "creg_register fd w = Some (r, w') \<or> creg_unregister c w = Some (st, w')"
  shows "creg_ok (creg w')"
  using assms(2)
proof
  assume reg: "creg_register fd w = Some (r, w')"
  show ?thesis
  proof (cases "find_idx (\<lambda>x. x = None) (creg_arr (creg w))")
    case None
    then show ?thesis using register_full [OF assms(1)] reg assms(1) by (simp add: find_idx_eq_None)
  next
    case (Some k)
    have "creg w' = creg w \<or> creg w' = (creg w)\<lparr>creg_arr := (creg_arr (creg w))[k := Some (next_addr w)],
        creg_len := creg_len (creg w) + 1, count_sem := 0\<rparr>"
      using register_free [OF assms(1) Some, of fd] reg by auto
    then show ?thesis using creg_ok_fill(1) [OF assms(1) Some] assms(1) by metis
  qed
next
  assume "creg_unregister c w = Some (st, w')"
  with assms(1) show ?thesis
  proof (cases rule: unregister_result)
    case 1
    with assms(1) show ?thesis by simp
  next
    case (2 k v w1)
    show ?thesis using creg_ok_clear(1) [OF assms(1) 2(2)] 2(5) by simp
  qed
qed

theorem creg_invariant_witness:
  "\<exists>w'. creg_unregister 2 lobby_world = Some (0, w') \<and> creg_ok (creg w')"
proof -
  have "client_unref (Some 2) (os_close 6 lobby_world) \<noteq> None"
    by (simp add: client_unref_def release_simps client_unref_step_def os_close_def sample_client_def
        size_dec_def destroy_inv_lst_safe_def)
  then obtain w1 where "client_unref (Some 2) (os_close 6 lobby_world) = Some w1" by auto
  then obtain w' where r: "creg_unregister 2 lobby_world = Some (0, w')"
    using unregister_found [OF lobby_ok, of 2 1 "sample_client 6" w1] by (auto simp: sample_client_def)
  then show ?thesis using creg_invariant [OF lobby_ok, of 0 None w' 2 0] by blast
qed

text \<open>\<open>creg_register\<close> always returns; it never blocks on the semaphore. A full registry refuses the
client; otherwise, unless memory runs out, a new client with this descriptor, one reference, no
player and an empty table is in the first free slot.\<close>

theorem creg_register_correct:
  assumes "creg_ok (creg w)"
  shows "if occupied (creg_arr (creg w)) = creg_cap (creg w) then creg_register fd w = Some (None, w)
    else \<exists>m k. creg_register fd w = Some (None, w\<lparr>os := (os w)\<lparr>mem := m\<rparr>\<rparr>) \<or>
      find_idx (\<lambda>x. x = None) (creg_arr (creg w)) = Some k \<and>
      creg_register fd w = Some (Some (next_addr w), w\<lparr>os := (os w)\<lparr>mem := m\<rparr>,
       clients := (clients w)(next_addr w := Some (new_client fd)), next_addr := Suc (next_addr w),
       creg := (creg w)\<lparr>creg_arr := (creg_arr (creg w))[k := Some (next_addr w)],
                         creg_len := creg_len (creg w) + 1, count_sem := 0\<rparr>\<rparr>)"
proof (cases "None \<in> set (creg_arr (creg w))")
  case True
  then obtain k where k: "find_idx (\<lambda>x. x = None) (creg_arr (creg w)) = Some k"
    by (rule find_idx_member)
  have "occupied (creg_arr (creg w)) \<noteq> creg_cap (creg w)"
    using True assms occupied_full_iff [of "creg_arr (creg w)"] by (simp add: creg_ok_def)
  with register_free [OF assms k, of fd] k show ?thesis by (simp only: if_False) blast
next
  case False
  then have "occupied (creg_arr (creg w)) = creg_cap (creg w)"
    using assms occupied_full_iff [of "creg_arr (creg w)"] by (simp add: creg_ok_def)
  then show ?thesis using register_full [OF assms False] by simp
qed

theorem creg_register_correct_witness:
  "\<exists>r w'. creg_register 9 lobby_world = Some (r, w')"
  using creg_register_correct [OF lobby_ok, of 9] by auto

text \<open>When the clients in the registry and their players are alive, \<open>creg_lookup\<close> returns a
registered client that is logged in under the name, with one more reference, and nothing else
changes; it returns \<open>NULL\<close> exactly when there is no such client.\<close>

theorem creg_lookup_correct:
  assumes "\<And>c. registered w c \<Longrightarrow> client_live w c"
  shows "(\<exists>c v. creg_lookup user w = Some (Some c,
        w\<lparr>clients := (clients w)(c := Some (v\<lparr>c_ref_count := c_ref_count v + 1\<rparr>))\<rparr>) \<and>
      clients w c = Some v \<and> registered w c \<and> logged_as w c user) \<or>
    (creg_lookup user w = Some (None, w) \<and> (\<forall>c. registered w c \<longrightarrow> \<not> logged_as w c user))"
proof -
  obtain r where r: "find_user user (creg_slots w) w = Some r"
    "case r of None \<Rightarrow> \<forall>c. Some c \<in> set (creg_slots w) \<longrightarrow> \<not> logged_as w c user
     | Some c \<Rightarrow> Some c \<in> set (creg_slots w) \<and> logged_as w c user"
    using find_user_correct [of "creg_slots w" w user] assms by (auto simp: registered_def)
  show ?thesis
  proof (cases r)
    case None
    with r show ?thesis by (simp add: creg_lookup_def client_ref_def registered_def)
  next
    case (Some c)
    with r(2) obtain v where "clients w c = Some v" by (auto simp: logged_as_def)
    with r Some show ?thesis by (auto simp: creg_lookup_def registered_def size_inc_def)
  qed
qed

theorem creg_lookup_correct_witness:
  "\<exists>c w'. creg_lookup ''ann'' lobby_world = Some (Some c, w') \<and> logged_as lobby_world c ''ann''"
proof -
  have "registered lobby_world 1" "logged_as lobby_world 1 ''ann''"
    by (simp_all add: registered_def lobby_slots logged_as_def ann_def)
  then show ?thesis using creg_lookup_correct [OF lobby_live, of "''ann''"] by blast
qed

text \<open>\<open>creg_wait_for_empty\<close> returns exactly when no client is registered, and changes nothing.\<close>

theorem creg_wait_for_empty_correct:
  assumes "creg_ok (creg w)"
  shows "creg_wait_for_empty w = (if \<exists>c. registered w c then None else Some w)"
proof -
  have "(\<exists>c. registered w c) \<longleftrightarrow> creg_len (creg w) \<noteq> 0"
    using assms occupied_zero_iff [of "creg_arr (creg w)"]
    by (auto simp: registered_def creg_slots_ok creg_ok_def)
  then show ?thesis
    using assms by (auto simp: creg_wait_for_empty_def sem_wait_def sem_post_def creg_ok_def)
qed

theorem creg_wait_for_empty_correct_witness:
  "creg_wait_for_empty lobby_world = None"
proof -
  have "registered lobby_world 1" by (simp add: registered_def lobby_slots)
  then show ?thesis using creg_wait_for_empty_correct [OF lobby_ok] by auto
qed

end
