(* ===== verification/Client_Ops.thy ===== *)
theory Client_Ops
  imports Client_Registry
begin

text \<open>
  The operations of a client (\<open>src/src/client.c\<close>): login and logout, and the protocol of invitations
  and games: make, revoke, decline, accept, resign, move. Each function returns the status of the
  code and the new state of the server, on every branch. Identifiers are cut to the eight bits of a
  packet's \<open>id\<close> field where the code passes them to \<open>pack_header\<close>.
\<close>

subsection \<open>Sending by type and identifier\<close>

text \<open>The statement sequence \<open>jph = {0}; pack_header(&jph, ...); client_send_packet(c, &jph, data)\<close>.\<close>

definition send_pkt ::
  "nat option \<Rightarrow> JEUX_PACKET_TYPE \<Rightarrow> int \<Rightarrow> GAME_ROLE \<Rightarrow> nat \<Rightarrow> byte list option \<Rightarrow> world \<Rightarrow>
   (int \<times> world) option" where
  "send_pkt p typ ident role sz datap w =
    (let (jph, w) = w_pack_header typ (word_of_int ident) (word_of_int (role_code role)) (of_nat sz) w
     in client_send_packet p (Some jph) datap w)"

subsection \<open>Login\<close>

definition client_login :: "nat option \<Rightarrow> nat option \<Rightarrow> world \<Rightarrow> (int \<times> world) option" where
  "client_login client player w =
    (case client of None \<Rightarrow> Some (-1, w)
     | Some c \<Rightarrow> do {
         cur \<leftarrow> client_get_player client w;
         if cur \<noteq> None then Some (-1, w)
         else do {
           nm \<leftarrow> w_player_get_name player w;
           (lookup_cli, w) \<leftarrow> creg_lookup nm w;
           if lookup_cli \<noteq> None then do {
             w \<leftarrow> client_unref lookup_cli w;
             Some (-1, w)
           }
           else do {
             (r, w) \<leftarrow> w_player_ref player w;
             w \<leftarrow> client_set_player_safe c r w;
             Some (0, w)
           }
         }
       })"

subsection \<open>Invitations\<close>

definition client_make_invitation ::
  "nat option \<Rightarrow> nat option \<Rightarrow> GAME_ROLE \<Rightarrow> GAME_ROLE \<Rightarrow> world \<Rightarrow> (int \<times> world) option" where
  "client_make_invitation source target srole trole w = do {
     (new_inv, w) \<leftarrow> inv_create source target srole trole w;
     if new_inv = None then Some (-1, w)
     else do {
       (src_id, w) \<leftarrow> client_add_invitation source new_inv w;
       if src_id = -1 then do {
         w \<leftarrow> inv_unref new_inv w;
         Some (src_id, w)
       }
       else do {
         (dst_id, w) \<leftarrow> client_add_invitation target new_inv w;
         if dst_id = -1 then do {
           w \<leftarrow> inv_unref new_inv w;
           client_remove_invitation source new_inv w
         }
         else do {
           w \<leftarrow> inv_unref new_inv w;
           player_src \<leftarrow> client_get_player source w;
           (_, w) \<leftarrow> w_player_ref player_src w;
           role \<leftarrow> inv_get_target_role new_inv w;
           nm \<leftarrow> w_player_get_name player_src w;
           (st, w) \<leftarrow> send_pkt target JEUX_INVITED_PKT dst_id role (length nm) (Some (bytes_of nm)) w;
           if st = -1 then do {
             w \<leftarrow> w_player_unref player_src w;
             Some (-1, w)
           }
           else do {
             w \<leftarrow> w_player_unref player_src w;
             Some (src_id, w)
           }
         }
       }
     }
   }"

definition client_revoke_invitation :: "nat option \<Rightarrow> nat \<Rightarrow> world \<Rightarrow> (int \<times> world) option" where
  "client_revoke_invitation client ident w =
    (case client of None \<Rightarrow> Some (-1, w)
     | Some c \<Rightarrow> do {
         ip \<leftarrow> read_slot c ident w;
         if ip = None then Some (-1, w)
         else do {
           (_, w) \<leftarrow> inv_ref ip w;
           source \<leftarrow> inv_get_source ip w;
           if client \<noteq> source then do { w \<leftarrow> inv_unref ip w; Some (-1, w) }
           else do {
             (st, w) \<leftarrow> inv_close ip NULL_ROLE w;
             if st = -1 then do { w \<leftarrow> inv_unref ip w; Some (-1, w) }
             else do {
               (st, w) \<leftarrow> client_remove_invitation client ip w;
               if st = -1 then do { w \<leftarrow> inv_unref ip w; Some (-1, w) }
               else do {
                 client_target \<leftarrow> inv_get_target ip w;
                 (r, w) \<leftarrow> client_ref client_target w;
                 if r = None then do { w \<leftarrow> inv_unref ip w; Some (-1, w) }
                 else do {
                   (target_id, w) \<leftarrow> client_remove_invitation client_target ip w;
                   if target_id = -1 then do {
                     w \<leftarrow> client_unref client_target w;
                     w \<leftarrow> inv_unref ip w;
                     Some (-1, w)
                   }
                   else do {
                     w \<leftarrow> inv_unref ip w;
                     (status_ret, w) \<leftarrow>
                       send_pkt client_target JEUX_REVOKED_PKT target_id NULL_ROLE 0 None w;
                     w \<leftarrow> client_unref client_target w;
                     Some (status_ret, w)
                   }
                 }
               }
             }
           }
         }
       })"

definition client_decline_invitation :: "nat option \<Rightarrow> nat \<Rightarrow> world \<Rightarrow> (int \<times> world) option" where
  "client_decline_invitation client ident w =
    (case client of None \<Rightarrow> Some (-1, w)
     | Some c \<Rightarrow> do {
         ip \<leftarrow> read_slot c ident w;
         if ip = None then Some (-1, w)
         else do {
           (_, w) \<leftarrow> inv_ref ip w;
           target \<leftarrow> inv_get_target ip w;
           if client \<noteq> target then do { w \<leftarrow> inv_unref ip w; Some (-1, w) }
           else do {
             (st, w) \<leftarrow> inv_close ip NULL_ROLE w;
             if st = -1 then do { w \<leftarrow> inv_unref ip w; Some (-1, w) }
             else do {
               (st, w) \<leftarrow> client_remove_invitation client ip w;
               if st = -1 then do { w \<leftarrow> inv_unref ip w; Some (-1, w) }
               else do {
                 client_src \<leftarrow> inv_get_source ip w;
                 (r, w) \<leftarrow> client_ref client_src w;
                 if r = None then do { w \<leftarrow> inv_unref ip w; Some (-1, w) }
                 else do {
                   (src_id, w) \<leftarrow> client_remove_invitation client_src ip w;
                   if src_id = -1 then do {
                     w \<leftarrow> client_unref client_src w;
                     w \<leftarrow> inv_unref ip w;
                     Some (-1, w)
                   }
                   else do {
                     w \<leftarrow> inv_unref ip w;
                     (status_ret, w) \<leftarrow>
                       send_pkt client_src JEUX_DECLINED_PKT src_id NULL_ROLE 0 None w;
                     w \<leftarrow> client_unref client_src w;
                     Some (status_ret, w)
                   }
                 }
               }
             }
           }
         }
       })"

text \<open>
  \<open>client_accept_invitation\<close> also returns the string that it stores through \<open>strp\<close>, which the caller
  set to \<open>NULL\<close>: the state of the game when the accepting client moves first. Otherwise the state is
  sent to the source of the invitation.
\<close>

definition client_accept_invitation ::
  "nat option \<Rightarrow> nat \<Rightarrow> world \<Rightarrow> ((int \<times> string option) \<times> world) option" where
  "client_accept_invitation client ident w =
    (case client of None \<Rightarrow> Some ((-1, None), w)
     | Some c \<Rightarrow> do {
         ip \<leftarrow> read_slot c ident w;
         if ip = None then Some ((-1, None), w)
         else do {
           (_, w) \<leftarrow> inv_ref ip w;
           target \<leftarrow> inv_get_target ip w;
           if client \<noteq> target then do { w \<leftarrow> inv_unref ip w; Some ((-1, None), w) }
           else do {
             (st, w) \<leftarrow> inv_accept ip w;
             if st = -1 then do { w \<leftarrow> inv_unref ip w; Some ((-1, None), w) }
             else do {
               client_src \<leftarrow> inv_get_source ip w;
               (r, w) \<leftarrow> client_ref client_src w;
               if r = None then do { w \<leftarrow> inv_unref ip w; Some ((-1, None), w) }
               else do {
                 srole \<leftarrow> inv_get_source_role ip w;
                 gp \<leftarrow> inv_get_game ip w;
                 (game, w) \<leftarrow> w_game_ref gp w;
                 if game = None then do {
                   w \<leftarrow> client_unref client_src w;
                   w \<leftarrow> inv_unref ip w;
                   Some ((-1, None), w)
                 }
                 else do {
                   (txt, w) \<leftarrow> w_game_unparse_state game w;
                   w \<leftarrow> w_game_unref game w;
                   if txt = None then do {
                     w \<leftarrow> client_unref client_src w;
                     w \<leftarrow> inv_unref ip w;
                     Some ((-1, None), w)
                   }
                   else do {
                     let str_to_send = (if srole = FIRST_PLAYER_ROLE then txt else None);
                     let strp = (if srole = FIRST_PLAYER_ROLE then None else txt);
                     let datalen = (case str_to_send of None \<Rightarrow> 0 | Some s \<Rightarrow> length s);
                     src_id \<leftarrow> search_inv_lst_safe client_src ip w;
                     if src_id = -1 then do {
                       w \<leftarrow> client_unref client_src w;
                       w \<leftarrow> inv_unref ip w;
                       Some ((-1, strp), w)
                     }
                     else do {
                       w \<leftarrow> inv_unref ip w;
                       (status_ret, w) \<leftarrow> send_pkt client_src JEUX_ACCEPTED_PKT src_id srole datalen
                                            (map_option bytes_of str_to_send) w;
                       w \<leftarrow> client_unref client_src w;
                       Some ((status_ret, strp), w)
                     }
                   }
                 }
               }
             }
           }
         }
       })"

subsection \<open>Games\<close>

text \<open>
  The two branches of \<open>client_resign_game\<close> are the same statements with source and target exchanged:
  \<open>resign_as role other\<close> is the branch of a client that plays \<open>role\<close> against the client \<open>other\<close>.
  \<open>game_get_winner\<close> of a \<open>NULL\<close> game is an access through \<open>NULL\<close>.
\<close>

definition resign_as :: "nat \<Rightarrow> nat \<Rightarrow> nat option \<Rightarrow> GAME_ROLE \<Rightarrow> nat option \<Rightarrow> world \<Rightarrow> (int \<times> world) option" where
  "resign_as c ident ip role other w = do {
     (st, w) \<leftarrow> inv_close ip role w;
     if st = -1 then do { w \<leftarrow> inv_unref ip w; Some (-1, w) }
     else do {
       (st, w) \<leftarrow> client_remove_invitation (Some c) ip w;
       if st = -1 then do { w \<leftarrow> inv_unref ip w; Some (-1, w) }
       else do {
         (r, w) \<leftarrow> client_ref other w;
         if r = None then do { w \<leftarrow> inv_unref ip w; Some (-1, w) }
         else do {
           (other_id, w) \<leftarrow> client_remove_invitation other ip w;
           if other_id = -1 then do {
             w \<leftarrow> client_unref other w;
             w \<leftarrow> inv_unref ip w;
             Some (-1, w)
           }
           else do {
             (_, w) \<leftarrow> send_pkt other JEUX_RESIGNED_PKT other_id NULL_ROLE 0 None w;
             gp \<leftarrow> inv_get_game ip w;
             win \<leftarrow> w_game_get_winner gp w;
             (_, w) \<leftarrow> send_pkt (Some c) JEUX_ENDED_PKT (int ident) win 0 None w;
             (status, w) \<leftarrow> send_pkt other JEUX_ENDED_PKT other_id win 0 None w;
             me_player \<leftarrow> client_get_player (Some c) w;
             other_player \<leftarrow> client_get_player other w;
             let (p1, p2) = (if role = FIRST_PLAYER_ROLE then (me_player, other_player)
                             else (other_player, me_player));
             w \<leftarrow> w_player_post_result p1 p2 (role_code win) w;
             w \<leftarrow> client_unref other w;
             w \<leftarrow> inv_unref ip w;
             Some (status, w)
           }
         }
       }
     }
   }"

definition client_resign_game :: "nat option \<Rightarrow> nat \<Rightarrow> world \<Rightarrow> (int \<times> world) option" where
  "client_resign_game client ident w =
    (case client of None \<Rightarrow> Some (-1, w)
     | Some c \<Rightarrow> do {
         ip \<leftarrow> read_slot c ident w;
         if ip = None then Some (-1, w)
         else do {
           (_, w) \<leftarrow> inv_ref ip w;
           source \<leftarrow> inv_get_source ip w;
           target \<leftarrow> inv_get_target ip w;
           if source = client then do {
             role \<leftarrow> inv_get_source_role ip w;
             resign_as c ident ip role target w
           }
           else if target = client then do {
             role \<leftarrow> inv_get_target_role ip w;
             resign_as c ident ip role source w
           }
           else do { w \<leftarrow> inv_unref ip w; Some (-1, w) }
         }
       })"

text \<open>The end of \<open>client_make_move\<close> when the move ended the game.\<close>

definition move_game_over ::
  "nat option \<Rightarrow> nat \<Rightarrow> nat option \<Rightarrow> nat option \<Rightarrow> GAME_ROLE \<Rightarrow> nat option \<Rightarrow> int \<Rightarrow> world \<Rightarrow> world option" where
  "move_game_over client ident ip game role opponent_cli inv_id w = do {
     win \<leftarrow> w_game_get_winner game w;
     (_, w) \<leftarrow> send_pkt client JEUX_ENDED_PKT (int ident) win 0 None w;
     (_, w) \<leftarrow> send_pkt opponent_cli JEUX_ENDED_PKT inv_id win 0 None w;
     (_, w) \<leftarrow> client_remove_invitation client ip w;
     (_, w) \<leftarrow> client_remove_invitation opponent_cli ip w;
     client_player \<leftarrow> client_get_player client w;
     (_, w) \<leftarrow> w_player_ref client_player w;
     opponent_player \<leftarrow> client_get_player opponent_cli w;
     (_, w) \<leftarrow> w_player_ref opponent_player w;
     w \<leftarrow> (if role = FIRST_PLAYER_ROLE then
             w_player_post_result client_player opponent_player (role_code win) w
           else if role = SECOND_PLAYER_ROLE then
             w_player_post_result opponent_player client_player (role_code win) w
           else Some w);
     w \<leftarrow> w_player_unref client_player w;
     w_player_unref opponent_player w
   }"

text \<open>The rest of \<open>client_make_move\<close> after the move was applied and the opponent was referenced.\<close>

definition move_made ::
  "nat option \<Rightarrow> nat \<Rightarrow> nat option \<Rightarrow> nat option \<Rightarrow> GAME_ROLE \<Rightarrow> nat option \<Rightarrow> world \<Rightarrow>
   (int \<times> world) option" where
  "move_made client ident ip game role opponent_cli w = do {
     inv_id \<leftarrow> search_inv_lst_safe opponent_cli ip w;
     if inv_id = -1 then do {
       w \<leftarrow> client_unref opponent_cli w;
       w \<leftarrow> inv_unref ip w;
       w \<leftarrow> w_game_unref game w;
       Some (-1, w)
     }
     else do {
       (txt, w) \<leftarrow> w_game_unparse_state game w;
       cur_game_state \<leftarrow> txt;
       (_, w) \<leftarrow> send_pkt opponent_cli JEUX_MOVED_PKT inv_id NULL_ROLE
                  (length cur_game_state) (Some (bytes_of cur_game_state)) w;
       over \<leftarrow> w_game_is_over game w;
       w \<leftarrow> (if over then move_game_over client ident ip game role opponent_cli inv_id w
             else Some w);
       w \<leftarrow> inv_unref ip w;
       w \<leftarrow> client_unref opponent_cli w;
       w \<leftarrow> w_game_unref game w;
       Some (0, w)
     }
   }"

definition client_make_move :: "nat option \<Rightarrow> nat \<Rightarrow> string \<Rightarrow> world \<Rightarrow> (int \<times> world) option" where
  "client_make_move client ident move w =
    (case client of None \<Rightarrow> Some (-1, w)
     | Some c \<Rightarrow> do {
         ip \<leftarrow> read_slot c ident w;
         if ip = None then Some (-1, w)
         else do {
           (_, w) \<leftarrow> inv_ref ip w;
           game \<leftarrow> inv_get_game ip w;
           if game = None then do { w \<leftarrow> inv_unref ip w; Some (-1, w) }
           else do {
             (gref, w) \<leftarrow> w_game_ref game w;
             if gref = None then do { w \<leftarrow> inv_unref ip w; Some (-1, w) }
             else do {
               source \<leftarrow> inv_get_source ip w;
               target \<leftarrow> inv_get_target ip w;
               srole \<leftarrow> inv_get_source_role ip w;
               trole \<leftarrow> inv_get_target_role ip w;
               let role = (if target = client then trole else if source = client then srole else NULL_ROLE);
               (gm, w) \<leftarrow> w_game_parse_move game role (Some move) w;
               if gm = None then do {
                 w \<leftarrow> inv_unref ip w;
                 w \<leftarrow> w_game_unref game w;
                 Some (-1, w)
               }
               else do {
                 (st, w) \<leftarrow> w_game_apply_move game gm w;
                 if st = -1 then do {
                   w \<leftarrow> inv_unref ip w;
                   w \<leftarrow> w_game_unref game w;
                   Some (-1, w)
                 }
                 else do {
                   let opponent_cli = (if source = client then target else source);
                   if opponent_cli = None then do {
                     w \<leftarrow> inv_unref ip w;
                     w \<leftarrow> w_game_unref game w;
                     Some (-1, w)
                   }
                   else do {
                     (r, w) \<leftarrow> client_ref opponent_cli w;
                     if r = None then do {
                       w \<leftarrow> inv_unref ip w;
                       w \<leftarrow> w_game_unref game w;
                       Some (-1, w)
                     }
                     else move_made client ident ip game role opponent_cli w
                   }
                 }
               }
             }
           }
         }
       })"

subsection \<open>Logout\<close>

text \<open>The body of the loop of \<open>client_logout\<close> for one slot, and the loop over the slots \<open>i, i + 1, ...\<close>.\<close>

definition logout_slot :: "nat \<Rightarrow> nat \<Rightarrow> world \<Rightarrow> world option" where
  "logout_slot c i w = do {
     (st, w) \<leftarrow> client_resign_game (Some c) i w;
     if st = -1 then do {
       (st, w) \<leftarrow> client_revoke_invitation (Some c) i w;
       if st = -1 then do {
         (_, w) \<leftarrow> client_decline_invitation (Some c) i w;
         Some w
       }
       else Some w
     }
     else Some w
   }"

fun logout_slots :: "nat \<Rightarrow> nat list \<Rightarrow> world \<Rightarrow> world option" where
  "logout_slots c [] w = Some w"
| "logout_slots c (i # is) w = do { w \<leftarrow> logout_slot c i w; logout_slots c is w }"

definition client_logout :: "nat option \<Rightarrow> world \<Rightarrow> (int \<times> world) option" where
  "client_logout client w =
    (case client of None \<Rightarrow> Some (-1, w)
     | Some c \<Rightarrow> do {
         cur \<leftarrow> client_get_player client w;
         if cur = None then Some (-1, w)
         else do {
           v \<leftarrow> clients w c;
           w \<leftarrow> logout_slots c [0..<invs_cap v] w;
           player \<leftarrow> client_get_player client w;
           w \<leftarrow> w_player_unref player w;
           w \<leftarrow> client_set_player_safe c None w;
           Some (0, w)
         }
       })"

subsection \<open>Login\<close>

text \<open>No two registered clients are logged in under the same name.\<close>

definition names_unique :: "world \<Rightarrow> bool" where
  "names_unique w \<longleftrightarrow> (\<forall>c d nm. registered w c \<longrightarrow> registered w d \<longrightarrow>
     logged_as w c nm \<longrightarrow> logged_as w d nm \<longrightarrow> c = d)"

text \<open>The state after a successful login.\<close>

definition login_state :: "nat \<Rightarrow> nat \<Rightarrow> world \<Rightarrow> world" where
  "login_state c a w = w\<lparr>
     players := (players w)(a := map_option (\<lambda>p. p\<lparr>p_ref_count := p_ref_count p + 1\<rparr>) (players w a)),
     clients := (clients w)(c := map_option (\<lambda>v. v\<lparr>c_player := Some a\<rparr>) (clients w c))\<rparr>"

lemma login_state_logged_as:
  assumes "clients w c = Some v" and "players w a = Some p" and "p_name p = Some nm"
  shows "logged_as (login_state c a w) d n \<longleftrightarrow> (if d = c then n = nm else logged_as w d n)"
  using assms by (auto simp: logged_as_def login_state_def) (metis option.inject)+

lemma login_state_registered [simp]: "registered (login_state c a w) d = registered w d"
  by (simp add: registered_def creg_slots_def login_state_def)

lemma login_keeps_unique:
  assumes "names_unique w" and "clients w c = Some v" and "players w a = Some p" and "p_name p = Some nm"
    and "\<forall>d. registered w d \<longrightarrow> \<not> logged_as w d nm"
  shows "names_unique (login_state c a w)"
  using assms(1,5) unfolding names_unique_def login_state_registered
    login_state_logged_as [OF assms(2-4)]
  by (simp split: if_splits) metis

lemma client_login_found:
  assumes "clients w c = Some v" and "c_player v = None" and "players w a = Some p" and "p_name p = Some nm"
    and "creg_lookup nm w = Some (Some d, w\<lparr>clients := (clients w)(d := Some (u\<lparr>c_ref_count := c_ref_count u + 1\<rparr>))\<rparr>)"
    and "clients w d = Some u" and "c_ref_count u \<noteq> 0"
  shows "client_login (Some c) (Some a) w = Some (-1, w)"
proof -
  let ?w = "w\<lparr>clients := (clients w)(d := Some (u\<lparr>c_ref_count := c_ref_count u + 1\<rparr>))\<rparr>"
  have "client_unref (Some d) ?w = Some w"
    using assms(6,7) client_unref_count [of ?w d "u\<lparr>c_ref_count := c_ref_count u + 1\<rparr>"]
    by (simp add: size_dec_def fun_upd_idem)
  with assms(1-5) show ?thesis by (simp add: client_login_def)
qed

lemma client_login_free:
  assumes "clients w c = Some v" and "c_player v = None" and "players w a = Some p" and "p_name p = Some nm"
    and "creg_lookup nm w = Some (None, w)"
  shows "client_login (Some c) (Some a) w = Some (0, login_state c a w)"
  using assms
  by (simp add: client_login_def w_player_ref_def client_set_player_safe_def player_ref_def
      login_state_def size_inc_def)

text \<open>The lookup that \<open>client_login\<close> makes, without mentioning the registry's property.\<close>

lemma lookup_cases:
  assumes "\<And>c. registered w c \<Longrightarrow> client_live w c"
  obtains d u where "creg_lookup nm w =
      Some (Some d, w\<lparr>clients := (clients w)(d := Some (u\<lparr>c_ref_count := c_ref_count u + 1\<rparr>))\<rparr>)"
      "clients w d = Some u" "registered w d" "logged_as w d nm" "c_ref_count u \<noteq> 0"
  | "creg_lookup nm w = Some (None, w)" "\<forall>d. registered w d \<longrightarrow> \<not> logged_as w d nm"
proof -
  obtain r where r: "find_user nm (creg_slots w) w = Some r"
    "case r of None \<Rightarrow> \<forall>c. Some c \<in> set (creg_slots w) \<longrightarrow> \<not> logged_as w c nm
     | Some c \<Rightarrow> Some c \<in> set (creg_slots w) \<and> logged_as w c nm"
    using find_user_correct [of "creg_slots w" w nm] assms by (auto simp: registered_def)
  show thesis
  proof (cases r)
    case None
    with r show thesis by (intro that(2)) (simp_all add: creg_lookup_def client_ref_def registered_def)
  next
    case (Some d)
    with r(2) have d: "registered w d" "logged_as w d nm" by (simp_all add: registered_def)
    then obtain u where u: "clients w d = Some u" "c_ref_count u \<noteq> 0"
      using assms [OF d(1)] by (auto simp: client_live_def)
    with r Some d show thesis by (intro that(1)) (simp_all add: creg_lookup_def size_inc_def)
  qed
qed

subsection \<open>Properties of login\<close>

text \<open>C21: \<open>client_login\<close> succeeds exactly when the client is not logged in and no registered client is
logged in under the player's name; it then gives the client the player and a reference to it. When
it fails the state is unchanged. It keeps the names of logged in clients unique.\<close>

theorem client_login_correct:
  assumes "\<And>c. registered w c \<Longrightarrow> client_live w c" and "clients w c = Some v"
    and "players w a = Some p" and "p_name p = Some nm"
  shows "client_login (Some c) (Some a) w =
      (if c_player v \<noteq> None \<or> (\<exists>d. registered w d \<and> logged_as w d nm) then Some (-1, w)
       else Some (0, login_state c a w)) \<and>
    (names_unique w \<longrightarrow> names_unique (snd (the (client_login (Some c) (Some a) w))))"
proof (cases "c_player v")
  case (Some b)
  then have "client_login (Some c) (Some a) w = Some (-1, w)"
    using assms(2) by (simp add: client_login_def)
  with Some show ?thesis by simp
next
  case None
  show ?thesis
  proof (rule lookup_cases [of w nm])
    show "client_live w d" if "registered w d" for d using assms(1) that .
  next
    fix d u
    assume lk: "creg_lookup nm w =
        Some (Some d, w\<lparr>clients := (clients w)(d := Some (u\<lparr>c_ref_count := c_ref_count u + 1\<rparr>))\<rparr>)"
      "clients w d = Some u" "registered w d" "logged_as w d nm" "c_ref_count u \<noteq> 0"
    have "client_login (Some c) (Some a) w = Some (-1, w)"
      by (rule client_login_found [OF assms(2) None assms(3,4) lk(1,2,5)])
    with lk(3,4) show ?thesis by auto
  next
    assume lk: "creg_lookup nm w = Some (None, w)" "\<forall>d. registered w d \<longrightarrow> \<not> logged_as w d nm"
    have "client_login (Some c) (Some a) w = Some (0, login_state c a w)"
      by (rule client_login_free [OF assms(2) None assms(3,4) lk(1)])
    moreover have "names_unique w \<longrightarrow> names_unique (login_state c a w)"
      using login_keeps_unique [OF _ assms(2-4) lk(2)] by blast
    ultimately show ?thesis using None lk(2) by auto
  qed
qed

theorem client_login_correct_witness:
  "client_login (Some 2) (Some 7) lobby_world = Some (-1, lobby_world)"
proof -
  have "registered lobby_world 1" "logged_as lobby_world 1 ''ann''" "p_name ann = Some ''ann''"
    by (simp_all add: registered_def lobby_slots logged_as_def ann_def)
  then show ?thesis
    using client_login_correct [of lobby_world 2 "sample_client 6" 7 ann "''ann''"] lobby_live by auto
qed

end
