(* ===== verification/Ownership.thy ===== *)
theory Ownership
  imports Client_Registry "HOL-Library.Multiset"
begin

text \<open>
  The ownership discipline behind the reference counts. A reference is written as the call that drops
  it (\<open>Unref_Client c\<close> and so on). \<open>held w\<close> is the multiset of references that the structures of the
  state hold; a running operation holds further ones in its local variables. The invariant
  \<open>counts_ok L w\<close> says that every count is the number of references in \<open>held w\<close> and the local
  references \<open>L\<close>, and that nothing is referenced that was freed. Under it, dropping references always
  terminates and never touches freed memory, however the structures free one another.
\<close>

subsection \<open>References\<close>

definition inv_holds :: "invitation \<Rightarrow> pending multiset" where
  "inv_holds v = {#Unref_Client (inv_src v), Unref_Client (inv_target v)#} +
     (case inv_game v of None \<Rightarrow> {#} | Some g \<Rightarrow> {#Unref_Game g#})"

definition client_holds :: "client \<Rightarrow> pending multiset" where
  "client_holds v = mset (destroy_inv_lst_safe v)"

definition creg_holds :: "world \<Rightarrow> pending multiset" where
  "creg_holds w = mset (map (\<lambda>x. Unref_Client (the x)) (filter (\<lambda>x. x \<noteq> None) (creg_slots w)))"

definition held :: "world \<Rightarrow> pending multiset" where
  "held w = (\<Sum>i \<in> dom (invs w). inv_holds (the (invs w i))) +
            (\<Sum>c \<in> dom (clients w). client_holds (the (clients w c))) + creg_holds w"

fun stored :: "world \<Rightarrow> pending \<Rightarrow> size_t option" where
  "stored w (Unref_Client c) = map_option c_ref_count (clients w c)"
| "stored w (Unref_Inv i) = map_option i_ref_count (invs w i)"
| "stored w (Unref_Game g) = map_option g_ref_count (games w g)"

definition ref_ok :: "nat \<Rightarrow> size_t option \<Rightarrow> bool" where
  "ref_ok n r = (case r of None \<Rightarrow> n = 0 | Some k \<Rightarrow> 0 < n \<and> n < 2 ^ 64 \<and> k = of_nat n)"

definition counts_ok :: "pending multiset \<Rightarrow> world \<Rightarrow> bool" where
  "counts_ok L w \<longleftrightarrow> finite (dom (invs w)) \<and> finite (dom (clients w)) \<and>
     (\<forall>x. ref_ok (count (held w + L) x) (stored w x))"

lemma ref_ok_None [simp]: "ref_ok n None \<longleftrightarrow> n = 0"
  by (simp add: ref_ok_def)

lemma ref_ok_Some [simp]: "ref_ok n (Some k) \<longleftrightarrow> 0 < n \<and> n < 2 ^ 64 \<and> k = of_nat n"
  by (simp add: ref_ok_def)

lemma counts_okD: "counts_ok L w \<Longrightarrow> ref_ok (count (held w + L) x) (stored w x)"
  by (simp add: counts_ok_def)

lemma ref_ok_drop:
  assumes "ref_ok (Suc n) r"
  obtains k where "r = Some k" and "size_dec k = 0" and "n = 0"
    | k where "r = Some k" and "size_dec k \<noteq> 0" and "ref_ok n (Some (size_dec k))"
proof (cases r)
  case None
  with assms show thesis by simp
next
  case (Some k)
  with assms have k: "Suc n < 2 ^ 64" "k = of_nat (Suc n)" by (simp_all del: of_nat_Suc)
  then have d: "size_dec k = of_nat n" using size_dec_of_nat [of "Suc n"] by simp
  have "(of_nat n :: size_t) = 0 \<longleftrightarrow> n = 0" using k by (intro of_nat_size_zero_iff) simp
  with Some k d that show thesis by (cases "n = 0") auto
qed

lemma client_holds_count [simp]: "client_holds (v\<lparr>c_ref_count := n\<rparr>) = client_holds v"
  by (simp add: client_holds_def destroy_inv_lst_safe_def)

lemma inv_holds_count [simp]: "inv_holds (v\<lparr>i_ref_count := n\<rparr>) = inv_holds v"
  by (simp add: inv_holds_def)

subsection \<open>Updates of the heaps\<close>

text \<open>The sum over a finite map when one entry is replaced, added or removed.\<close>

definition map_sum :: "('a \<Rightarrow> 'b multiset) \<Rightarrow> (nat \<Rightarrow> 'a option) \<Rightarrow> 'b multiset" where
  "map_sum f h = (\<Sum>i \<in> dom h. f (the (h i)))"

lemma map_sum_insert:
  assumes "finite (dom h)" and "h a = None"
  shows "map_sum f (h(a := Some v)) = f v + map_sum f h"
proof -
  have "(\<Sum>i \<in> dom h. f (the ((h(a := Some v)) i))) = (\<Sum>i \<in> dom h. f (the (h i)))"
    using assms(2) by (intro sum.cong) auto
  with assms show ?thesis by (simp add: map_sum_def domIff)
qed

lemma map_sum_remove:
  assumes "finite (dom h)" and "h a = Some v"
  shows "map_sum f h = f v + map_sum f (h(a := None))"
proof -
  have "map_sum f ((h(a := None))(a := Some v)) = f v + map_sum f (h(a := None))"
    using assms by (intro map_sum_insert) simp_all
  with assms(2) show ?thesis by (simp add: fun_upd_idem)
qed

lemma map_sum_update:
  assumes "finite (dom h)" and "h a = Some v"
  shows "map_sum f (h(a := Some v')) + f v = map_sum f h + f v'"
proof -
  have "map_sum f ((h(a := None))(a := Some v')) = f v' + map_sum f (h(a := None))"
    using assms by (intro map_sum_insert) simp_all
  with map_sum_remove [OF assms, of f] show ?thesis by simp
qed

lemma map_sum_same:
  assumes "finite (dom h)" and "h a = Some v" and "f v' = f v"
  shows "map_sum f (h(a := Some v')) = map_sum f h"
  using map_sum_update [OF assms(1,2), of f v'] assms(3) by simp

lemma held_map_sum: "held w = map_sum inv_holds (invs w) + map_sum client_holds (clients w) + creg_holds w"
  by (simp add: held_def map_sum_def)

subsection \<open>One step of a release keeps the counts\<close>

lemma counts_ok_step:
  assumes "counts_ok (add_mset x L) w" and "held w' + mset calls = held w"
    and "finite (dom (invs w'))" and "finite (dom (clients w'))"
    and "\<And>y. y \<noteq> x \<Longrightarrow> stored w' y = stored w y"
    and "ref_ok (count (held w + L) x) (stored w' x)"
  shows "counts_ok (mset calls + L) w'"
proof -
  have "held w' + (mset calls + L) = held w + L" using assms(2) by (simp add: add.assoc [symmetric])
  moreover have "ref_ok (count (held w + L) y) (stored w' y)" for y
    using counts_okD [OF assms(1), of y] assms(5) [of y] assms(6) by (cases "y = x") auto
  ultimately show ?thesis using assms(3,4) unfolding counts_ok_def by metis
qed

lemma local_count:
  assumes "counts_ok (add_mset x L) w"
  shows "ref_ok (Suc (count (held w + L) x)) (stored w x)"
  using counts_okD [OF assms, of x] by simp

lemma creg_holds_cong: "creg w' = creg w \<Longrightarrow> creg_holds w' = creg_holds w"
  by (simp add: creg_holds_def creg_slots_def)

lemma client_step:
  assumes "counts_ok (add_mset (Unref_Client c) L) w"
  shows "\<exists>calls w'. unref_step (Unref_Client c) w = Some (calls, w') \<and>
    counts_ok (mset calls + L) w' \<and> held w' + mset calls = held w \<and> released w w'"
proof -
  let ?x = "Unref_Client c"
  have fin: "finite (dom (clients w))" "finite (dom (invs w))" using assms by (simp_all add: counts_ok_def)
  from local_count [OF assms] show ?thesis
  proof (cases rule: ref_ok_drop)
    case (1 k)
    then obtain v where v: "clients w c = Some v" "c_ref_count v = k" by auto
    let ?w = "w\<lparr>clients := (clients w)(c := None)\<rparr>" and ?calls = "destroy_inv_lst_safe v"
    have step: "unref_step ?x w = Some (?calls, ?w)"
      using v 1 by (simp add: unref_step_def client_unref_step_def Let_def destroy_inv_lst_safe_def)
    have h: "held ?w + mset ?calls = held w"
      using map_sum_remove [OF fin(1) v(1), of client_holds]
      by (simp add: held_map_sum creg_holds_cong [of ?w w] client_holds_def)
    have "counts_ok (mset ?calls + L) ?w"
    proof (rule counts_ok_step [OF assms h])
      show "stored ?w y = stored w y" if "y \<noteq> ?x" for y using that by (cases y) auto
    qed (use fin 1 in simp_all)
    moreover have "released w ?w" by (simp add: released_def shrunk_remove)
    ultimately show ?thesis using step h by blast
  next
    case (2 k)
    then obtain v where v: "clients w c = Some v" "c_ref_count v = k" by auto
    let ?v = "v\<lparr>c_ref_count := size_dec k\<rparr>"
    let ?w = "w\<lparr>clients := (clients w)(c := Some ?v)\<rparr>"
    have step: "unref_step ?x w = Some ([], ?w)"
      using v 2 by (simp add: unref_step_def client_unref_step_def Let_def)
    have h: "held ?w + mset [] = held w"
      using map_sum_same [OF fin(1) v(1), of client_holds ?v]
      by (simp add: held_map_sum creg_holds_cong [of ?w w])
    have "counts_ok (mset [] + L) ?w"
    proof (rule counts_ok_step [OF assms h])
      show "stored ?w y = stored w y" if "y \<noteq> ?x" for y using that by (cases y) auto
    qed (use fin 2 in simp_all)
    moreover have "released w ?w" using v(1) by (simp add: released_def)
    ultimately show ?thesis using step h by (metis append_Nil)
  qed
qed

lemma inv_step:
  assumes "counts_ok (add_mset (Unref_Inv i) L) w"
  shows "\<exists>calls w'. unref_step (Unref_Inv i) w = Some (calls, w') \<and>
    counts_ok (mset calls + L) w' \<and> held w' + mset calls = held w \<and> released w w'"
proof -
  let ?x = "Unref_Inv i"
  have fin: "finite (dom (invs w))" "finite (dom (clients w))" using assms by (simp_all add: counts_ok_def)
  from local_count [OF assms] show ?thesis
  proof (cases rule: ref_ok_drop)
    case (1 k)
    then obtain v where v: "invs w i = Some v" "i_ref_count v = k" by auto
    let ?w = "w\<lparr>invs := (invs w)(i := None)\<rparr>"
    let ?calls = "[Unref_Client (inv_src v), Unref_Client (inv_target v)] @
      (case inv_game v of None \<Rightarrow> [] | Some g \<Rightarrow> [Unref_Game g])"
    have step: "unref_step ?x w = Some (?calls, ?w)"
      using v 1 by (simp add: unref_step_def inv_unref_step_def Let_def)
    have c: "mset ?calls = inv_holds v" by (simp add: inv_holds_def split: option.split)
    have h: "held ?w + mset ?calls = held w"
      unfolding c using map_sum_remove [OF fin(1) v(1), of inv_holds]
      by (simp add: held_map_sum creg_holds_cong [of ?w w])
    have "counts_ok (mset ?calls + L) ?w"
    proof (rule counts_ok_step [OF assms h])
      show "stored ?w y = stored w y" if "y \<noteq> ?x" for y using that by (cases y) auto
    qed (use fin 1 in simp_all)
    moreover have "released w ?w" by (simp add: released_def shrunk_remove)
    ultimately show ?thesis using step h by blast
  next
    case (2 k)
    then obtain v where v: "invs w i = Some v" "i_ref_count v = k" by auto
    let ?v = "v\<lparr>i_ref_count := size_dec k\<rparr>"
    let ?w = "w\<lparr>invs := (invs w)(i := Some ?v)\<rparr>"
    have step: "unref_step ?x w = Some ([], ?w)"
      using v 2 by (simp add: unref_step_def inv_unref_step_def Let_def)
    have h: "held ?w + mset [] = held w"
      using map_sum_same [OF fin(1) v(1), of inv_holds ?v]
      by (simp add: held_map_sum creg_holds_cong [of ?w w])
    have "counts_ok (mset [] + L) ?w"
    proof (rule counts_ok_step [OF assms h])
      show "stored ?w y = stored w y" if "y \<noteq> ?x" for y using that by (cases y) auto
    qed (use fin 2 in simp_all)
    moreover have "released w ?w" using v(1) by (simp add: released_def)
    ultimately show ?thesis using step h by (metis append_Nil)
  qed
qed

lemma game_step:
  assumes "counts_ok (add_mset (Unref_Game g) L) w"
  shows "\<exists>calls w'. unref_step (Unref_Game g) w = Some (calls, w') \<and>
    counts_ok (mset calls + L) w' \<and> held w' + mset calls = held w \<and> released w w'"
proof -
  let ?x = "Unref_Game g"
  have fin: "finite (dom (invs w))" "finite (dom (clients w))" using assms by (simp_all add: counts_ok_def)
  obtain v where v: "games w g = Some v" using local_count [OF assms] by (cases "games w g") auto
  let ?w = "w\<lparr>games := (games w)(g := game_unref (Some v))\<rparr>"
  have step: "unref_step ?x w = Some ([], ?w)"
    using v by (simp add: unref_step_def w_game_unref_def)
  have h: "held ?w + mset [] = held w"
    by (simp add: held_map_sum creg_holds_cong [of ?w w])
  have "counts_ok (mset [] + L) ?w"
  proof (rule counts_ok_step [OF assms h])
    show "stored ?w y = stored w y" if "y \<noteq> ?x" for y using that by (cases y) auto
    show "ref_ok (count (held w + L) ?x) (stored ?w ?x)"
      using local_count [OF assms]
      by (cases rule: ref_ok_drop) (use v in \<open>auto simp: game_rc.unref_live\<close>)
  qed (use fin in simp_all)
  moreover have "released w ?w" using v
    by (simp add: released_def game_rc.unref_live shrunk_remove)
  ultimately show ?thesis using step h by (metis append_Nil)
qed

lemma unref_step_safe:
  assumes "counts_ok (add_mset x L) w"
  shows "\<exists>calls w'. unref_step x w = Some (calls, w') \<and>
    counts_ok (mset calls + L) w' \<and> held w' + mset calls = held w \<and> released w w'"
  using assms client_step inv_step game_step by (cases x) blast+

subsection \<open>Releases are safe\<close>

lemma release_safe:
  "counts_ok (mset xs + L) w \<Longrightarrow>
   \<exists>w'. release xs w = Some w' \<and> counts_ok L w' \<and> released w w' \<and> size (held w') \<le> size (held w)"
proof (induction "size (held w) + length xs" arbitrary: xs w rule: less_induct)
  case less
  show ?case
  proof (cases xs)
    case Nil
    with less.prems show ?thesis by simp
  next
    case (Cons x rest)
    then have "counts_ok (add_mset x (mset rest + L)) w" using less.prems by simp
    from unref_step_safe [OF this] obtain calls w1 where
      s: "unref_step x w = Some (calls, w1)" "counts_ok (mset calls + (mset rest + L)) w1"
        "held w1 + mset calls = held w" "released w w1" by blast
    have "size (held w1) + length calls = size (held w)"
      using s(3) by (metis size_mset size_union)
    then have "size (held w1) + length (calls @ rest) < size (held w) + length xs"
      using Cons by simp
    moreover have "counts_ok (mset (calls @ rest) + L) w1" using s(2) by (simp add: add.assoc)
    ultimately obtain w' where w': "release (calls @ rest) w1 = Some w'" "counts_ok L w'"
        "released w1 w'" "size (held w') \<le> size (held w1)"
      using less.hyps by blast
    have "release xs w = Some w'" using s(1) w'(1) Cons by (simp add: release_Cons)
    moreover have "released w w'" using s(4) w'(3) by (rule released_trans)
    moreover have "size (held w') \<le> size (held w)"
      using w'(4) \<open>size (held w1) + length calls = size (held w)\<close> by simp
    ultimately show ?thesis using w'(2) by blast
  qed
qed

lemma client_unref_safe:
  "counts_ok (add_mset (Unref_Client c) L) w \<Longrightarrow>
   \<exists>w'. client_unref (Some c) w = Some w' \<and> counts_ok L w' \<and> released w w' \<and> size (held w') \<le> size (held w)"
  using release_safe [of "[Unref_Client c]" L w] by (simp add: client_unref_def)

lemma inv_unref_safe:
  "counts_ok (add_mset (Unref_Inv i) L) w \<Longrightarrow>
   \<exists>w'. inv_unref (Some i) w = Some w' \<and> counts_ok L w' \<and> released w w' \<and> size (held w') \<le> size (held w)"
  using release_safe [of "[Unref_Inv i]" L w] by (simp add: inv_unref_def)

lemma duo_counts: "counts_ok {#Unref_Inv 3, Unref_Inv 3#} (duo_world INV_ACCEPTED_STATE (Some 4))"
proof -
  let ?w = "duo_world INV_ACCEPTED_STATE (Some 4)"
  have d: "dom (invs ?w) = {3}" "dom (clients ?w) = {1, 2}" by (auto simp: duo_world_def split: if_splits)
  have h: "held ?w = {#Unref_Client 1, Unref_Client 2, Unref_Game 4#}"
    unfolding held_def d
    by (simp add: duo_world_def sample_inv_def sample_client_def inv_holds_def client_holds_def
        destroy_inv_lst_safe_def creg_holds_def creg_slots_def blank_world_def numeral_eq_Suc)
  have "ref_ok (count (held ?w + {#Unref_Inv 3, Unref_Inv 3#}) x) (stored ?w x)" for x
    unfolding h
    by (cases x) (auto simp: duo_world_def sample_inv_def sample_client_def sample_game_def blank_world_def)
  then show ?thesis unfolding counts_ok_def d by blast
qed

subsection \<open>Property of the reference counts\<close>

text \<open>C12: when every reference count is the number of references, dropping a reference to a client or
to an invitation always returns and never reaches freed memory, although freeing a client drops
references to invitations and freeing an invitation drops references to clients and its game.
Afterwards the counts are right again without the dropped reference, every structure that is left
is referenced, and nothing but reference counts has changed in it.\<close>

theorem unref_memory_safe:
  shows "(counts_ok (add_mset (Unref_Client a) L) w \<longrightarrow>
       (\<exists>w'. client_unref (Some a) w = Some w' \<and> counts_ok L w' \<and> released w w')) \<and>
     (counts_ok (add_mset (Unref_Inv a) L) w \<longrightarrow>
       (\<exists>w'. inv_unref (Some a) w = Some w' \<and> counts_ok L w' \<and> released w w'))"
  using client_unref_safe inv_unref_safe by blast

theorem unref_memory_safe_witness:
  "\<exists>w'. inv_unref (Some 3) (duo_world INV_ACCEPTED_STATE (Some 4)) = Some w' \<and>
     counts_ok {#Unref_Inv 3#} w'"
  using unref_memory_safe [of 3 "{#Unref_Inv 3#}" "duo_world INV_ACCEPTED_STATE (Some 4)"] duo_counts
  by auto

end
