(* ===== verification/Safety.thy ===== *)
theory Safety
  imports Client_Ops Ownership
begin

text \<open>
  The invariant of the whole state between the steps of an operation, and the effect of the basic
  operations on it. \<open>world_ok k L w\<close> says that the reference counts are right when a running operation
  holds the references \<open>L\<close>, that \<open>k\<close> more references can be taken before a count could overflow, that
  the tables, invitations, games and players are well formed, that memory is available, and that no
  structure lives at an address that was not given out yet.
\<close>

subsection \<open>The invariant\<close>

definition inv_wf :: "invitation \<Rightarrow> bool" where
  "inv_wf v \<longleftrightarrow> \<not> state_locked v \<and> inv_ok v \<and> inv_src v \<noteq> inv_target v \<and>
     src_role v \<noteq> NULL_ROLE \<and> target_role v \<noteq> NULL_ROLE"

definition player_of :: "world \<Rightarrow> nat \<Rightarrow> nat option" where
  "player_of w c = Option.bind (clients w c) c_player"

definition players_ok :: "world \<Rightarrow> bool" where
  "players_ok w \<longleftrightarrow>
     (\<forall>a p. players w a = Some p \<longrightarrow> p_ref_count p \<noteq> 0 \<and> p_name p \<noteq> None) \<and>
     (\<forall>c a. player_of w c = Some a \<longrightarrow> players w a \<noteq> None) \<and>
     (\<forall>i v. invs w i = Some v \<longrightarrow> player_of w (inv_src v) = None \<or>
        player_of w (inv_src v) \<noteq> player_of w (inv_target v))"

definition fresh_from :: "world \<Rightarrow> bool" where
  "fresh_from w \<longleftrightarrow> (\<forall>a \<ge> next_addr w. invs w a = None \<and> clients w a = None \<and> games w a = None)"

definition shape_ok :: "world \<Rightarrow> bool" where
  "shape_ok w \<longleftrightarrow> (\<forall>c v. clients w c = Some v \<longrightarrow> table_ok v) \<and>
     (\<forall>i v. invs w i = Some v \<longrightarrow> inv_wf v) \<and> (\<forall>g x. games w g = Some x \<longrightarrow> game_inv x) \<and>
     mem (os w) = [] \<and> fresh_from w \<and> players_ok w"

definition world_ok :: "nat \<Rightarrow> pending multiset \<Rightarrow> world \<Rightarrow> bool" where
  "world_ok k L w \<longleftrightarrow> counts_ok L w \<and> size (held w) + size L + k < 2 ^ 64 \<and> shape_ok w"

text \<open>What no operation of a client changes in the structures that live on: the descriptor, the player
and the capacity of a client, the parties and roles of an invitation, and its game once it has one.\<close>

definition client_keeps :: "client \<Rightarrow> client \<Rightarrow> bool" where
  "client_keeps v v' \<longleftrightarrow> c_fd v' = c_fd v \<and> c_player v' = c_player v \<and> invs_cap v' = invs_cap v"

definition inv_keeps :: "invitation \<Rightarrow> invitation \<Rightarrow> bool" where
  "inv_keeps v v' \<longleftrightarrow> inv_src v' = inv_src v \<and> inv_target v' = inv_target v \<and>
     src_role v' = src_role v \<and> target_role v' = target_role v \<and>
     (inv_game v \<noteq> None \<longrightarrow> inv_game v' = inv_game v)"

definition kept :: "('a \<Rightarrow> 'a \<Rightarrow> bool) \<Rightarrow> (nat \<Rightarrow> 'a option) \<Rightarrow> (nat \<Rightarrow> 'a option) \<Rightarrow> bool" where
  "kept R h h' \<longleftrightarrow> (\<forall>a v'. h' a = Some v' \<longrightarrow> (\<exists>v. h a = Some v \<and> R v v'))"

text \<open>An invitation after the operation was there before, or the operation created it between two
clients that are logged in.\<close>

definition heirs :: "world \<Rightarrow> world \<Rightarrow> bool" where
  "heirs w w' \<longleftrightarrow> (\<forall>i u'. invs w' i = Some u' \<longrightarrow> (\<exists>u. invs w i = Some u \<and> inv_keeps u u') \<or>
     next_addr w \<le> i \<and> player_of w (inv_src u') \<noteq> None \<and> player_of w (inv_target u') \<noteq> None)"

text \<open>The names and reference counts of the players.\<close>

definition tags :: "world \<Rightarrow> nat \<Rightarrow> (string option \<times> size_t) option" where
  "tags w a = map_option (\<lambda>p. (p_name p, p_ref_count p)) (players w a)"

text \<open>What the connections still deliver does not depend on anything but the reads.\<close>

abbreviation same_input :: "os_state \<Rightarrow> os_state \<Rightarrow> bool" where
  "same_input o1 o2 \<equiv> inbox o2 = inbox o1 \<and> peer_closed o2 = peer_closed o1 \<and> shut_fds o2 = shut_fds o1"

definition evo :: "world \<Rightarrow> world \<Rightarrow> bool" where
  "evo w w' \<longleftrightarrow> next_addr w \<le> next_addr w' \<and> creg w' = creg w \<and> preg w' = preg w \<and>
     tags w' = tags w \<and> same_input (os w) (os w') \<and>
     kept client_keeps (clients w) (clients w') \<and> heirs w w'"

lemma client_keeps_refl [simp]: "client_keeps v v"
  by (simp add: client_keeps_def)

lemma inv_keeps_refl [simp]: "inv_keeps v v"
  by (simp add: inv_keeps_def)

lemma client_keeps_trans: "client_keeps x y \<Longrightarrow> client_keeps y z \<Longrightarrow> client_keeps x z"
  by (simp add: client_keeps_def)

lemma inv_keeps_trans: "inv_keeps x y \<Longrightarrow> inv_keeps y z \<Longrightarrow> inv_keeps x z"
  by (auto simp: inv_keeps_def)

lemma kept_refl [simp]: "(\<And>v. R v v) \<Longrightarrow> kept R h h"
  by (simp add: kept_def)

lemma kept_upd: "(\<And>v. R v v) \<Longrightarrow> h a = Some v \<Longrightarrow> R v v' \<Longrightarrow> kept R h (h(a := Some v'))"
  by (simp add: kept_def)

lemma kept_shrunk: "shrunk set_count h h' \<Longrightarrow> (\<And>v k. R v (set_count k v)) \<Longrightarrow> kept R h h'"
  unfolding kept_def shrunk_def by metis

lemma kept_trans:
  assumes "\<And>x y z. R x y \<Longrightarrow> R y z \<Longrightarrow> R x z" and "kept R ha hb" and "kept R hb hc"
  shows "kept R ha hc"
  using assms unfolding kept_def by meson

lemma kept_player:
  assumes "kept client_keeps (clients w) (clients w')" and "player_of w' c = Some a"
  shows "player_of w c = Some a"
proof -
  obtain v' where v': "clients w' c = Some v'" "c_player v' = Some a"
    using assms(2) by (auto simp: player_of_def bind_eq_Some_conv)
  then obtain v where "clients w c = Some v" "client_keeps v v'"
    using assms(1) unfolding kept_def by blast
  with v'(2) show ?thesis by (simp add: player_of_def client_keeps_def)
qed

lemma heirs_kept [simp]: "kept inv_keeps (invs w) (invs w') \<Longrightarrow> heirs w w'"
  unfolding heirs_def kept_def by blast

lemma heirs_trans:
  assumes "heirs w1 w2" and "heirs w2 w3" and "kept client_keeps (clients w1) (clients w2)"
    and "next_addr w1 \<le> next_addr w2"
  shows "heirs w1 w3"
  unfolding heirs_def
proof (intro allI impI)
  fix i u3
  assume u3: "invs w3 i = Some u3"
  show "(\<exists>u. invs w1 i = Some u \<and> inv_keeps u u3) \<or>
     next_addr w1 \<le> i \<and> player_of w1 (inv_src u3) \<noteq> None \<and> player_of w1 (inv_target u3) \<noteq> None"
  proof (cases "\<exists>u2. invs w2 i = Some u2 \<and> inv_keeps u2 u3")
    case True
    then obtain u2 where u2: "invs w2 i = Some u2" "inv_keeps u2 u3" by blast
    then have "inv_src u3 = inv_src u2" "inv_target u3 = inv_target u2" by (simp_all add: inv_keeps_def)
    moreover have "(\<exists>u. invs w1 i = Some u \<and> inv_keeps u u2) \<or>
        next_addr w1 \<le> i \<and> player_of w1 (inv_src u2) \<noteq> None \<and> player_of w1 (inv_target u2) \<noteq> None"
      using assms(1) u2(1) by (simp add: heirs_def)
    ultimately show ?thesis using inv_keeps_trans [OF _ u2(2)] by auto
  next
    case False
    then have "next_addr w2 \<le> i" "player_of w2 (inv_src u3) \<noteq> None" "player_of w2 (inv_target u3) \<noteq> None"
      using assms(2) u3 unfolding heirs_def by blast+
    then show ?thesis using kept_player [OF assms(3)] assms(4) by fastforce
  qed
qed

lemma tags_cong: "players w' = players w \<Longrightarrow> tags w' = tags w"
  by (simp add: tags_def fun_eq_iff)

lemma tags_frame [simp]:
  "tags (w\<lparr>games := hg\<rparr>) = tags w" "tags (w\<lparr>clients := hc\<rparr>) = tags w" "tags (w\<lparr>invs := hi\<rparr>) = tags w"
  "tags (w\<lparr>next_addr := n\<rparr>) = tags w" "tags (w\<lparr>os := o1\<rparr>) = tags w" "tags (w\<lparr>creg := cr\<rparr>) = tags w"
  "tags (w\<lparr>preg := pr\<rparr>) = tags w"
  by (rule tags_cong; simp)+

lemma evo_refl [simp]: "evo w w"
  by (simp add: evo_def)

lemma evo_trans: "evo w1 w2 \<Longrightarrow> evo w2 w3 \<Longrightarrow> evo w1 w3"
  unfolding evo_def
  using kept_trans [OF client_keeps_trans, where ha = "clients w1" and hb = "clients w2" and hc = "clients w3"] heirs_trans [of w1 w2 w3]
  by simp

lemma released_evo:
  assumes "released w w'"
  shows "evo w w'"
proof -
  have "kept client_keeps (clients w) (clients w')" "kept inv_keeps (invs w) (invs w')"
    using assms by (auto simp: released_def client_keeps_def inv_keeps_def elim!: kept_shrunk)
  then show ?thesis using released_frame [OF assms] tags_cong [of w' w] by (simp add: evo_def)
qed

lemma evo_client:
  assumes "evo w w'" and "clients w' c = Some v'"
  obtains v where "clients w c = Some v" and "client_keeps v v'"
  using assms unfolding evo_def kept_def by blast

lemma evo_inv:
  assumes "evo w w'" and "i < next_addr w" and "invs w' i = Some v'"
  obtains v where "invs w i = Some v" and "inv_keeps v v'"
  using assms unfolding evo_def heirs_def by (metis not_le)

subsection \<open>Consequences\<close>

lemma world_okD:
  assumes "world_ok k L w"
  shows "counts_ok L w" and "mem (os w) = []" and "players_ok w"
    and "clients w c = Some v \<Longrightarrow> table_ok v" and "invs w i = Some u \<Longrightarrow> inv_wf u"
    and "games w g = Some x \<Longrightarrow> game_inv x"
  using assms by (auto simp: world_ok_def shape_ok_def)

lemma world_ok_fresh:
  assumes "world_ok k L w"
  shows "clients w c = Some v \<Longrightarrow> c < next_addr w" and "invs w i = Some u \<Longrightarrow> i < next_addr w"
  using assms unfolding world_ok_def shape_ok_def fresh_from_def by (metis not_less option.distinct(1))+

text \<open>What is referenced is alive.\<close>

lemma referenced_live:
  assumes "counts_ok L w" and "x \<in># held w + L"
  obtains n where "stored w x = Some n" and "n \<noteq> 0"
proof -
  have "ref_ok (count (held w + L) x) (stored w x)" using assms(1) by (rule counts_okD)
  moreover have "0 < count (held w + L) x" using assms(2) by simp
  ultimately show thesis
    using that of_nat_size_zero_iff by (cases "stored w x") (auto simp del: count_union)
qed

lemma held_inv:
  assumes "counts_ok L w" and "invs w i = Some v"
  shows "inv_holds v \<subseteq># held w"
proof -
  have "finite (dom (invs w))" using assms(1) by (simp add: counts_ok_def)
  from map_sum_remove [OF this assms(2), of inv_holds] show ?thesis
    by (simp add: held_map_sum ac_simps)
qed

lemma held_client:
  assumes "counts_ok L w" and "clients w c = Some v"
  shows "client_holds v \<subseteq># held w"
proof -
  have "finite (dom (clients w))" using assms(1) by (simp add: counts_ok_def)
  from map_sum_remove [OF this assms(2), of client_holds] show ?thesis
    by (simp add: held_map_sum ac_simps)
qed

lemma client_ref_live_of:
  assumes "counts_ok L w" and "Unref_Client c \<in># held w + L"
  obtains v where "clients w c = Some v" and "c_ref_count v \<noteq> 0"
  using referenced_live [OF assms] by (auto)

lemma inv_ref_live_of:
  assumes "counts_ok L w" and "Unref_Inv i \<in># held w + L"
  obtains v where "invs w i = Some v" and "i_ref_count v \<noteq> 0"
  using referenced_live [OF assms] by (auto)

lemma game_ref_live_of:
  assumes "counts_ok L w" and "Unref_Game g \<in># held w + L"
  obtains v where "games w g = Some v" and "g_ref_count v \<noteq> 0"
  using referenced_live [OF assms] by (auto)

lemma parties_live:
  assumes "counts_ok L w" and "invs w i = Some v"
  obtains s t where "clients w (inv_src v) = Some s" and "clients w (inv_target v) = Some t"
proof -
  have "Unref_Client (inv_src v) \<in># held w + L" "Unref_Client (inv_target v) \<in># held w + L"
    using held_inv [OF assms] by (auto simp: inv_holds_def dest: mset_subset_eqD)
  then show thesis using that client_ref_live_of [OF assms(1)] by metis
qed

lemma inv_game_live:
  assumes "counts_ok L w" and "invs w i = Some v" and "inv_game v = Some g"
  obtains x where "games w g = Some x" and "g_ref_count x \<noteq> 0"
proof -
  have "Unref_Game g \<in># held w + L"
    using held_inv [OF assms(1,2)] assms(3) by (auto simp: inv_holds_def dest: mset_subset_eqD)
  then show thesis using that game_ref_live_of [OF assms(1)] by metis
qed

lemma slot_live:
  assumes "world_ok k L w" and "clients w c = Some v" and "Some i \<in> set (invs_lst v)"
  obtains u where "invs w i = Some u"
proof -
  have "invs_cap v = length (invs_lst v)" using world_okD(4) [OF assms(1,2)] by (simp add: table_ok_def)
  then have "Unref_Inv i \<in># client_holds v"
    using assms(3) by (force simp: client_holds_def destroy_inv_lst_safe_def)
  then have "Unref_Inv i \<in># held w + L"
    using held_client [OF world_okD(1) [OF assms(1)] assms(2)] by (auto dest: mset_subset_eqD)
  then show thesis using that inv_ref_live_of [OF world_okD(1) [OF assms(1)]] by metis
qed

subsection \<open>Counts after a change\<close>

lemma counts_ok_finite: "counts_ok L w \<Longrightarrow> finite (dom (invs w)) \<and> finite (dom (clients w))"
  by (simp add: counts_ok_def)

text \<open>One reference more, one reference less, and references that only change their holder.\<close>

lemma counts_ok_more:
  assumes "counts_ok L w" and "size (held w) + size L + 1 < 2 ^ 64"
    and "finite (dom (invs w'))" and "finite (dom (clients w'))"
    and "held w' + L' = add_mset x (held w + L)"
    and "stored w x = Some n" and "stored w' x = Some (size_inc n)"
    and "\<And>y. y \<noteq> x \<Longrightarrow> stored w' y = stored w y"
  shows "counts_ok L' w'"
proof -
  have "ref_ok (count (held w' + L') y) (stored w' y)" for y
  proof (cases "y = x")
    case True
    have "count (held w + L) x \<le> size (held w + L)" by (rule count_le_size)
    then have "Suc (count (held w + L) x) < 2 ^ 64" using assms(2) by simp
    moreover have "n = of_nat (count (held w + L) x)"
      using counts_okD [OF assms(1), of x] assms(6) by simp
    ultimately show ?thesis unfolding assms(5) True assms(7) by (simp add: size_inc_def)
  next
    case False
    then show ?thesis unfolding assms(5) using counts_okD [OF assms(1), of y] assms(8) by simp
  qed
  with assms(3,4) show ?thesis unfolding counts_ok_def by blast
qed

lemma counts_ok_less:
  assumes "counts_ok L w" and "finite (dom (invs w'))" and "finite (dom (clients w'))"
    and "add_mset x (held w' + L') = held w + L"
    and "stored w x = Some n" and "n \<noteq> 1" and "stored w' x = Some (size_dec n)"
    and "\<And>y. y \<noteq> x \<Longrightarrow> stored w' y = stored w y"
  shows "counts_ok L' w'"
proof -
  have "ref_ok (count (held w' + L') y) (stored w' y)" for y
  proof (cases "y = x")
    case True
    have "ref_ok (Suc (count (held w' + L') x)) (Some n)"
      using counts_okD [OF assms(1), of x] assms(5) unfolding assms(4) [symmetric] by simp
    then show ?thesis unfolding True assms(7)
      by (cases rule: ref_ok_drop) (use assms(6) in \<open>auto simp: size_dec_def\<close>)
  next
    case False
    then have "count (held w' + L') y = count (held w + L) y" unfolding assms(4) [symmetric] by simp
    then show ?thesis using counts_okD [OF assms(1), of y] assms(8) False by simp
  qed
  with assms(2,3) show ?thesis unfolding counts_ok_def by blast
qed

lemma counts_ok_move:
  assumes "counts_ok L w" and "finite (dom (invs w'))" and "finite (dom (clients w'))"
    and "held w' + L' = held w + L" and "\<And>y. stored w' y = stored w y"
  shows "counts_ok L' w'"
  using assms(1) unfolding counts_ok_def assms(4,5) using assms(2,3) by blast

lemma held_upd_client:
  assumes "counts_ok L w" and "clients w c = Some v"
  shows "held (w\<lparr>clients := (clients w)(c := Some v')\<rparr>) + client_holds v = held w + client_holds v'"
  using map_sum_update [where h = "clients w" and a = c and f = client_holds and v' = v', OF _ assms(2)] counts_ok_finite [OF assms(1)]
  by (simp add: held_map_sum creg_holds_cong [of "w\<lparr>clients := (clients w)(c := Some v')\<rparr>" w] ac_simps)

lemma held_upd_inv:
  assumes "counts_ok L w" and "invs w i = Some v"
  shows "held (w\<lparr>invs := (invs w)(i := Some v')\<rparr>) + inv_holds v = held w + inv_holds v'"
  using map_sum_update [where h = "invs w" and a = i and f = inv_holds and v' = v', OF _ assms(2)] counts_ok_finite [OF assms(1)]
  by (simp add: held_map_sum creg_holds_cong [of "w\<lparr>invs := (invs w)(i := Some v')\<rparr>" w] ac_simps)

lemma held_frame [simp]:
  "held (w\<lparr>games := h\<rparr>) = held w" "held (w\<lparr>os := o1\<rparr>) = held w" "held (w\<lparr>players := ps\<rparr>) = held w"
  "held (w\<lparr>next_addr := n\<rparr>) = held w"
  by (simp_all add: held_map_sum creg_holds_def creg_slots_def)

subsection \<open>Shapes after a change\<close>

lemma players_ok_mono:
  assumes "players_ok w" and "players w' = players w"
    and "\<And>c a. player_of w' c = Some a \<Longrightarrow> player_of w c = Some a"
    and "\<And>i v'. invs w' i = Some v' \<Longrightarrow>
      \<exists>v. invs w i = Some v \<and> inv_src v' = inv_src v \<and> inv_target v' = inv_target v"
  shows "players_ok w'"
  unfolding players_ok_def assms(2)
proof (intro conjI allI impI)
  show "p_ref_count p \<noteq> 0" "p_name p \<noteq> None" if "players w a = Some p" for a p
    using assms(1) that by (auto simp: players_ok_def)
  show "players w a \<noteq> None" if "player_of w' c = Some a" for c a
    using assms(1,3) that unfolding players_ok_def by blast
  fix i v'
  assume "invs w' i = Some v'"
  then obtain v where v: "invs w i = Some v" "inv_src v' = inv_src v" "inv_target v' = inv_target v"
    using assms(4) by blast
  show "player_of w' (inv_src v') = None \<or> player_of w' (inv_src v') \<noteq> player_of w' (inv_target v')"
  proof (rule ccontr)
    assume "\<not> ?thesis"
    then obtain a where "player_of w' (inv_src v) = Some a" "player_of w' (inv_target v) = Some a"
      using v by (cases "player_of w' (inv_src v)") auto
    then have "player_of w (inv_src v) = Some a" "player_of w (inv_target v) = Some a"
      using assms(3) by blast+
    then show False using assms(1) v(1) unfolding players_ok_def by fastforce
  qed
qed

lemma shape_ok_released:
  assumes "shape_ok w" and "released w w'"
  shows "shape_ok w'"
proof -
  have c: "\<exists>v n. clients w c = Some v \<and> v' = v\<lparr>c_ref_count := n\<rparr>" if "clients w' c = Some v'" for c v'
    using assms(2) that by (simp add: released_def shrunk_def)
  have i: "\<exists>v n. invs w i = Some v \<and> v' = v\<lparr>i_ref_count := n\<rparr>" if "invs w' i = Some v'" for i v'
    using assms(2) that by (simp add: released_def shrunk_def)
  have g: "\<exists>v n. games w g = Some v \<and> v' = v\<lparr>g_ref_count := n\<rparr>" if "games w' g = Some v'" for g v'
    using assms(2) that by (simp add: released_def shrunk_def)
  note f = released_frame [OF assms(2)]
  have "table_ok v'" if live: "clients w' d = Some v'" for d v'
  proof -
    obtain v n where "clients w d = Some v" "v' = v\<lparr>c_ref_count := n\<rparr>" using c [OF live] by blast
    moreover have "table_ok v" using calculation(1) assms(1) unfolding shape_ok_def by blast
    ultimately show ?thesis by (simp add: table_ok_def)
  qed
  moreover have "inv_wf v'" if live: "invs w' j = Some v'" for j v'
  proof -
    obtain v n where "invs w j = Some v" "v' = v\<lparr>i_ref_count := n\<rparr>" using i [OF live] by blast
    moreover have "inv_wf v" using calculation(1) assms(1) unfolding shape_ok_def by blast
    ultimately show ?thesis by (simp add: inv_wf_def inv_ok_def)
  qed
  moreover have "game_inv v'" if live: "games w' j = Some v'" for j v'
  proof -
    obtain v n where "games w j = Some v" "v' = v\<lparr>g_ref_count := n\<rparr>" using g [OF live] by blast
    moreover have "game_inv v" using calculation(1) assms(1) unfolding shape_ok_def by blast
    ultimately show ?thesis by (simp add: game_inv_def)
  qed
  moreover have "fresh_from w'"
    unfolding fresh_from_def f(5)
  proof (intro allI impI)
    fix a assume "next_addr w \<le> a"
    then have n: "invs w a = None" "clients w a = None" "games w a = None"
      using assms(1) by (auto simp: shape_ok_def fresh_from_def)
    show "invs w' a = None \<and> clients w' a = None \<and> games w' a = None"
      using n c [of a] i [of a] g [of a] by (metis not_None_eq option.distinct(1))
  qed
  moreover have "players_ok w'"
  proof (rule players_ok_mono)
    show "players_ok w" using assms(1) by (simp add: shape_ok_def)
    show "players w' = players w" by (rule f)
    show "player_of w d = Some a" if pl: "player_of w' d = Some a" for d a
    proof -
      obtain v' where v': "clients w' d = Some v'" "c_player v' = Some a"
        using pl by (cases "clients w' d") (simp_all add: player_of_def)
      with c [OF v'(1)] show ?thesis by (auto simp: player_of_def)
    qed
    show "\<exists>v. invs w j = Some v \<and> inv_src v' = inv_src v \<and> inv_target v' = inv_target v"
      if "invs w' j = Some v'" for j v' using i [OF that] by auto
  qed
  ultimately show ?thesis using assms(1) f(4) unfolding shape_ok_def by simp
qed

lemma shape_ok_client:
  assumes "shape_ok w" and "clients w c = Some v" and "table_ok v'" and "c_player v' = c_player v"
  shows "shape_ok (w\<lparr>clients := (clients w)(c := Some v')\<rparr>)"
proof -
  let ?w = "w\<lparr>clients := (clients w)(c := Some v')\<rparr>"
  have p: "player_of ?w d = player_of w d" for d using assms(2,4) by (simp add: player_of_def)
  have "players_ok ?w"
    by (rule players_ok_mono [of w]) (use assms(1) in \<open>auto simp: p shape_ok_def\<close>)
  moreover have "fresh_from ?w" using assms(1,2) by (auto simp: shape_ok_def fresh_from_def)
  ultimately show ?thesis using assms(1,3) by (simp add: shape_ok_def)
qed

lemma shape_ok_inv:
  assumes "shape_ok w" and "invs w i = Some v" and "inv_wf v'"
    and "inv_src v' = inv_src v" and "inv_target v' = inv_target v"
  shows "shape_ok (w\<lparr>invs := (invs w)(i := Some v')\<rparr>)"
proof -
  let ?w = "w\<lparr>invs := (invs w)(i := Some v')\<rparr>"
  have p: "player_of ?w d = player_of w d" for d by (simp add: player_of_def)
  have "players_ok ?w"
    by (rule players_ok_mono [of w]) (use assms in \<open>auto simp: p shape_ok_def split: if_splits\<close>)
  moreover have "fresh_from ?w" using assms(1,2) by (auto simp: shape_ok_def fresh_from_def)
  ultimately show ?thesis using assms(1,3) by (simp add: shape_ok_def)
qed

lemma shape_ok_game:
  assumes "shape_ok w" and "games w g = Some x" and "game_inv x'"
  shows "shape_ok (w\<lparr>games := (games w)(g := Some x')\<rparr>)"
proof -
  let ?w = "w\<lparr>games := (games w)(g := Some x')\<rparr>"
  have p: "player_of ?w d = player_of w d" for d by (simp add: player_of_def)
  have "players_ok ?w"
    by (rule players_ok_mono [of w]) (use assms in \<open>auto simp: p shape_ok_def\<close>)
  moreover have "fresh_from ?w" using assms(1,2) by (auto simp: shape_ok_def fresh_from_def)
  ultimately show ?thesis using assms(1,3) by (simp add: shape_ok_def)
qed

lemma shape_ok_os:
  assumes "shape_ok w" and "mem o1 = []"
  shows "shape_ok (w\<lparr>os := o1\<rparr>)"
proof -
  have p: "player_of (w\<lparr>os := o1\<rparr>) d = player_of w d" for d by (simp add: player_of_def)
  have "players_ok (w\<lparr>os := o1\<rparr>)"
    by (rule players_ok_mono [of w]) (use assms in \<open>auto simp: p shape_ok_def\<close>)
  then show ?thesis using assms by (simp add: shape_ok_def fresh_from_def)
qed

lemma world_ok_shape: "world_ok k L w \<Longrightarrow> shape_ok w"
  by (simp add: world_ok_def)

lemma world_ok_mono: "world_ok k L w \<Longrightarrow> j \<le> k \<Longrightarrow> world_ok j L w"
  by (simp add: world_ok_def)

lemma table_ok_count [simp]: "table_ok (v\<lparr>c_ref_count := n\<rparr>) = table_ok v"
  by (simp add: table_ok_def)

lemma inv_wf_count [simp]: "inv_wf (v\<lparr>i_ref_count := n\<rparr>) = inv_wf v"
  by (simp add: inv_wf_def inv_ok_def)

lemma game_inv_count [simp]: "game_inv (x\<lparr>g_ref_count := n\<rparr>) = game_inv x"
  by (simp add: game_inv_def)

subsection \<open>Taking and dropping references\<close>

lemma ok_client_ref:
  assumes "world_ok (Suc k) L w" and "clients w c = Some v"
  shows "\<exists>w'. client_ref (Some c) w = Some (Some c, w') \<and>
    world_ok k (add_mset (Unref_Client c) L) w' \<and> evo w w' \<and> invs w' = invs w \<and> games w' = games w"
proof -
  let ?v = "v\<lparr>c_ref_count := size_inc (c_ref_count v)\<rparr>"
  let ?w = "w\<lparr>clients := (clients w)(c := Some ?v)\<rparr>"
  note c = world_okD(1) [OF assms(1)]
  have h: "held ?w = held w" using held_upd_client [OF c assms(2), of ?v] by simp
  have "counts_ok (add_mset (Unref_Client c) L) ?w"
  proof (rule counts_ok_more [OF c, of _ _ "Unref_Client c" "c_ref_count v"])
    show "stored ?w y = stored w y" if "y \<noteq> Unref_Client c" for y using that by (cases y) auto
    show "size (held w) + size L + 1 < 2 ^ 64" using assms(1) by (simp add: world_ok_def)
  qed (use counts_ok_finite [OF c] assms(2) h in simp_all)
  moreover have "shape_ok ?w"
    using world_ok_shape [OF assms(1)] assms(2) world_okD(4) [OF assms]
    by (intro shape_ok_client [of w c v]) simp_all
  ultimately have "world_ok k (add_mset (Unref_Client c) L) ?w"
    using assms(1) h by (simp add: world_ok_def)
  moreover have "evo w ?w" using assms(2) by (simp add: evo_def kept_upd client_keeps_def)
  ultimately show ?thesis using assms(2) by simp
qed

lemma ok_inv_ref:
  assumes "world_ok (Suc k) L w" and "invs w i = Some v"
  shows "\<exists>w'. inv_ref (Some i) w = Some (Some i, w') \<and>
    world_ok k (add_mset (Unref_Inv i) L) w' \<and> evo w w' \<and> clients w' = clients w \<and> games w' = games w \<and>
    invs w' = (invs w)(i := Some (v\<lparr>i_ref_count := size_inc (i_ref_count v)\<rparr>))"
proof -
  let ?v = "v\<lparr>i_ref_count := size_inc (i_ref_count v)\<rparr>"
  let ?w = "w\<lparr>invs := (invs w)(i := Some ?v)\<rparr>"
  note c = world_okD(1) [OF assms(1)]
  have h: "held ?w = held w" using held_upd_inv [OF c assms(2), of ?v] by simp
  have "counts_ok (add_mset (Unref_Inv i) L) ?w"
  proof (rule counts_ok_more [OF c, of _ _ "Unref_Inv i" "i_ref_count v"])
    show "stored ?w y = stored w y" if "y \<noteq> Unref_Inv i" for y using that by (cases y) auto
    show "size (held w) + size L + 1 < 2 ^ 64" using assms(1) by (simp add: world_ok_def)
  qed (use counts_ok_finite [OF c] assms(2) h in simp_all)
  moreover have "shape_ok ?w"
    using world_ok_shape [OF assms(1)] assms(2) world_okD(5) [OF assms]
    by (intro shape_ok_inv [of w i v]) simp_all
  ultimately have "world_ok k (add_mset (Unref_Inv i) L) ?w"
    using assms(1) h by (simp add: world_ok_def)
  moreover have "evo w ?w" using assms(2) by (simp add: evo_def kept_upd inv_keeps_def)
  ultimately show ?thesis using assms(2) by simp
qed

lemma ok_game_ref:
  assumes "world_ok (Suc k) L w" and "games w g = Some x"
  shows "\<exists>w'. w_game_ref (Some g) w = Some (Some g, w') \<and>
    world_ok k (add_mset (Unref_Game g) L) w' \<and> evo w w' \<and> clients w' = clients w \<and> invs w' = invs w"
proof -
  let ?x = "x\<lparr>g_ref_count := size_inc (g_ref_count x)\<rparr>"
  let ?w = "w\<lparr>games := (games w)(g := Some ?x)\<rparr>"
  note c = world_okD(1) [OF assms(1)]
  have "counts_ok (add_mset (Unref_Game g) L) ?w"
  proof (rule counts_ok_more [OF c, of _ _ "Unref_Game g" "g_ref_count x"])
    show "stored ?w y = stored w y" if "y \<noteq> Unref_Game g" for y using that by (cases y) auto
    show "size (held w) + size L + 1 < 2 ^ 64" using assms(1) by (simp add: world_ok_def)
  qed (use counts_ok_finite [OF c] assms(2) in simp_all)
  moreover have "shape_ok ?w"
    using world_ok_shape [OF assms(1)] assms(2) world_okD(6) [OF assms]
    by (intro shape_ok_game [of w g x]) simp_all
  ultimately have "world_ok k (add_mset (Unref_Game g) L) ?w"
    using assms(1) by (simp add: world_ok_def)
  moreover have "evo w ?w" by (simp add: evo_def)
  moreover have "w_game_ref (Some g) w = Some (Some g, ?w)"
    using assms(2) by (simp add: w_game_ref_def game_ref_def)
  ultimately show ?thesis by auto
qed

lemma world_ok_released:
  assumes "world_ok k (add_mset x L) w" and "counts_ok L w'" and "released w w'"
    and "size (held w') \<le> size (held w)"
  shows "world_ok (Suc k) L w'"
  using assms shape_ok_released [OF _ assms(3)] by (simp add: world_ok_def)

lemma ok_client_unref:
  assumes "world_ok k (add_mset (Unref_Client c) L) w"
  shows "\<exists>w'. client_unref (Some c) w = Some w' \<and> world_ok (Suc k) L w' \<and> evo w w'"
  using client_unref_safe [OF world_okD(1) [OF assms]] world_ok_released [OF assms] released_evo by blast

lemma ok_inv_unref:
  assumes "world_ok k (add_mset (Unref_Inv i) L) w"
  shows "\<exists>w'. inv_unref (Some i) w = Some w' \<and> world_ok (Suc k) L w' \<and> evo w w' \<and> released w w'"
  using inv_unref_safe [OF world_okD(1) [OF assms]] world_ok_released [OF assms] released_evo by blast

lemma ok_game_unref:
  assumes "world_ok k (add_mset (Unref_Game g) L) w"
  shows "\<exists>w'. w_game_unref (Some g) w = Some w' \<and> world_ok (Suc k) L w' \<and> evo w w'"
proof -
  have "counts_ok (mset [Unref_Game g] + L) w" using world_okD(1) [OF assms] by simp
  from release_safe [OF this] obtain w' where
    "release [Unref_Game g] w = Some w'" "counts_ok L w'" "released w w'" "size (held w') \<le> size (held w)"
    by blast
  then show ?thesis using world_ok_released [OF assms] released_evo
    by (auto simp: release_simps split: option.splits)
qed

subsection \<open>Accepting and closing invitations\<close>

lemma counts_ok_new:
  assumes "counts_ok L w" and "finite (dom (invs w'))" and "finite (dom (clients w'))"
    and "held w' + L' = add_mset x (held w + L)" and "stored w x = None" and "stored w' x = Some 1"
    and "\<And>y. y \<noteq> x \<Longrightarrow> stored w' y = stored w y"
  shows "counts_ok L' w'"
proof -
  have "ref_ok (count (held w' + L') y) (stored w' y)" for y
  proof (cases "y = x")
    case True
    have "count (held w + L) x = 0" using counts_okD [OF assms(1), of x] assms(5) by simp
    then show ?thesis unfolding assms(4) True assms(6) by simp
  next
    case False
    then show ?thesis unfolding assms(4) using counts_okD [OF assms(1), of y] assms(7) by simp
  qed
  with assms(2,3) show ?thesis unfolding counts_ok_def by blast
qed

lemma ok_inv_state:
  assumes "world_ok k L w" and "invs w i = Some v" and "inv_wf (v\<lparr>inv_state := s\<rparr>)"
  shows "world_ok k L (w\<lparr>invs := (invs w)(i := Some (v\<lparr>inv_state := s\<rparr>))\<rparr>)"
    and "evo w (w\<lparr>invs := (invs w)(i := Some (v\<lparr>inv_state := s\<rparr>))\<rparr>)"
proof -
  let ?v = "v\<lparr>inv_state := s\<rparr>"
  let ?w = "w\<lparr>invs := (invs w)(i := Some ?v)\<rparr>"
  note c = world_okD(1) [OF assms(1)]
  have h: "held ?w = held w" using held_upd_inv [OF c assms(2), of ?v] by (simp add: inv_holds_def)
  have "counts_ok L ?w"
  proof (rule counts_ok_move [OF c])
    show "stored ?w y = stored w y" for y using assms(2) by (cases y) auto
  qed (use counts_ok_finite [OF c] h in simp_all)
  moreover have "shape_ok ?w"
    using world_ok_shape [OF assms(1)] assms(2,3) by (intro shape_ok_inv [of w i v]) simp_all
  ultimately show "world_ok k L ?w" using assms(1) h by (simp add: world_ok_def)
  show "evo w ?w" using assms(2) by (simp add: evo_def kept_upd inv_keeps_def)
qed

lemma ok_game_update:
  assumes "world_ok k L w" and "games w g = Some x" and "game_inv x'" and "g_ref_count x' = g_ref_count x"
  shows "world_ok k L (w\<lparr>games := (games w)(g := Some x')\<rparr>)" and "evo w (w\<lparr>games := (games w)(g := Some x')\<rparr>)"
proof -
  let ?w = "w\<lparr>games := (games w)(g := Some x')\<rparr>"
  note c = world_okD(1) [OF assms(1)]
  have "counts_ok L ?w"
  proof (rule counts_ok_move [OF c])
    show "stored ?w y = stored w y" for y using assms(2,4) by (cases y) auto
  qed (use counts_ok_finite [OF c] in simp_all)
  moreover have "shape_ok ?w"
    using world_ok_shape [OF assms(1)] assms(2,3) by (intro shape_ok_game [of w g x])
  ultimately show "world_ok k L ?w" using assms(1) by (simp add: world_ok_def)
  show "evo w ?w" by (simp add: evo_def)
qed

lemma ok_inv_close:
  assumes "world_ok k L w" and "invs w i = Some v"
  shows "\<exists>st w'. inv_close (Some i) role w = Some (st, w') \<and> world_ok k L w' \<and> evo w w' \<and>
    clients w' = clients w \<and> (st = -1 \<or> st = 0 \<and> (role = NULL_ROLE \<longleftrightarrow> inv_game v = None))"
proof -
  note wf = world_okD(5) [OF assms]
  then have unl: "\<not> state_locked v" by (simp add: inv_wf_def)
  have wf': "inv_wf (v\<lparr>inv_state := INV_CLOSED_STATE\<rparr>)" using wf by (simp add: inv_wf_def inv_ok_def)
  let ?c = "w\<lparr>invs := (invs w)(i := Some (v\<lparr>inv_state := INV_CLOSED_STATE\<rparr>))\<rparr>"
  note closed = ok_inv_state [OF assms wf']
  show ?thesis
  proof (cases "inv_game v")
    case None
    have eq: "inv_close (Some i) role w = (if inv_state v \<noteq> INV_CLOSED_STATE \<and> role = NULL_ROLE then Some (0, ?c) else Some (-1, w))"
      using inv_close_result [OF assms(2) unl, of undefined role] None
      by (cases role) (simp_all add: Let_def)
    show ?thesis using closed None assms(1) unfolding eq by simp
  next
    case (Some a)
    then obtain g where g: "games w a = Some g" by (rule inv_game_live [OF world_okD(1) [OF assms(1)] assms(2)])
    let ?g = "g\<lparr>game_status := GAME_TERMINATED, winner := opponent role\<rparr>"
    have gi: "game_inv ?g" using world_okD(6) [OF assms(1) g] by (simp add: game_inv_def)
    have ga: "games ?c a = Some g" using g by simp
    note ended = ok_game_update [OF closed(1) ga gi]
    have eq: "inv_close (Some i) role w = (if inv_state v \<noteq> INV_CLOSED_STATE \<and> role \<noteq> NULL_ROLE \<and> \<not> over (abs_game g)
        then Some (0, ?c\<lparr>games := (games ?c)(a := Some ?g)\<rparr>) else Some (-1, w))"
      using inv_close_result [OF assms(2) unl, of g role] Some g
      by (cases role) (simp_all add: Let_def)
    show ?thesis using ended evo_trans [OF closed(2)] Some assms(1) unfolding eq by simp
  qed
qed

lemma ok_inv_accept:
  assumes "world_ok (Suc k) L w" and "invs w i = Some v"
  shows "\<exists>st w'. inv_accept (Some i) w = Some (st, w') \<and> world_ok k L w' \<and> evo w w' \<and>
    clients w' = clients w \<and> (st = -1 \<or> st = 0 \<and> (\<exists>v' a. invs w' i = Some v' \<and> inv_game v' = Some a))"
proof -
  note wf = world_okD(5) [OF assms] and c = world_okD(1) [OF assms(1)]
  then have unl: "\<not> state_locked v" by (simp add: inv_wf_def)
  show ?thesis
  proof (cases "inv_state v = INV_OPEN_STATE")
    case False
    then show ?thesis
      using inv_accept_result [OF assms(2) unl world_okD(2) [OF assms(1)]] world_ok_mono [OF assms(1), of k] by simp
  next
    case True
    then have ng: "inv_game v = None" using wf by (simp add: inv_wf_def inv_ok_def)
    let ?n = "next_addr w" and ?v = "v\<lparr>inv_game := Some (next_addr w), inv_state := INV_ACCEPTED_STATE\<rparr>"
    let ?w1 = "w\<lparr>games := (games w)(?n := Some new_game), next_addr := Suc ?n\<rparr>"
    let ?w = "?w1\<lparr>invs := (invs ?w1)(i := Some ?v)\<rparr>"
    have eq: "inv_accept (Some i) w = Some (0, ?w)"
      using inv_accept_result [OF assms(2) unl world_okD(2) [OF assms(1)]] True by simp
    have fr: "games w ?n = None" using assms(1) by (simp add: world_ok_def shape_ok_def fresh_from_def)
    have h: "held (w\<lparr>invs := (invs w)(i := Some ?v)\<rparr>) = add_mset (Unref_Game ?n) (held w)"
      using held_upd_inv [OF c assms(2), of ?v] ng by (simp add: inv_holds_def)
    have h': "held ?w = add_mset (Unref_Game ?n) (held w)"
      unfolding h [symmetric] by (simp add: held_map_sum creg_holds_def creg_slots_def)
    have "counts_ok L ?w"
    proof (rule counts_ok_new [OF c, of _ _ "Unref_Game ?n"])
      show "stored ?w y = stored w y" if "y \<noteq> Unref_Game ?n" for y
        using that assms(2) by (cases y) auto
    qed (use counts_ok_finite [OF c] h' fr assms(2) in \<open>simp_all add: new_game_def\<close>)
    moreover have "shape_ok ?w"
    proof -
      have s: "shape_ok w" by (rule world_ok_shape [OF assms(1)])
      have p: "player_of ?w1 d = player_of w d" for d by (simp add: player_of_def)
      have "players_ok ?w1"
        by (rule players_ok_mono [of w]) (use s in \<open>auto simp: p shape_ok_def\<close>)
      then have "shape_ok ?w1" using s new_game_inv by (auto simp: shape_ok_def fresh_from_def)
      moreover have "inv_wf ?v" using wf by (simp add: inv_wf_def inv_ok_def)
      ultimately show ?thesis using assms(2) by (intro shape_ok_inv [of ?w1 i v]) simp_all
    qed
    ultimately have "world_ok k L ?w" using assms(1) h' by (simp add: world_ok_def)
    moreover have "evo w ?w" using assms(2) ng by (simp add: evo_def kept_upd inv_keeps_def)
    ultimately show ?thesis using eq by simp
  qed
qed

subsection \<open>The table of a client\<close>

lemma client_holds_slots:
  "table_ok v \<Longrightarrow> client_holds v = mset (map (\<lambda>x. Unref_Inv (the x)) (filter (\<lambda>x. x \<noteq> None) (invs_lst v)))"
  by (simp add: client_holds_def destroy_inv_lst_safe_def table_ok_def)

text \<open>An invitation that a running operation references is not freed by removing it from a table.\<close>

lemma ok_remove:
  assumes "world_ok k L w" and "clients w c = Some v" and "invs w i = Some u" and "Unref_Inv i \<in># L"
  shows "\<exists>st w'. client_remove_invitation (Some c) (Some i) w = Some (st, w') \<and> world_ok k L w' \<and> evo w w' \<and>
    (st = -1 \<longleftrightarrow> Some i \<notin> set (invs_lst v)) \<and>
    (\<forall>d. d \<noteq> c \<longrightarrow> clients w' d = clients w d) \<and> games w' = games w"
proof (cases "Some i \<in> set (invs_lst v)")
  case False
  then show ?thesis
    using remove_missing [OF assms(2) world_okD(4) [OF assms(1,2)]] assms(1)
    by (simp add: client_remove_invitation_def)
next
  case True
  note c = world_okD(1) [OF assms(1)] and tab = world_okD(4) [OF assms(1,2)]
  from True obtain j where j: "find_idx (\<lambda>x. x = Some i) (invs_lst v) = Some j" by (rule find_idx_member)
  have j': "j < length (invs_lst v)" "invs_lst v ! j = Some i" using find_idx_SomeD [OF j] by simp_all
  let ?v = "(set_slot j None v)\<lparr>invs_len := invs_len v - 1\<rparr>"
  let ?u = "u\<lparr>i_ref_count := size_dec (i_ref_count u)\<rparr>"
  let ?w1 = "w\<lparr>clients := (clients w)(c := Some ?v)\<rparr>"
  let ?w = "?w1\<lparr>invs := (invs ?w1)(i := Some ?u)\<rparr>"
  have tab': "table_ok ?v" using occupied_clear [OF j'(1)] j'(2) tab by (auto simp: table_ok_def set_slot_def)
  have hv: "client_holds v = add_mset (Unref_Inv i) (client_holds ?v)"
    unfolding client_holds_slots [OF tab] client_holds_slots [OF tab']
    using slots_clear [OF j', of Unref_Inv] by (simp add: set_slot_def)
  have h1: "add_mset (Unref_Inv i) (held ?w1) = held w"
    using held_upd_client [OF c assms(2), of ?v] unfolding hv by simp
  have h: "add_mset (Unref_Inv i) (held ?w) = held w"
    unfolding h1 [symmetric] using map_sum_same [of "invs w" i u inv_holds ?u] counts_ok_finite [OF c] assms(3)
    by (simp add: held_map_sum creg_holds_def creg_slots_def)
  have two: "i_ref_count u \<noteq> 1"
  proof -
    have "Unref_Inv i \<in># held w" unfolding h [symmetric] by simp
    then have "0 < count (held w) (Unref_Inv i)" "0 < count L (Unref_Inv i)" using assms(4) by simp_all
    then have "1 < count (held w + L) (Unref_Inv i)" by (simp del: count_greater_zero_iff)
    moreover have "ref_ok (count (held w + L) (Unref_Inv i)) (Some (i_ref_count u))"
      using counts_okD [OF c, of "Unref_Inv i"] assms(3) by simp
    ultimately show ?thesis
      using of_nat_size_one_iff [of "count (held w + L) (Unref_Inv i)"] by (simp del: count_union)
  qed
  have eq: "client_remove_invitation (Some c) (Some i) w = Some (int j, ?w)"
    using remove_found(1) [OF assms(2) tab assms(3) two j] by (simp add: client_remove_invitation_def)
  have "counts_ok L ?w"
  proof (rule counts_ok_less [OF c, of _ "Unref_Inv i" _ "i_ref_count u"])
    show "stored ?w y = stored w y" if "y \<noteq> Unref_Inv i" for y
      using that assms(2) by (cases y) (auto simp: set_slot_def)
  qed (use counts_ok_finite [OF c] h two assms(3) in simp_all)
  moreover have "shape_ok ?w"
  proof -
    have "shape_ok ?w1"
      using world_ok_shape [OF assms(1)] assms(2) tab'
      by (intro shape_ok_client [of w c v]) (simp_all add: set_slot_def)
    then show ?thesis using assms(3) world_okD(5) [OF assms(1,3)]
      by (intro shape_ok_inv [of ?w1 i u]) simp_all
  qed
  moreover have "size (held ?w) \<le> size (held w)" unfolding h [symmetric] by simp
  ultimately have "world_ok k L ?w" using assms(1) by (simp add: world_ok_def)
  moreover have "evo w ?w" using assms(2,3)
    by (simp add: evo_def kept_upd client_keeps_def inv_keeps_def set_slot_def)
  ultimately show ?thesis using eq True by simp
qed

lemma ok_insert:
  assumes "world_ok (Suc k) L w" and "clients w c = Some v" and "invs w i = Some u"
  shows "\<exists>st w'. client_add_invitation (Some c) (Some i) w = Some (st, w') \<and> world_ok k L w' \<and> evo w w' \<and>
    (st = -1 \<and> w' = w \<or> (\<exists>j v'. st = int j \<and> clients w' c = Some v' \<and> Some i \<in> set (invs_lst v') \<and>
       c_player v' = c_player v \<and>
       invs w' i = Some (u\<lparr>i_ref_count := size_inc (i_ref_count u)\<rparr>))) \<and>
    (\<forall>d. d \<noteq> c \<longrightarrow> clients w' d = clients w d) \<and> games w' = games w"
proof (cases "None \<in> set (invs_lst v)")
  case False
  then show ?thesis
    using insert_full [OF assms(2) world_okD(4) [OF assms(1,2)]] world_ok_mono [OF assms(1), of k]
    by (simp add: client_add_invitation_def)
next
  case True
  note c = world_okD(1) [OF assms(1)] and tab = world_okD(4) [OF assms(1,2)]
  from True obtain j where j: "find_idx (\<lambda>x. x = None) (invs_lst v) = Some j" by (rule find_idx_member)
  have j': "j < length (invs_lst v)" "invs_lst v ! j = None" using find_idx_SomeD [OF j] by simp_all
  let ?v = "(set_slot j (Some i) v)\<lparr>invs_len := invs_len v + 1\<rparr>"
  let ?u = "u\<lparr>i_ref_count := size_inc (i_ref_count u)\<rparr>"
  let ?w1 = "w\<lparr>clients := (clients w)(c := Some ?v)\<rparr>"
  let ?w = "?w1\<lparr>invs := (invs ?w1)(i := Some ?u)\<rparr>"
  note ins = insert_free [OF assms(2) tab assms(3) j]
  have hv: "client_holds ?v = add_mset (Unref_Inv i) (client_holds v)"
    unfolding client_holds_slots [OF tab] client_holds_slots [OF ins(2)]
    using slots_fill [OF j', of Unref_Inv i] by (simp add: set_slot_def)
  have h1: "held ?w1 = add_mset (Unref_Inv i) (held w)"
    using held_upd_client [OF c assms(2), of ?v] unfolding hv by simp
  have h: "held ?w = add_mset (Unref_Inv i) (held w)"
    unfolding h1 [symmetric] using map_sum_same [of "invs w" i u inv_holds ?u] counts_ok_finite [OF c] assms(3)
    by (simp add: held_map_sum creg_holds_def creg_slots_def)
  have eq: "client_add_invitation (Some c) (Some i) w = Some (int j, ?w)"
    using ins(1) by (simp add: client_add_invitation_def)
  have "counts_ok L ?w"
  proof (rule counts_ok_more [OF c, of _ _ "Unref_Inv i" "i_ref_count u"])
    show "stored ?w y = stored w y" if "y \<noteq> Unref_Inv i" for y
      using that assms(2) by (cases y) (auto simp: set_slot_def)
    show "size (held w) + size L + 1 < 2 ^ 64" using assms(1) by (simp add: world_ok_def)
  qed (use counts_ok_finite [OF c] h assms(3) in simp_all)
  moreover have "shape_ok ?w"
  proof -
    have "shape_ok ?w1"
      using world_ok_shape [OF assms(1)] assms(2) ins(2)
      by (intro shape_ok_client [of w c v]) (simp_all add: set_slot_def)
    then show ?thesis using assms(3) world_okD(5) [OF assms(1,3)]
      by (intro shape_ok_inv [of ?w1 i u]) simp_all
  qed
  ultimately have "world_ok k L ?w" using assms(1) h by (simp add: world_ok_def)
  moreover have "evo w ?w" using assms(2,3)
    by (simp add: evo_def kept_upd client_keeps_def inv_keeps_def set_slot_def)
  moreover have "Some i \<in> set (invs_lst ?v)" using j'(1) by (simp add: set_slot_def set_update_memI)
  moreover have "c_player ?v = c_player v" by (simp add: set_slot_def)
  ultimately show ?thesis using eq by simp
qed

subsection \<open>Sending\<close>

text \<open>The header of a packet that the operations send, and what a call of \<open>send_pkt\<close> writes: the whole
packet when it returns 0, a proper prefix of it when it returns -1.\<close>

definition announces :: "packet_header \<Rightarrow> JEUX_PACKET_TYPE \<Rightarrow> int \<Rightarrow> GAME_ROLE \<Rightarrow> nat \<Rightarrow> bool" where
  "announces jph typ ident role sz \<longleftrightarrow> pkt_type jph = pkt_code typ \<and> pkt_id jph = word_of_int ident \<and>
     pkt_role jph = word_of_int (role_code role) \<and> payload_size jph = sz mod 2 ^ 16"

definition sent :: "int \<Rightarrow> JEUX_PACKET_TYPE \<Rightarrow> int \<Rightarrow> GAME_ROLE \<Rightarrow> nat \<Rightarrow> byte list option \<Rightarrow> int \<Rightarrow>
    os_state \<Rightarrow> os_state \<Rightarrow> bool" where
  "sent fd typ ident role sz datap st o1 o2 \<longleftrightarrow> (\<exists>jph n. announces jph typ ident role sz \<and>
     wrote fd (take n (packet_bytes jph datap)) (o1\<lparr>ticks := Suc (ticks o1)\<rparr>) o2 \<and>
     (st = 0 \<and> n = length (packet_bytes jph datap) \<or> st = -1 \<and> n < length (packet_bytes jph datap)))"

lemma sent_frame:
  assumes "sent fd typ ident role sz datap st o1 o2"
  shows "mem o2 = mem o1" and "same_input o1 o2" and "st = 0 \<or> st = -1"
proof -
  obtain jph n where w: "wrote fd (take n (packet_bytes jph datap)) (o1\<lparr>ticks := Suc (ticks o1)\<rparr>) o2"
    "st = 0 \<or> st = -1" using assms unfolding sent_def by blast
  have eq: "o2 = o1\<lparr>ticks := Suc (ticks o1), net := net o2, wire := wire o2\<rparr>" using w(1) by (simp add: wrote_def)
  show "mem o2 = mem o1" "same_input o1 o2"
    using arg_cong [OF eq, of mem] arg_cong [OF eq, of inbox] arg_cong [OF eq, of peer_closed]
      arg_cong [OF eq, of shut_fds] by simp_all
  show "st = 0 \<or> st = -1" by (rule w(2))
qed

lemma send_pkt_sent:
  assumes "clients w c = Some v" and "case datap of None \<Rightarrow> True | Some data \<Rightarrow> sz \<le> length data"
  shows "\<exists>st o1. send_pkt (Some c) typ ident role sz datap w = Some (st, w\<lparr>os := o1\<rparr>) \<and>
    sent (c_fd v) typ ident role sz datap st (os w) o1"
proof -
  obtain jph where jph: "pack_header typ (word_of_int ident) (word_of_int (role_code role)) (of_nat sz) (os w) =
      (jph, (os w)\<lparr>ticks := Suc (ticks (os w))\<rparr>)" "pkt_type jph = pkt_code typ" "pkt_id jph = word_of_int ident"
      "pkt_role jph = word_of_int (role_code role)" "pkt_size jph = htons (of_nat sz)"
    by (cases "clock (os w) (ticks (os w))") (simp add: pack_header_def clock_gettime_def Let_def)
  have size: "payload_size jph = sz mod 2 ^ 16"
    unfolding payload_size_def jph(5) by (simp add: unat_of_nat take_bit_eq_mod)
  then have an: "announces jph typ ident role sz" using jph by (simp add: announces_def)
  have "sz mod 2 ^ 16 \<le> sz" by simp
  then have "payload_fits jph datap"
    using assms(2) size by (auto simp: payload_fits_def split: option.splits)
  from proto_send_packet_result [OF this, of "c_fd v" "(os w)\<lparr>ticks := Suc (ticks (os w))\<rparr>"] obtain st n o2 where
    s: "proto_send_packet (c_fd v) jph datap ((os w)\<lparr>ticks := Suc (ticks (os w))\<rparr>) = Some (st, o2)"
      "wrote (c_fd v) (take n (packet_bytes jph datap)) ((os w)\<lparr>ticks := Suc (ticks (os w))\<rparr>) o2"
      "st = 0 \<and> n = length (packet_bytes jph datap) \<or> st = -1 \<and> n < length (packet_bytes jph datap)" by blast
  have "send_pkt (Some c) typ ident role sz datap w = Some (st, w\<lparr>os := o2\<rparr>)"
    using jph(1) s(1) assms(1) by (simp add: send_pkt_def w_pack_header_def client_send_packet_def client_get_fd_def)
  moreover have "sent (c_fd v) typ ident role sz datap st (os w) o2" using an s(2,3) unfolding sent_def by blast
  ultimately show ?thesis by blast
qed

lemma ok_send:
  assumes "world_ok k L w" and "clients w c = Some v"
    and "case datap of None \<Rightarrow> True | Some data \<Rightarrow> sz \<le> length data"
  shows "\<exists>st o1. send_pkt (Some c) typ ident role sz datap w = Some (st, w\<lparr>os := o1\<rparr>) \<and>
    world_ok k L (w\<lparr>os := o1\<rparr>) \<and> evo w (w\<lparr>os := o1\<rparr>) \<and> (st = 0 \<or> st = -1)"
proof -
  obtain st o2 where s: "send_pkt (Some c) typ ident role sz datap w = Some (st, w\<lparr>os := o2\<rparr>)"
      "sent (c_fd v) typ ident role sz datap st (os w) o2"
    using send_pkt_sent [OF assms(2,3)] by blast
  note f = sent_frame [OF s(2)]
  have st: "stored (w\<lparr>os := o2\<rparr>) y = stored w y" for y by (cases y) simp_all
  have "counts_ok L (w\<lparr>os := o2\<rparr>)"
    using world_okD(1) [OF assms(1)] unfolding counts_ok_def by (simp add: st)
  moreover have "shape_ok (w\<lparr>os := o2\<rparr>)"
    using shape_ok_os [OF world_ok_shape [OF assms(1)]] f(1) world_okD(2) [OF assms(1)] by simp
  ultimately have "world_ok k L (w\<lparr>os := o2\<rparr>)" using assms(1) by (simp add: world_ok_def)
  moreover have "evo w (w\<lparr>os := o2\<rparr>)" using f(2) by (simp add: evo_def)
  ultimately show ?thesis using s(1) f(3) by blast
qed

lemma ok_send_empty:
  assumes "world_ok k L w" and "clients w c = Some v"
  shows "\<exists>st o1. send_pkt (Some c) typ ident role 0 None w = Some (st, w\<lparr>os := o1\<rparr>) \<and>
    world_ok k L (w\<lparr>os := o1\<rparr>) \<and> evo w (w\<lparr>os := o1\<rparr>) \<and> (st = 0 \<or> st = -1)"
  using ok_send [OF assms, where datap = None and sz = 0] by simp

lemma ok_send_text:
  assumes "world_ok k L w" and "clients w c = Some v"
  shows "\<exists>st o1. send_pkt (Some c) typ ident role (length s) (Some (bytes_of s)) w = Some (st, w\<lparr>os := o1\<rparr>) \<and>
    world_ok k L (w\<lparr>os := o1\<rparr>) \<and> evo w (w\<lparr>os := o1\<rparr>) \<and> (st = 0 \<or> st = -1)"
  using ok_send [OF assms, where datap = "Some (bytes_of s)" and sz = "length s"] by (simp add: bytes_of_def)

subsection \<open>Players\<close>

lemma world_ok_set_players:
  assumes "world_ok k L w" and "players_ok (w\<lparr>players := ps\<rparr>)"
  shows "world_ok k L (w\<lparr>players := ps\<rparr>)"
proof -
  have st: "stored (w\<lparr>players := ps\<rparr>) y = stored w y" for y by (cases y) simp_all
  have "counts_ok L (w\<lparr>players := ps\<rparr>)"
    using world_okD(1) [OF assms(1)] unfolding counts_ok_def by (simp add: st)
  moreover have "shape_ok (w\<lparr>players := ps\<rparr>)"
    using world_ok_shape [OF assms(1)] assms(2) by (simp add: shape_ok_def fresh_from_def)
  ultimately show ?thesis using assms(1) by (simp add: world_ok_def)
qed

lemma world_ok_players:
  assumes "world_ok k L w" and "players_ok (w\<lparr>players := ps\<rparr>)" and "tags (w\<lparr>players := ps\<rparr>) = tags w"
  shows "world_ok k L (w\<lparr>players := ps\<rparr>)" and "evo w (w\<lparr>players := ps\<rparr>)"
  using world_ok_set_players [OF assms(1,2)] assms(3) by (simp_all add: evo_def)

lemma players_ok_update:
  assumes "players_ok w" and "players w a = Some p" and "p_ref_count p' \<noteq> 0" and "p_name p' \<noteq> None"
  shows "players_ok (w\<lparr>players := (players w)(a := Some p')\<rparr>)"
  using assms by (auto simp: players_ok_def player_of_def)

text \<open>The players of the parties of an invitation are alive and differ.\<close>

definition pair_ok :: "world \<Rightarrow> nat option \<Rightarrow> nat option \<Rightarrow> bool" where
  "pair_ok w p q \<longleftrightarrow> (p = None \<or> p \<noteq> q) \<and> (\<forall>a. p = Some a \<or> q = Some a \<longrightarrow> players w a \<noteq> None)"

lemma pair_ok_sym: "pair_ok w p q \<Longrightarrow> pair_ok w q p"
  by (cases p; cases q) (auto simp: pair_ok_def)

lemma pair_ok_live:
  assumes "pair_ok w (Some a) (Some b)"
  obtains x y where "players w a = Some x" and "players w b = Some y" and "a \<noteq> b"
  using assms unfolding pair_ok_def by (metis not_None_eq option.inject)

lemma parties_pair_ok:
  assumes "world_ok k L w" and "invs w i = Some u"
    and "clients w (inv_src u) = Some s" and "clients w (inv_target u) = Some t"
  shows "pair_ok w (c_player s) (c_player t)"
proof -
  have "player_of w (inv_src u) = c_player s" "player_of w (inv_target u) = c_player t"
    using assms(3,4) by (simp_all add: player_of_def)
  with world_okD(3) [OF assms(1)] assms(2) show ?thesis
    unfolding players_ok_def pair_ok_def by metis
qed

lemma post_players:
  assumes "players_ok w" and "players w a = Some x" and "players w b = Some y" and "a \<noteq> b"
  shows "players_ok (w\<lparr>players := (players w)(a := Some (x\<lparr>rating := r\<rparr>), b := Some (y\<lparr>rating := s\<rparr>))\<rparr>)"
proof -
  have "p_ref_count x \<noteq> 0" "p_name x \<noteq> None" "p_ref_count y \<noteq> 0" "p_name y \<noteq> None"
    using assms(1-3) unfolding players_ok_def by blast+
  then show ?thesis
    using players_ok_update [OF players_ok_update [OF assms(1,2)], of "x\<lparr>rating := r\<rparr>" b y "y\<lparr>rating := s\<rparr>"]
      assms(3,4) by simp
qed

lemma post_result_value:
  assumes "players w a = Some x" and "players w b = Some y" and "a \<noteq> b"
  shows "\<exists>r s. w_player_post_result (Some a) (Some b) res w =
    Some (w\<lparr>players := (players w)(a := Some (x\<lparr>rating := r\<rparr>), b := Some (y\<lparr>rating := s\<rparr>))\<rparr>)"
  using assms by (simp add: w_player_post_result_def post_result_def Let_def) blast

lemma ok_post_result:
  assumes "world_ok k L w" and "pair_ok w p q"
  shows "\<exists>w'. w_player_post_result p q res w = Some w' \<and> world_ok k L w' \<and> evo w w'"
proof (cases "p = None \<or> q = None")
  case True
  then show ?thesis using assms(1) by (auto simp: w_player_post_result_def split: option.splits)
next
  case False
  then obtain a b where ab: "p = Some a" "q = Some b" by auto
  obtain x y where xy: "players w a = Some x" "players w b = Some y" "a \<noteq> b"
    using assms(2) unfolding ab by (rule pair_ok_live)
  obtain r s where eq: "w_player_post_result (Some a) (Some b) res w =
      Some (w\<lparr>players := (players w)(a := Some (x\<lparr>rating := r\<rparr>), b := Some (y\<lparr>rating := s\<rparr>))\<rparr>)"
    using post_result_value [OF xy] by blast
  have "players_ok (w\<lparr>players := (players w)(a := Some (x\<lparr>rating := r\<rparr>), b := Some (y\<lparr>rating := s\<rparr>))\<rparr>)"
    using post_players [OF world_okD(3) [OF assms(1)] xy] .
  moreover have "tags (w\<lparr>players := (players w)(a := Some (x\<lparr>rating := r\<rparr>), b := Some (y\<lparr>rating := s\<rparr>))\<rparr>) = tags w"
    using xy by (auto simp: tags_def fun_eq_iff)
  ultimately show ?thesis using world_ok_players [OF assms(1)] eq ab by blast
qed

text \<open>The statements that post a result while the two players are referenced.\<close>

lemma player_ref_value:
  "players w a = Some x \<Longrightarrow> w_player_ref (Some a) w =
     Some (Some a, w\<lparr>players := (players w)(a := Some (x\<lparr>p_ref_count := p_ref_count x + 1\<rparr>))\<rparr>)"
  by (simp add: w_player_ref_def player_ref_def size_inc_def)

lemma player_ref_NULL [simp]: "w_player_ref None w = Some (None, w)" "w_player_unref None w = Some w"
  by (simp_all add: w_player_ref_def w_player_unref_def)

lemma player_unref_value:
  "players w a = Some x \<Longrightarrow> p_ref_count x \<noteq> 1 \<Longrightarrow> w_player_unref (Some a) w =
     Some (w\<lparr>players := (players w)(a := Some (x\<lparr>p_ref_count := p_ref_count x - 1\<rparr>))\<rparr>)"
  by (simp add: w_player_unref_def player_unref_def size_dec_def)

lemma player_ref_unref:
  assumes "players_ok w" and "players w a = Some x"
  shows "w_player_unref (Some a) (w\<lparr>players := (players w)(a := Some (x\<lparr>p_ref_count := p_ref_count x + 1\<rparr>))\<rparr>) = Some w"
proof -
  have "p_ref_count x \<noteq> 0" using assms unfolding players_ok_def by blast
  then show ?thesis
    using player_unref_value [of "w\<lparr>players := (players w)(a := Some (x\<lparr>p_ref_count := p_ref_count x + 1\<rparr>))\<rparr>" a
        "x\<lparr>p_ref_count := p_ref_count x + 1\<rparr>"] assms(2)
    by (simp add: fun_upd_idem)
qed

lemma ok_ref_post_unref:
  assumes "world_ok k L w" and "pair_ok w p q" and "(p', q') = (p, q) \<or> (p', q') = (q, p)"
  shows "\<exists>w1 w2 w3 w4 w5. w_player_ref p w = Some (p, w1) \<and> w_player_ref q w1 = Some (q, w2) \<and>
    w_player_post_result p' q' res w2 = Some w3 \<and> w_player_unref p w3 = Some w4 \<and>
    w_player_unref q w4 = Some w5 \<and> world_ok k L w5 \<and> evo w w5 \<and> clients w1 = clients w"
proof -
  note pok = world_okD(3) [OF assms(1)]
  consider "p = None" "q = None" | a where "p = Some a" "q = None" | b where "p = None" "q = Some b"
    | a b where "p = Some a" "q = Some b" by (cases p; cases q) auto
  then show ?thesis
  proof cases
    case 1
    then show ?thesis using assms(1,3) by (auto simp: w_player_post_result_def)
  next
    case (2 a)
    then obtain x where x: "players w a = Some x" using assms(2) by (auto simp: pair_ok_def)
    show ?thesis using 2 assms(1,3) player_ref_value [OF x] player_ref_unref [OF pok x]
      by (auto simp: w_player_post_result_def split: option.splits)
  next
    case (3 b)
    then obtain x where x: "players w b = Some x" using assms(2) by (auto simp: pair_ok_def)
    show ?thesis using 3 assms(1,3) player_ref_value [OF x] player_ref_unref [OF pok x]
      by (auto simp: w_player_post_result_def split: option.splits)
  next
    case (4 a b)
    obtain x y where xy: "players w a = Some x" "players w b = Some y" "a \<noteq> b"
      using assms(2) unfolding 4 by (rule pair_ok_live)
    have nz: "p_ref_count x \<noteq> 0" "p_ref_count y \<noteq> 0" using pok xy unfolding players_ok_def by blast+
    let ?x = "x\<lparr>p_ref_count := p_ref_count x + 1\<rparr>" and ?y = "y\<lparr>p_ref_count := p_ref_count y + 1\<rparr>"
    let ?w1 = "w\<lparr>players := (players w)(a := Some ?x)\<rparr>"
    let ?w2 = "w\<lparr>players := (players w)(a := Some ?x, b := Some ?y)\<rparr>"
    have r1: "w_player_ref p w = Some (p, ?w1)" using player_ref_value [OF xy(1)] 4 by simp
    have r2: "w_player_ref q ?w1 = Some (q, ?w2)" using player_ref_value [of ?w1 b y] xy 4 by simp
    obtain r s where post: "w_player_post_result p' q' res ?w2 =
        Some (w\<lparr>players := (players w)(a := Some (?x\<lparr>rating := r\<rparr>), b := Some (?y\<lparr>rating := s\<rparr>))\<rparr>)"
      using post_result_value [of ?w2 a ?x b ?y res] post_result_value [of ?w2 b ?y a ?x res] xy(3) assms(3) 4
      by (auto simp: fun_upd_twist)
    let ?w3 = "w\<lparr>players := (players w)(a := Some (?x\<lparr>rating := r\<rparr>), b := Some (?y\<lparr>rating := s\<rparr>))\<rparr>"
    let ?w4 = "w\<lparr>players := (players w)(a := Some (x\<lparr>rating := r\<rparr>), b := Some (?y\<lparr>rating := s\<rparr>))\<rparr>"
    let ?w5 = "w\<lparr>players := (players w)(a := Some (x\<lparr>rating := r\<rparr>), b := Some (y\<lparr>rating := s\<rparr>))\<rparr>"
    have u1: "w_player_unref p ?w3 = Some ?w4"
      using player_unref_value [of ?w3 a "?x\<lparr>rating := r\<rparr>"] xy(3) nz(1) 4 by (simp add: fun_upd_twist)
    have u2: "w_player_unref q ?w4 = Some ?w5"
      using player_unref_value [of ?w4 b "?y\<lparr>rating := s\<rparr>"] xy(3) nz(2) 4 by simp
    have "tags ?w5 = tags w" using xy by (auto simp: tags_def fun_eq_iff)
    note w5 = world_ok_players [OF assms(1) post_players [OF pok xy] this]
    show ?thesis
      by (intro exI [of _ ?w1] exI [of _ ?w2] exI [of _ ?w3] exI [of _ ?w4] exI [of _ ?w5])
         (use r1 r2 post u1 u2 w5 in simp)
  qed
qed

subsection \<open>Creating invitations\<close>

lemma ok_inv_create:
  assumes "world_ok (Suc (Suc (Suc k))) L w" and "clients w s = Some sv" and "clients w t = Some tv"
    and "s \<noteq> t" and "srole \<noteq> NULL_ROLE" and "trole \<noteq> NULL_ROLE"
    and "c_player sv \<noteq> None" and "c_player tv \<noteq> None" and "c_player sv \<noteq> c_player tv"
  shows "\<exists>i w' u sv' tv'. inv_create (Some s) (Some t) srole trole w = Some (Some i, w') \<and>
    world_ok k (add_mset (Unref_Inv i) L) w' \<and> evo w w' \<and> invs w' i = Some u \<and> i_ref_count u = 1 \<and>
    inv_src u = s \<and> inv_target u = t \<and> inv_game u = None \<and>
    clients w' s = Some sv' \<and> clients w' t = Some tv' \<and> c_player sv' = c_player sv"
proof -
  let ?sv = "sv\<lparr>c_ref_count := size_inc (c_ref_count sv)\<rparr>" and ?tv = "tv\<lparr>c_ref_count := size_inc (c_ref_count tv)\<rparr>"
  let ?n = "next_addr w"
  let ?u = "\<lparr>inv_src = s, inv_target = t, src_role = srole, target_role = trole, inv_game = None,
          inv_state = INV_OPEN_STATE, state_locked = False, i_ref_count = 1\<rparr>"
  let ?w1 = "w\<lparr>clients := (clients w)(s := Some ?sv)\<rparr>"
  let ?w2 = "?w1\<lparr>clients := (clients ?w1)(t := Some ?tv)\<rparr>"
  let ?w3 = "?w2\<lparr>next_addr := Suc ?n\<rparr>"
  let ?w4 = "?w3\<lparr>invs := (invs ?w3)(?n := Some ?u)\<rparr>"
  have fr: "invs w ?n = None" "?n \<notin> dom (clients w)" using assms(1)
    by (auto simp: world_ok_def shape_ok_def fresh_from_def)
  have 1: "world_ok (Suc (Suc k)) (add_mset (Unref_Client s) L) ?w1" "evo w ?w1"
    using ok_client_ref [OF assms(1,2)] client_ref_live [OF assms(2)] by auto
  have t1: "clients ?w1 t = Some tv" using assms(3,4) by simp
  have 2: "world_ok (Suc k) (add_mset (Unref_Client t) (add_mset (Unref_Client s) L)) ?w2" "evo ?w1 ?w2"
    using ok_client_ref [OF 1(1) t1] client_ref_live [OF t1] by auto
  note c2 = world_okD(1) [OF 2(1)]
  have h: "held ?w4 = held ?w2 + {#Unref_Client s, Unref_Client t#}"
    using map_sum_insert [of "invs w" ?n inv_holds ?u] counts_ok_finite [OF c2] fr(1)
    by (simp add: held_map_sum creg_holds_def creg_slots_def inv_holds_def)
  have "counts_ok (add_mset (Unref_Inv ?n) L) ?w4"
  proof (rule counts_ok_new [OF c2, of _ _ "Unref_Inv ?n"])
    show "held ?w4 + add_mset (Unref_Inv ?n) L =
        add_mset (Unref_Inv ?n) (held ?w2 + add_mset (Unref_Client t) (add_mset (Unref_Client s) L))"
      unfolding h by simp
    show "stored ?w4 y = stored ?w2 y" if "y \<noteq> Unref_Inv ?n" for y using that by (cases y) auto
  qed (use counts_ok_finite [OF c2] fr in simp_all)
  moreover have "shape_ok ?w4"
  proof -
    have s: "shape_ok ?w2" by (rule world_ok_shape [OF 2(1)])
    have p: "player_of ?w4 d = player_of ?w2 d" for d by (simp add: player_of_def)
    have "player_of ?w2 s = c_player sv" "player_of ?w2 t = c_player tv"
      using assms(4) by (simp_all add: player_of_def)
    then have "players_ok ?w4"
      using s assms(9) unfolding shape_ok_def players_ok_def p by (auto split: if_splits)
    moreover have "fresh_from ?w4" using s by (auto simp: shape_ok_def fresh_from_def)
    moreover have "inv_wf ?u" using assms(4-6) by (simp add: inv_wf_def inv_ok_def)
    ultimately show ?thesis using s by (simp add: shape_ok_def)
  qed
  ultimately have "world_ok k (add_mset (Unref_Inv ?n) L) ?w4"
    using 2(1) h by (simp add: world_ok_def)
  moreover have "evo ?w2 ?w4"
  proof -
    have "player_of ?w2 s \<noteq> None" "player_of ?w2 t \<noteq> None"
      using assms(4,7,8) by (simp_all add: player_of_def)
    then have "heirs ?w2 ?w4" by (simp add: heirs_def)
    then show ?thesis by (simp add: evo_def)
  qed
  moreover have "inv_create (Some s) (Some t) srole trole w = Some (Some ?n, ?w4)"
    using inv_create_result [OF assms(2,3) world_okD(2) [OF assms(1)] fr(1), of srole trole] assms(4-6)
    by (simp add: size_inc_def)
  ultimately show ?thesis
    using evo_trans [OF evo_trans [OF 1(2) 2(2)]] assms(4)
    by (intro exI [of _ ?n] exI [of _ ?w4] exI [of _ ?u] exI [of _ ?sv] exI [of _ ?tv]) simp
qed

end
