(* ===== verification/Client_Safety.thy ===== *)
theory Client_Safety
  imports Safety
begin

text \<open>
  The operations of a client keep the invariant of the whole state and always return: no operation
  touches freed memory, reads through \<open>NULL\<close>, leaves a table out of bounds, or blocks for ever, and
  every reference that an operation takes is given back on every branch.
\<close>

subsection \<open>Facts about live structures\<close>

lemma read_slot_ok:
  assumes "world_ok k L w" and "clients w c = Some v" and "ident < invs_cap v"
  shows "read_slot c ident w = Some (invs_lst v ! ident)"
    and "invs_lst v ! ident = Some i \<Longrightarrow> \<exists>u. invs w i = Some u"
proof -
  have l: "ident < length (invs_lst v)" using world_okD(4) [OF assms(1,2)] assms(3) by (simp add: table_ok_def)
  then show "read_slot c ident w = Some (invs_lst v ! ident)" using assms(2) by (simp add: read_slot_def)
  show "\<exists>u. invs w i = Some u" if "invs_lst v ! ident = Some i"
  proof -
    have "Some i \<in> set (invs_lst v)" using l that by (metis nth_mem)
    then show ?thesis using slot_live [OF assms(1,2)] by blast
  qed
qed

lemma local_client:
  assumes "world_ok k L w" and "Unref_Client c \<in># L"
  obtains v where "clients w c = Some v"
  using client_ref_live_of [OF world_okD(1) [OF assms(1)], of c] assms(2) by auto

lemma local_inv:
  assumes "world_ok k L w" and "Unref_Inv i \<in># L"
  obtains v where "invs w i = Some v"
  using inv_ref_live_of [OF world_okD(1) [OF assms(1)], of i] assms(2) by auto

lemma local_game:
  assumes "world_ok k L w" and "Unref_Game g \<in># L"
  obtains x where "games w g = Some x"
  using game_ref_live_of [OF world_okD(1) [OF assms(1)], of g] assms(2) by auto

text \<open>An invitation that is referenced locally stays, with the same parties and roles.\<close>

lemma local_inv_keeps:
  assumes "world_ok k L w" and "Unref_Inv i \<in># L" and "evo w0 w" and "world_ok k0 L0 w0" and "invs w0 i = Some u"
  obtains u' where "invs w i = Some u'" and "inv_keeps u u'"
proof -
  obtain u' where u': "invs w i = Some u'" by (rule local_inv [OF assms(1,2)])
  have "i < next_addr w0" by (rule world_ok_fresh [OF assms(4)]) (rule assms(5))
  from evo_inv [OF assms(3) this u'] assms(5) u' that show thesis by auto
qed

subsection \<open>Revoking and declining\<close>

text \<open>The common part of \<open>client_revoke_invitation\<close> and \<open>client_decline_invitation\<close>: \<open>get\<close> is the
accessor of the other party.\<close>

definition withdraw ::
  "(nat option \<Rightarrow> world \<Rightarrow> nat option option) \<Rightarrow> JEUX_PACKET_TYPE \<Rightarrow> nat \<Rightarrow> nat option \<Rightarrow> world \<Rightarrow>
   (int \<times> world) option" where
  "withdraw get typ c ip w = do {
     (st, w) \<leftarrow> inv_close ip NULL_ROLE w;
     if st = -1 then do { w \<leftarrow> inv_unref ip w; Some (-1, w) }
     else do {
       (st, w) \<leftarrow> client_remove_invitation (Some c) ip w;
       if st = -1 then do { w \<leftarrow> inv_unref ip w; Some (-1, w) }
       else do {
         other \<leftarrow> get ip w;
         (r, w) \<leftarrow> client_ref other w;
         if r = None then do { w \<leftarrow> inv_unref ip w; Some (-1, w) }
         else do {
           (other_id, w) \<leftarrow> client_remove_invitation other ip w;
           if other_id = -1 then do {
             w \<leftarrow> client_unref other w;
             w \<leftarrow> inv_unref ip w;
             Some (-1, w)
           }
           else do {
             w \<leftarrow> inv_unref ip w;
             (status_ret, w) \<leftarrow> send_pkt other typ other_id NULL_ROLE 0 None w;
             w \<leftarrow> client_unref other w;
             Some (status_ret, w)
           }
         }
       }
     }
   }"

lemma revoke_withdraw:
  "client_revoke_invitation (Some c) ident w = do {
     ip \<leftarrow> read_slot c ident w;
     if ip = None then Some (-1, w)
     else do {
       (_, w) \<leftarrow> inv_ref ip w;
       source \<leftarrow> inv_get_source ip w;
       if Some c \<noteq> source then do { w \<leftarrow> inv_unref ip w; Some (-1, w) }
       else withdraw inv_get_target JEUX_REVOKED_PKT c ip w
     }
   }"
  unfolding client_revoke_invitation_def withdraw_def by simp

lemma decline_withdraw:
  "client_decline_invitation (Some c) ident w = do {
     ip \<leftarrow> read_slot c ident w;
     if ip = None then Some (-1, w)
     else do {
       (_, w) \<leftarrow> inv_ref ip w;
       target \<leftarrow> inv_get_target ip w;
       if Some c \<noteq> target then do { w \<leftarrow> inv_unref ip w; Some (-1, w) }
       else withdraw inv_get_source JEUX_DECLINED_PKT c ip w
     }
   }"
  unfolding client_decline_invitation_def withdraw_def by simp

lemma withdraw_safe:
  assumes "world_ok (Suc k) (add_mset (Unref_Inv i) L) w" and "clients w c = Some v" and "invs w i = Some u"
    and which: "get = inv_get_target \<and> t = inv_target u \<or> get = inv_get_source \<and> t = inv_src u"
  shows "\<exists>st w'. withdraw get typ c (Some i) w = Some (st, w') \<and> world_ok (Suc (Suc k)) L w' \<and> evo w w'"
proof -
  have get: "get (Some i) w' = Some (Some t)" if "invs w' i = Some u'" "inv_keeps u u'" for w' u'
    using which that by (auto simp: inv_keeps_def)
  have t: "t = inv_src u \<or> t = inv_target u" using which by blast
  obtain st1 w1 where 1: "inv_close (Some i) NULL_ROLE w = Some (st1, w1)"
      "world_ok (Suc k) (add_mset (Unref_Inv i) L) w1" "evo w w1" "clients w1 = clients w"
    using ok_inv_close [OF assms(1,3)] by blast
  show ?thesis
  proof (cases "st1 = -1")
    case True
    obtain w2 where "inv_unref (Some i) w1 = Some w2" "world_ok (Suc (Suc k)) L w2" "evo w1 w2"
      using ok_inv_unref [OF 1(2)] by blast
    with 1 True show ?thesis using evo_trans by (auto simp: withdraw_def)
  next
    case st1: False
    obtain u1 where u1: "invs w1 i = Some u1" by (rule local_inv [OF 1(2), of i]) simp
    obtain st2 w2 where 2: "client_remove_invitation (Some c) (Some i) w1 = Some (st2, w2)"
        "world_ok (Suc k) (add_mset (Unref_Inv i) L) w2" "evo w1 w2"
      using ok_remove [OF 1(2) _ u1, of c v] 1(4) assms(2) by auto
    have e2: "evo w w2" by (rule evo_trans [OF 1(3) 2(3)])
    obtain u2 where u2: "invs w2 i = Some u2" "inv_keeps u u2"
      by (rule local_inv_keeps [OF 2(2) _ e2 assms(1,3)]) simp
    show ?thesis
    proof (cases "st2 = -1")
      case True
      obtain w3 where "inv_unref (Some i) w2 = Some w3" "world_ok (Suc (Suc k)) L w3" "evo w2 w3"
        using ok_inv_unref [OF 2(2)] by blast
      with 1 2 st1 True show ?thesis using evo_trans [OF e2] by (auto simp: withdraw_def)
    next
      case st2: False
      have t2: "t = inv_src u2 \<or> t = inv_target u2" using t u2(2) by (simp add: inv_keeps_def)
      obtain tv where "clients w2 t = Some tv"
        using parties_live [OF world_okD(1) [OF 2(2)] u2(1)] t2 by metis
      then obtain w3 where 3: "client_ref (Some t) w2 = Some (Some t, w3)"
          "world_ok k (add_mset (Unref_Client t) (add_mset (Unref_Inv i) L)) w3" "evo w2 w3" "invs w3 = invs w2"
        using ok_client_ref [OF 2(2)] by blast
      obtain tv3 where tv3: "clients w3 t = Some tv3" by (rule local_client [OF 3(2), of t]) simp
      have u3: "invs w3 i = Some u2" using u2(1) 3(4) by simp
      obtain st4 w4 where 4: "client_remove_invitation (Some t) (Some i) w3 = Some (st4, w4)"
          "world_ok k (add_mset (Unref_Client t) (add_mset (Unref_Inv i) L)) w4" "evo w3 w4"
        using ok_remove [OF 3(2) tv3 u3] by auto
      have e4: "evo w w4" using evo_trans [OF evo_trans [OF e2 3(3)] 4(3)] .
      note eqs = 1(1) st1 2(1) st2 get [OF u2] 3(1) 4(1)
      show ?thesis
      proof (cases "st4 = -1")
        case True
        obtain w5 where 5: "client_unref (Some t) w4 = Some w5"
            "world_ok (Suc k) (add_mset (Unref_Inv i) L) w5" "evo w4 w5"
          using ok_client_unref [OF 4(2)] by blast
        obtain w6 where 6: "inv_unref (Some i) w5 = Some w6" "world_ok (Suc (Suc k)) L w6" "evo w5 w6"
          using ok_inv_unref [OF 5(2)] by blast
        have "withdraw get typ c (Some i) w = Some (-1, w6)" using eqs True 5(1) 6(1) by (simp add: withdraw_def)
        with 6(2) evo_trans [OF evo_trans [OF e4 5(3)] 6(3)] show ?thesis by blast
      next
        case False
        have "world_ok k (add_mset (Unref_Inv i) (add_mset (Unref_Client t) L)) w4"
          using 4(2) by (simp only: add_mset_commute)
        then obtain w5 where 5: "inv_unref (Some i) w4 = Some w5"
            "world_ok (Suc k) (add_mset (Unref_Client t) L) w5" "evo w4 w5"
          using ok_inv_unref by blast
        obtain tv5 where tv5: "clients w5 t = Some tv5" by (rule local_client [OF 5(2), of t]) simp
        obtain st6 o6 where 6: "send_pkt (Some t) typ st4 NULL_ROLE 0 None w5 = Some (st6, w5\<lparr>os := o6\<rparr>)"
            "world_ok (Suc k) (add_mset (Unref_Client t) L) (w5\<lparr>os := o6\<rparr>)" "evo w5 (w5\<lparr>os := o6\<rparr>)"
          using ok_send_empty [OF 5(2) tv5] by blast
        obtain w7 where 7: "client_unref (Some t) (w5\<lparr>os := o6\<rparr>) = Some w7" "world_ok (Suc (Suc k)) L w7"
            "evo (w5\<lparr>os := o6\<rparr>) w7"
          using ok_client_unref [OF 6(2)] by blast
        have "withdraw get typ c (Some i) w = Some (st6, w7)"
          using eqs False 5(1) 6(1) 7(1) by (simp add: withdraw_def)
        with 7(2) evo_trans [OF evo_trans [OF evo_trans [OF e4 5(3)] 6(3)] 7(3)]
        show ?thesis by blast
      qed
    qed
  qed
qed

lemma slot_ref:
  assumes "world_ok (Suc k) L w" and "clients w c = Some v" and "ident < invs_cap v"
    and "invs_lst v ! ident = Some i"
  obtains u u1 w1 where "invs w i = Some u" and "inv_ref (Some i) w = Some (Some i, w1)"
    and "world_ok k (add_mset (Unref_Inv i) L) w1" and "evo w w1" and "clients w1 = clients w"
    and "games w1 = games w" and "invs w1 i = Some u1" and "inv_keeps u u1" and "inv_wf u1"
    and "inv_state u1 = inv_state u" and "inv_game u1 = inv_game u"
proof -
  obtain u where u: "invs w i = Some u" using read_slot_ok(2) [OF assms] by blast
  from ok_inv_ref [OF assms(1) u] world_okD(5) [OF assms(1) u] u show thesis
    by (auto simp: inv_keeps_def intro!: that)
qed

lemma revoke_safe:
  assumes "world_ok (Suc (Suc k)) L w" and "clients w c = Some v" and "ident < invs_cap v"
  shows "\<exists>st w'. client_revoke_invitation (Some c) ident w = Some (st, w') \<and>
    world_ok (Suc (Suc k)) L w' \<and> evo w w'"
proof (cases "invs_lst v ! ident")
  case None
  then show ?thesis using read_slot_ok(1) [OF assms] assms(1) by (simp add: revoke_withdraw)
next
  case (Some i)
  obtain u u1 w1 where 1: "inv_ref (Some i) w = Some (Some i, w1)"
    "world_ok (Suc k) (add_mset (Unref_Inv i) L) w1" "evo w w1" "clients w1 = clients w"
    "invs w1 i = Some u1"
    by (rule slot_ref [OF assms Some])
  show ?thesis
  proof (cases "inv_src u1 = c")
    case False
    obtain w2 where "inv_unref (Some i) w1 = Some w2" "world_ok (Suc (Suc k)) L w2" "evo w1 w2"
      using ok_inv_unref [OF 1(2)] by blast
    with 1 False Some read_slot_ok(1) [OF assms] show ?thesis
      using evo_trans by (auto simp: revoke_withdraw)
  next
    case True
    have c1: "clients w1 c = Some v" using 1(4) assms(2) by simp
    obtain st w2 where "withdraw inv_get_target JEUX_REVOKED_PKT c (Some i) w1 = Some (st, w2)"
        "world_ok (Suc (Suc k)) L w2" "evo w1 w2"
      using withdraw_safe [OF 1(2) c1 1(5), of inv_get_target "inv_target u1"] by blast
    with 1 True Some read_slot_ok(1) [OF assms] show ?thesis
      using evo_trans by (auto simp: revoke_withdraw)
  qed
qed

lemma decline_safe:
  assumes "world_ok (Suc (Suc k)) L w" and "clients w c = Some v" and "ident < invs_cap v"
  shows "\<exists>st w'. client_decline_invitation (Some c) ident w = Some (st, w') \<and>
    world_ok (Suc (Suc k)) L w' \<and> evo w w'"
proof (cases "invs_lst v ! ident")
  case None
  then show ?thesis using read_slot_ok(1) [OF assms] assms(1) by (simp add: decline_withdraw)
next
  case (Some i)
  obtain u u1 w1 where 1: "inv_ref (Some i) w = Some (Some i, w1)"
    "world_ok (Suc k) (add_mset (Unref_Inv i) L) w1" "evo w w1" "clients w1 = clients w"
    "invs w1 i = Some u1"
    by (rule slot_ref [OF assms Some])
  show ?thesis
  proof (cases "inv_target u1 = c")
    case False
    obtain w2 where "inv_unref (Some i) w1 = Some w2" "world_ok (Suc (Suc k)) L w2" "evo w1 w2"
      using ok_inv_unref [OF 1(2)] by blast
    with 1 False Some read_slot_ok(1) [OF assms] show ?thesis
      using evo_trans by (auto simp: decline_withdraw)
  next
    case True
    have c1: "clients w1 c = Some v" using 1(4) assms(2) by simp
    obtain st w2 where "withdraw inv_get_source JEUX_DECLINED_PKT c (Some i) w1 = Some (st, w2)"
        "world_ok (Suc (Suc k)) L w2" "evo w1 w2"
      using withdraw_safe [OF 1(2) c1 1(5), of inv_get_source "inv_src u1"] by blast
    with 1 True Some read_slot_ok(1) [OF assms] show ?thesis
      using evo_trans by (auto simp: decline_withdraw)
  qed
qed

subsection \<open>Accepting\<close>

lemma unparse_ok:
  assumes "world_ok k L w" and "games w g = Some x"
  shows "\<exists>s. w_game_unparse_state (Some g) w = Some (Some s, w)"
  using assms(2) world_okD(2) [OF assms(1)]
  by (simp add: w_game_unparse_state_def game_unparse_state_def)

lemma accept_safe:
  assumes "world_ok (Suc (Suc (Suc (Suc k)))) L w" and "clients w c = Some v" and "ident < invs_cap v"
  shows "\<exists>r w'. client_accept_invitation (Some c) ident w = Some (r, w') \<and>
    world_ok (Suc (Suc (Suc k))) L w' \<and> evo w w'"
proof (cases "invs_lst v ! ident")
  case None
  then show ?thesis using read_slot_ok(1) [OF assms] world_ok_mono [OF assms(1)]
    by (simp add: client_accept_invitation_def)
next
  case (Some i)
  note rd = read_slot_ok(1) [OF assms]
  obtain u u1 w1 where 1: "inv_ref (Some i) w = Some (Some i, w1)"
    "world_ok (Suc (Suc (Suc k))) (add_mset (Unref_Inv i) L) w1" "evo w w1" "clients w1 = clients w"
    "invs w1 i = Some u1"
    by (rule slot_ref [OF assms Some])
  show ?thesis
  proof (cases "inv_target u1 = c")
    case False
    obtain w2 where 2: "inv_unref (Some i) w1 = Some w2" "world_ok (Suc (Suc (Suc (Suc k)))) L w2" "evo w1 w2"
      using ok_inv_unref [OF 1(2)] by blast
    then have "client_accept_invitation (Some c) ident w = Some ((-1, None), w2)"
      using 1 False Some rd by (auto simp: client_accept_invitation_def)
    then show ?thesis using world_ok_mono [OF 2(2)] evo_trans [OF 1(3) 2(3)] by auto
  next
    case tgt: True
    obtain st w2 where 2: "inv_accept (Some i) w1 = Some (st, w2)"
        "world_ok (Suc (Suc k)) (add_mset (Unref_Inv i) L) w2" "evo w1 w2" "clients w2 = clients w1"
        "st = -1 \<or> st = 0 \<and> (\<exists>v' a. invs w2 i = Some v' \<and> inv_game v' = Some a)"
      using ok_inv_accept [OF 1(2) 1(5)] by blast
    have e2: "evo w w2" by (rule evo_trans [OF 1(3) 2(3)])
    show ?thesis
    proof (cases "st = -1")
      case True
      obtain w3 where 3: "inv_unref (Some i) w2 = Some w3" "world_ok (Suc (Suc (Suc k))) L w3" "evo w2 w3"
        using ok_inv_unref [OF 2(2)] by blast
      then have "client_accept_invitation (Some c) ident w = Some ((-1, None), w3)"
        using 1 2 tgt True Some rd by (simp add: client_accept_invitation_def)
      then show ?thesis using 3(2) evo_trans [OF e2 3(3)] by auto
    next
      case st: False
      then obtain u2 g where u2: "invs w2 i = Some u2" "inv_game u2 = Some g" using 2(5) by blast
      let ?s = "inv_src u2" and ?L = "add_mset (Unref_Inv i) L"
      obtain sv where "clients w2 ?s = Some sv"
        using parties_live [OF world_okD(1) [OF 2(2)] u2(1)] by metis
      then obtain w3 where 3: "client_ref (Some ?s) w2 = Some (Some ?s, w3)"
          "world_ok (Suc k) (add_mset (Unref_Client ?s) ?L) w3" "evo w2 w3" "invs w3 = invs w2"
        using ok_client_ref [OF 2(2)] by blast
      have u3: "invs w3 i = Some u2" using u2(1) 3(4) by simp
      obtain x where x: "games w3 g = Some x"
        by (rule inv_game_live [OF world_okD(1) [OF 3(2)] u3 u2(2)])
      obtain w4 where 4: "w_game_ref (Some g) w3 = Some (Some g, w4)"
          "world_ok k (add_mset (Unref_Game g) (add_mset (Unref_Client ?s) ?L)) w4" "evo w3 w4"
          "clients w4 = clients w3" "invs w4 = invs w3"
        using ok_game_ref [OF 3(2) x] by blast
      obtain x4 where x4: "games w4 g = Some x4" by (rule local_game [OF 4(2), of g]) simp
      obtain str where str: "w_game_unparse_state (Some g) w4 = Some (Some str, w4)"
        using unparse_ok [OF 4(2) x4] by blast
      obtain w5 where 5: "w_game_unref (Some g) w4 = Some w5"
          "world_ok (Suc k) (add_mset (Unref_Client ?s) ?L) w5" "evo w4 w5"
        using ok_game_unref [OF 4(2)] by blast
      obtain sv5 where sv5: "clients w5 ?s = Some sv5" by (rule local_client [OF 5(2), of ?s]) simp
      obtain n where n: "search_inv_lst_safe (Some ?s) (Some i) w5 = Some n"
        using search_result [OF sv5 world_okD(4) [OF 5(2) sv5]] by blast
      have e5: "evo w w5" using evo_trans [OF evo_trans [OF e2 3(3)] evo_trans [OF 4(3) 5(3)]] .
      let ?strp = "if src_role u2 = FIRST_PLAYER_ROLE then None else Some str"
      note eqs = rd Some 1(1) 1(5) tgt 2(1) st u2(1) 3(1) u3 u2(2) 4(1) str 5(1) n
      show ?thesis
      proof (cases "n = -1")
        case True
        obtain w6 where 6: "client_unref (Some ?s) w5 = Some w6" "world_ok (Suc (Suc k)) ?L w6" "evo w5 w6"
          using ok_client_unref [OF 5(2)] by blast
        obtain w7 where 7: "inv_unref (Some i) w6 = Some w7" "world_ok (Suc (Suc (Suc k))) L w7" "evo w6 w7"
          using ok_inv_unref [OF 6(2)] by blast
        have "client_accept_invitation (Some c) ident w = Some ((-1, ?strp), w7)"
          using eqs True 6(1) 7(1) by (simp add: client_accept_invitation_def)
        then show ?thesis using 7(2) evo_trans [OF evo_trans [OF e5 6(3)] 7(3)] by blast
      next
        case False
        have "world_ok (Suc k) (add_mset (Unref_Inv i) (add_mset (Unref_Client ?s) L)) w5"
          using 5(2) by (simp only: add_mset_commute)
        then obtain w6 where 6: "inv_unref (Some i) w5 = Some w6"
            "world_ok (Suc (Suc k)) (add_mset (Unref_Client ?s) L) w6" "evo w5 w6"
          using ok_inv_unref by blast
        obtain sv6 where sv6: "clients w6 ?s = Some sv6" by (rule local_client [OF 6(2), of ?s]) simp
        let ?d = "if src_role u2 = FIRST_PLAYER_ROLE then Some (bytes_of str) else None"
        let ?n = "if src_role u2 = FIRST_PLAYER_ROLE then length str else 0"
        obtain st7 o7 where 7: "send_pkt (Some ?s) JEUX_ACCEPTED_PKT n (src_role u2) ?n ?d w6 = Some (st7, w6\<lparr>os := o7\<rparr>)"
            "world_ok (Suc (Suc k)) (add_mset (Unref_Client ?s) L) (w6\<lparr>os := o7\<rparr>)" "evo w6 (w6\<lparr>os := o7\<rparr>)"
          using ok_send_text [OF 6(2) sv6, of JEUX_ACCEPTED_PKT n "src_role u2" str]
            ok_send_empty [OF 6(2) sv6, of JEUX_ACCEPTED_PKT n "src_role u2"]
          by (cases "src_role u2 = FIRST_PLAYER_ROLE") auto
        obtain w8 where 8: "client_unref (Some ?s) (w6\<lparr>os := o7\<rparr>) = Some w8" "world_ok (Suc (Suc (Suc k))) L w8"
            "evo (w6\<lparr>os := o7\<rparr>) w8"
          using ok_client_unref [OF 7(2)] by blast
        have "client_accept_invitation (Some c) ident w = Some ((st7, ?strp), w8)"
          using eqs False 6(1) 7(1) 8(1)
          by (cases "src_role u2 = FIRST_PLAYER_ROLE") (simp_all add: client_accept_invitation_def)
        then show ?thesis
          using 8(2) evo_trans [OF evo_trans [OF evo_trans [OF e5 6(3)] 7(3)] 8(3)] by blast
      qed
    qed
  qed
qed

end
