(* ===== verification/Play_Safety.thy ===== *)
theory Play_Safety
  imports Client_Safety
begin

text \<open>
  Safety of the operations on games: resigning, moving, making an invitation, and logging out.
\<close>

subsection \<open>Resigning\<close>

lemma winner_value: "games w g = Some x \<Longrightarrow> w_game_get_winner (Some g) w = Some (winner x)"
  by (simp add: w_game_get_winner_def game_get_winner_def get_winner_def)

text \<open>From the state in which both tables were cleared: the three packets and the result.\<close>

definition resign_tail :: "nat \<Rightarrow> nat \<Rightarrow> nat option \<Rightarrow> GAME_ROLE \<Rightarrow> nat option \<Rightarrow> int \<Rightarrow> world \<Rightarrow> (int \<times> world) option" where
  "resign_tail c ident ip role other other_id w = do {
     (_, w) \<leftarrow> send_pkt other JEUX_RESIGNED_PKT other_id NULL_ROLE 0 None w;
     gp \<leftarrow> inv_get_game ip w;
     win \<leftarrow> w_game_get_winner gp w;
     (_, w) \<leftarrow> send_pkt (Some c) JEUX_ENDED_PKT (int ident) win 0 None w;
     (status, w) \<leftarrow> send_pkt other JEUX_ENDED_PKT other_id win 0 None w;
     me_player \<leftarrow> client_get_player (Some c) w;
     other_player \<leftarrow> client_get_player other w;
     let (p1, p2) = (if role = FIRST_PLAYER_ROLE then (me_player, other_player)
                     else (other_player, me_player));
     w \<leftarrow> w_player_post_result p1 p2 (role_code win) w;
     w \<leftarrow> client_unref other w;
     w \<leftarrow> inv_unref ip w;
     Some (status, w)
   }"

lemma resign_tail_safe:
  assumes "world_ok k (add_mset (Unref_Client t) (add_mset (Unref_Inv i) L)) w" and "invs w i = Some u"
    and "inv_game u = Some g"
    and parties: "c = inv_src u \<and> t = inv_target u \<or> c = inv_target u \<and> t = inv_src u"
  shows "\<exists>st w'. resign_tail c ident (Some i) role (Some t) n w = Some (st, w') \<and>
    world_ok (Suc (Suc k)) L w' \<and> evo w w'"
proof -
  let ?L = "add_mset (Unref_Client t) (add_mset (Unref_Inv i) L)"
  obtain s v where "clients w (inv_src u) = Some s" "clients w (inv_target u) = Some v"
    by (rule parties_live [OF world_okD(1) [OF assms(1)] assms(2)])
  then obtain cv tv where cv: "clients w c = Some cv" and tv: "clients w t = Some tv" using parties by metis
  obtain x where x: "games w g = Some x"
    by (rule inv_game_live [OF world_okD(1) [OF assms(1)] assms(2,3)])
  obtain s1 o1 where 1: "send_pkt (Some t) JEUX_RESIGNED_PKT n NULL_ROLE 0 None w = Some (s1, w\<lparr>os := o1\<rparr>)"
      "world_ok k ?L (w\<lparr>os := o1\<rparr>)" "evo w (w\<lparr>os := o1\<rparr>)"
    using ok_send_empty [OF assms(1) tv] by blast
  let ?w1 = "w\<lparr>os := o1\<rparr>"
  have cv1: "clients ?w1 c = Some cv" and tv1: "clients ?w1 t = Some tv" and u1: "invs ?w1 i = Some u"
    and x1: "games ?w1 g = Some x" using cv tv x assms(2) by simp_all
  obtain s2 o2 where 2: "send_pkt (Some c) JEUX_ENDED_PKT (int ident) (winner x) 0 None ?w1 = Some (s2, ?w1\<lparr>os := o2\<rparr>)"
      "world_ok k ?L (?w1\<lparr>os := o2\<rparr>)" "evo ?w1 (?w1\<lparr>os := o2\<rparr>)"
    using ok_send_empty [OF 1(2) cv1] by blast
  let ?w2 = "?w1\<lparr>os := o2\<rparr>"
  have tv2: "clients ?w2 t = Some tv" using tv by simp
  obtain s3 o3 where 3: "send_pkt (Some t) JEUX_ENDED_PKT n (winner x) 0 None ?w2 = Some (s3, ?w2\<lparr>os := o3\<rparr>)"
      "world_ok k ?L (?w2\<lparr>os := o3\<rparr>)" "evo ?w2 (?w2\<lparr>os := o3\<rparr>)"
    using ok_send_empty [OF 2(2) tv2] by blast
  let ?w3 = "?w2\<lparr>os := o3\<rparr>"
  have cv3: "clients ?w3 c = Some cv" and tv3: "clients ?w3 t = Some tv" and u3: "invs ?w3 i = Some u"
    using cv tv assms(2) by simp_all
  have "pair_ok ?w3 (c_player cv) (c_player tv)"
  proof (cases "c = inv_src u \<and> t = inv_target u")
    case True
    then show ?thesis using parties_pair_ok [OF 3(2) u3, of cv tv] cv3 tv3 by simp
  next
    case False
    with parties have "c = inv_target u" "t = inv_src u" by auto
    then have "pair_ok ?w3 (c_player tv) (c_player cv)"
      using parties_pair_ok [OF 3(2) u3, of tv cv] cv3 tv3 by simp
    then show ?thesis by (rule pair_ok_sym)
  qed
  then have "pair_ok ?w3 (if role = FIRST_PLAYER_ROLE then c_player cv else c_player tv)
      (if role = FIRST_PLAYER_ROLE then c_player tv else c_player cv)"
    using pair_ok_sym by simp
  from ok_post_result [OF 3(2) this, of "role_code (winner x)"] obtain w4 where
    4: "w_player_post_result (if role = FIRST_PLAYER_ROLE then c_player cv else c_player tv)
      (if role = FIRST_PLAYER_ROLE then c_player tv else c_player cv) (role_code (winner x)) ?w3 = Some w4"
      "world_ok k ?L w4" "evo ?w3 w4" by blast
  obtain w5 where 5: "client_unref (Some t) w4 = Some w5" "world_ok (Suc k) (add_mset (Unref_Inv i) L) w5" "evo w4 w5"
    using ok_client_unref [OF 4(2)] by blast
  obtain w6 where 6: "inv_unref (Some i) w5 = Some w6" "world_ok (Suc (Suc k)) L w6" "evo w5 w6"
    using ok_inv_unref [OF 5(2)] by blast
  have "resign_tail c ident (Some i) role (Some t) n w = Some (s3, w6)"
    using 1(1) 2(1) 3(1) 4(1) 5(1) 6(1) inv_get_live(5) [OF u1] assms(3) winner_value [OF x1]
      client_get_player_live [OF cv3] client_get_player_live [OF tv3]
    by (cases "role = FIRST_PLAYER_ROLE") (simp_all add: resign_tail_def)
  moreover have "evo w w6"
    using evo_trans [OF evo_trans [OF evo_trans [OF 1(3) 2(3)] 3(3)] evo_trans [OF evo_trans [OF 4(3) 5(3)] 6(3)]] .
  ultimately show ?thesis using 6(2) by blast
qed

lemma resign_as_tail:
  "resign_as c ident ip role other w = do {
     (st, w) \<leftarrow> inv_close ip role w;
     if st = -1 then do { w \<leftarrow> inv_unref ip w; Some (-1, w) }
     else do {
       (st, w) \<leftarrow> client_remove_invitation (Some c) ip w;
       if st = -1 then do { w \<leftarrow> inv_unref ip w; Some (-1, w) }
       else do {
         (r, w) \<leftarrow> client_ref other w;
         if r = None then do { w \<leftarrow> inv_unref ip w; Some (-1, w) }
         else do {
           (other_id, w) \<leftarrow> client_remove_invitation other ip w;
           if other_id = -1 then do {
             w \<leftarrow> client_unref other w;
             w \<leftarrow> inv_unref ip w;
             Some (-1, w)
           }
           else resign_tail c ident ip role other other_id w
         }
       }
     }
   }"
  unfolding resign_as_def resign_tail_def by simp

lemma resign_as_safe:
  assumes "world_ok (Suc k) (add_mset (Unref_Inv i) L) w" and "clients w c = Some v" and "invs w i = Some u"
    and "role \<noteq> NULL_ROLE"
    and parties: "c = inv_src u \<and> t = inv_target u \<or> c = inv_target u \<and> t = inv_src u"
  shows "\<exists>st w'. resign_as c ident (Some i) role (Some t) w = Some (st, w') \<and>
    world_ok (Suc (Suc k)) L w' \<and> evo w w'"
proof -
  obtain st1 w1 where 1: "inv_close (Some i) role w = Some (st1, w1)"
      "world_ok (Suc k) (add_mset (Unref_Inv i) L) w1" "evo w w1" "clients w1 = clients w"
      "st1 = -1 \<or> st1 = 0 \<and> (role = NULL_ROLE \<longleftrightarrow> inv_game u = None)"
    using ok_inv_close [OF assms(1,3)] by blast
  show ?thesis
  proof (cases "st1 = -1")
    case True
    obtain w2 where 2: "inv_unref (Some i) w1 = Some w2" "world_ok (Suc (Suc k)) L w2" "evo w1 w2"
      using ok_inv_unref [OF 1(2)] by blast
    have "resign_as c ident (Some i) role (Some t) w = Some (-1, w2)"
      using 1(1) True 2(1) by (simp add: resign_as_tail)
    then show ?thesis using 2(2) evo_trans [OF 1(3) 2(3)] by blast
  next
    case st1: False
    then obtain g where g: "inv_game u = Some g" using 1(5) assms(4) by auto
    obtain u1 where u1: "invs w1 i = Some u1" by (rule local_inv [OF 1(2), of i]) simp
    obtain st2 w2 where 2: "client_remove_invitation (Some c) (Some i) w1 = Some (st2, w2)"
        "world_ok (Suc k) (add_mset (Unref_Inv i) L) w2" "evo w1 w2"
      using ok_remove [OF 1(2) _ u1, of c v] 1(4) assms(2) by auto
    have e2: "evo w w2" by (rule evo_trans [OF 1(3) 2(3)])
    obtain u2 where u2: "invs w2 i = Some u2" "inv_keeps u u2"
      by (rule local_inv_keeps [OF 2(2) _ e2 assms(1,3)]) simp
    show ?thesis
    proof (cases "st2 = -1")
      case True
      obtain w3 where 3: "inv_unref (Some i) w2 = Some w3" "world_ok (Suc (Suc k)) L w3" "evo w2 w3"
        using ok_inv_unref [OF 2(2)] by blast
      have "resign_as c ident (Some i) role (Some t) w = Some (-1, w3)"
        using 1(1) st1 2(1) True 3(1) by (simp add: resign_as_tail)
      then show ?thesis using 3(2) evo_trans [OF e2 3(3)] by blast
    next
      case st2: False
      have "t = inv_src u2 \<or> t = inv_target u2" using parties u2(2) by (auto simp: inv_keeps_def)
      then obtain tv where "clients w2 t = Some tv"
        using parties_live [OF world_okD(1) [OF 2(2)] u2(1)] by metis
      then obtain w3 where 3: "client_ref (Some t) w2 = Some (Some t, w3)"
          "world_ok k (add_mset (Unref_Client t) (add_mset (Unref_Inv i) L)) w3" "evo w2 w3" "invs w3 = invs w2"
        using ok_client_ref [OF 2(2)] by blast
      obtain tv3 where tv3: "clients w3 t = Some tv3" by (rule local_client [OF 3(2), of t]) simp
      have u3: "invs w3 i = Some u2" using u2(1) 3(4) by simp
      obtain st4 w4 where 4: "client_remove_invitation (Some t) (Some i) w3 = Some (st4, w4)"
          "world_ok k (add_mset (Unref_Client t) (add_mset (Unref_Inv i) L)) w4" "evo w3 w4"
        using ok_remove [OF 3(2) tv3 u3] by auto
      have e4: "evo w w4" using evo_trans [OF evo_trans [OF e2 3(3)] 4(3)] .
      obtain u4 where u4: "invs w4 i = Some u4" "inv_keeps u u4"
        by (rule local_inv_keeps [OF 4(2) _ e4 assms(1,3)]) simp
      show ?thesis
      proof (cases "st4 = -1")
        case True
        obtain w5 where 5: "client_unref (Some t) w4 = Some w5"
            "world_ok (Suc k) (add_mset (Unref_Inv i) L) w5" "evo w4 w5"
          using ok_client_unref [OF 4(2)] by blast
        obtain w6 where 6: "inv_unref (Some i) w5 = Some w6" "world_ok (Suc (Suc k)) L w6" "evo w5 w6"
          using ok_inv_unref [OF 5(2)] by blast
        have "resign_as c ident (Some i) role (Some t) w = Some (-1, w6)"
          using 1(1) st1 2(1) st2 3(1) 4(1) True 5(1) 6(1) by (simp add: resign_as_tail)
        then show ?thesis using 6(2) evo_trans [OF evo_trans [OF e4 5(3)] 6(3)] by blast
      next
        case False
        have g4: "inv_game u4 = Some g" using u4(2) g by (simp add: inv_keeps_def)
        have p4: "c = inv_src u4 \<and> t = inv_target u4 \<or> c = inv_target u4 \<and> t = inv_src u4"
          using parties u4(2) by (simp add: inv_keeps_def)
        obtain st w5 where 5: "resign_tail c ident (Some i) role (Some t) st4 w4 = Some (st, w5)"
            "world_ok (Suc (Suc k)) L w5" "evo w4 w5"
          using resign_tail_safe [OF 4(2) u4(1) g4 p4] by blast
        have "resign_as c ident (Some i) role (Some t) w = Some (st, w5)"
          using 1(1) st1 2(1) st2 3(1) 4(1) False 5(1) by (simp add: resign_as_tail)
        then show ?thesis using 5(2) evo_trans [OF e4 5(3)] by blast
      qed
    qed
  qed
qed

lemma resign_safe:
  assumes "world_ok (Suc (Suc k)) L w" and "clients w c = Some v" and "ident < invs_cap v"
  shows "\<exists>st w'. client_resign_game (Some c) ident w = Some (st, w') \<and>
    world_ok (Suc (Suc k)) L w' \<and> evo w w'"
proof (cases "invs_lst v ! ident")
  case None
  then show ?thesis using read_slot_ok(1) [OF assms] assms(1) by (simp add: client_resign_game_def)
next
  case (Some i)
  note rd = read_slot_ok(1) [OF assms]
  obtain u u1 w1 where 1: "inv_ref (Some i) w = Some (Some i, w1)"
    "world_ok (Suc k) (add_mset (Unref_Inv i) L) w1" "evo w w1" "clients w1 = clients w"
    "invs w1 i = Some u1" "inv_wf u1"
    by (rule slot_ref [OF assms Some])
  have c1: "clients w1 c = Some v" using 1(4) assms(2) by simp
  have roles: "src_role u1 \<noteq> NULL_ROLE" "target_role u1 \<noteq> NULL_ROLE" using 1(6) by (simp_all add: inv_wf_def)
  consider "inv_src u1 = c" | "inv_src u1 \<noteq> c" "inv_target u1 = c" | "inv_src u1 \<noteq> c" "inv_target u1 \<noteq> c" by blast
  then show ?thesis
  proof cases
    case 1
    obtain st w2 where 2: "resign_as c ident (Some i) (src_role u1) (Some (inv_target u1)) w1 = Some (st, w2)"
        "world_ok (Suc (Suc k)) L w2" "evo w1 w2"
      using resign_as_safe [OF \<open>world_ok (Suc k) (add_mset (Unref_Inv i) L) w1\<close> c1 \<open>invs w1 i = Some u1\<close> roles(1),
          of "inv_target u1" ident] 1 by blast
    have "client_resign_game (Some c) ident w = Some (st, w2)"
      using rd Some 1 \<open>inv_ref (Some i) w = Some (Some i, w1)\<close> \<open>invs w1 i = Some u1\<close> 2(1)
      by (simp add: client_resign_game_def)
    then show ?thesis using 2(2) evo_trans [OF \<open>evo w w1\<close> 2(3)] by blast
  next
    case 2
    obtain st w2 where 3: "resign_as c ident (Some i) (target_role u1) (Some (inv_src u1)) w1 = Some (st, w2)"
        "world_ok (Suc (Suc k)) L w2" "evo w1 w2"
      using resign_as_safe [OF \<open>world_ok (Suc k) (add_mset (Unref_Inv i) L) w1\<close> c1 \<open>invs w1 i = Some u1\<close> roles(2),
          of "inv_src u1" ident] 2 by blast
    have "client_resign_game (Some c) ident w = Some (st, w2)"
      using rd Some 2 \<open>inv_ref (Some i) w = Some (Some i, w1)\<close> \<open>invs w1 i = Some u1\<close> 3(1)
      by (simp add: client_resign_game_def)
    then show ?thesis using 3(2) evo_trans [OF \<open>evo w w1\<close> 3(3)] by blast
  next
    case 3
    obtain w2 where 4: "inv_unref (Some i) w1 = Some w2" "world_ok (Suc (Suc k)) L w2" "evo w1 w2"
      using ok_inv_unref [OF \<open>world_ok (Suc k) (add_mset (Unref_Inv i) L) w1\<close>] by blast
    have "client_resign_game (Some c) ident w = Some (-1, w2)"
      using rd Some 3 \<open>inv_ref (Some i) w = Some (Some i, w1)\<close> \<open>invs w1 i = Some u1\<close> 4(1)
      by (simp add: client_resign_game_def)
    then show ?thesis using 4(2) evo_trans [OF \<open>evo w w1\<close> 4(3)] by blast
  qed
qed

subsection \<open>Making an invitation\<close>

text \<open>A client that the registry or the running operation itself references.\<close>

definition anchored :: "pending multiset \<Rightarrow> world \<Rightarrow> nat \<Rightarrow> bool" where
  "anchored L w c \<longleftrightarrow> Unref_Client c \<in># creg_holds w + L"

lemma anchored_evo: "evo w w' \<Longrightarrow> anchored L w' c = anchored L w c"
  by (simp add: anchored_def evo_def creg_holds_cong [of w' w])

lemma anchored_add: "anchored L w c \<Longrightarrow> anchored (add_mset x L) w c"
  by (simp add: anchored_def)

lemma anchored_live:
  assumes "world_ok k L w" and "anchored L w c"
  obtains v where "clients w c = Some v"
proof -
  have "Unref_Client c \<in># held w + L" using assms(2) by (auto simp: anchored_def held_def)
  then show thesis using that client_ref_live_of [OF world_okD(1) [OF assms(1)]] by metis
qed

text \<open>A party of an invitation that is also anchored has a second reference.\<close>

lemma anchored_count:
  assumes "world_ok k L w" and "anchored L w c" and "invs w i = Some u"
    and "c = inv_src u \<or> c = inv_target u" and "clients w c = Some v"
  shows "c_ref_count v \<noteq> 1"
proof -
  note c = world_okD(1) [OF assms(1)]
  have "finite (dom (invs w))" using c by (simp add: counts_ok_def)
  then have "held w = inv_holds u + (map_sum inv_holds ((invs w)(i := None)) + map_sum client_holds (clients w)) + creg_holds w"
    using map_sum_remove [of "invs w" i u inv_holds] assms(3) by (simp add: held_map_sum ac_simps)
  then have "count (held w + L) (Unref_Client c) \<ge> count (inv_holds u) (Unref_Client c) + count (creg_holds w + L) (Unref_Client c)"
    by simp
  moreover have "0 < count (creg_holds w + L) (Unref_Client c)" using assms(2) by (simp add: anchored_def)
  moreover have "0 < count (inv_holds u) (Unref_Client c)" using assms(4) by (auto simp: inv_holds_def)
  ultimately have "1 < count (held w + L) (Unref_Client c)" by linarith
  moreover have "ref_ok (count (held w + L) (Unref_Client c)) (Some (c_ref_count v))"
    using counts_okD [OF c, of "Unref_Client c"] assms(5) by simp
  ultimately show ?thesis
    using of_nat_size_one_iff [of "count (held w + L) (Unref_Client c)"] by (simp del: count_union)
qed

text \<open>Removing the last reference to an invitation from its source's table.\<close>

lemma free_inv:
  assumes "invs w i = Some u" and "i_ref_count u = 1" and "inv_game u = None" and "inv_src u \<noteq> inv_target u"
    and "clients w (inv_src u) = Some s" and "clients w (inv_target u) = Some t"
    and "c_ref_count s \<noteq> 1" and "c_ref_count t \<noteq> 1"
  shows "inv_unref (Some i) w = Some (w\<lparr>invs := (invs w)(i := None),
    clients := (clients w)(inv_src u := Some (s\<lparr>c_ref_count := size_dec (c_ref_count s)\<rparr>),
                           inv_target u := Some (t\<lparr>c_ref_count := size_dec (c_ref_count t)\<rparr>))\<rparr>)"
  using assms
  by (simp add: inv_unref_def release_simps inv_unref_step_def client_unref_step_def size_dec_def Let_def)

lemma ok_remove_last:
  assumes "world_ok k L w" and "clients w c = Some v" and "invs w i = Some u" and "i_ref_count u = 1"
    and "inv_game u = None" and "c = inv_src u" and "Some i \<in> set (invs_lst v)"
    and "anchored L w (inv_src u)" and "anchored L w (inv_target u)"
  shows "\<exists>j w'. client_remove_invitation (Some c) (Some i) w = Some (int j, w') \<and> world_ok k L w' \<and> evo w w'"
proof -
  note c = world_okD(1) [OF assms(1)] and tab = world_okD(4) [OF assms(1,2)] and wf = world_okD(5) [OF assms(1,3)]
  from assms(7) obtain j where j: "find_idx (\<lambda>x. x = Some i) (invs_lst v) = Some j" by (rule find_idx_member)
  have j': "j < length (invs_lst v)" "invs_lst v ! j = Some i" using find_idx_SomeD [OF j] by simp_all
  let ?v = "(set_slot j None v)\<lparr>invs_len := invs_len v - 1\<rparr>"
  let ?g = "w\<lparr>clients := (clients w)(c := Some ?v)\<rparr>"
  have diff: "inv_src u \<noteq> inv_target u" using wf by (simp add: inv_wf_def)
  obtain t where t: "clients w (inv_target u) = Some t" by (rule anchored_live [OF assms(1,9)])
  have cs: "c_ref_count v \<noteq> 1" using anchored_count [OF assms(1,8,3) _ assms(2) [unfolded assms(6)]] by simp
  have ct: "c_ref_count t \<noteq> 1" using anchored_count [OF assms(1,9,3) _ t] by simp
  have tab': "table_ok ?v" using occupied_clear [OF j'(1)] j'(2) tab by (auto simp: table_ok_def set_slot_def)
  have hv: "client_holds v = add_mset (Unref_Inv i) (client_holds ?v)"
    unfolding client_holds_slots [OF tab] client_holds_slots [OF tab']
    using slots_clear [OF j', of Unref_Inv] by (simp add: set_slot_def)
  have h: "add_mset (Unref_Inv i) (held ?g) = held w"
    using held_upd_client [OF c assms(2), of ?v] unfolding hv by simp
  have "counts_ok (add_mset (Unref_Inv i) L) ?g"
  proof (rule counts_ok_move [OF c])
    show "stored ?g y = stored w y" for y using assms(2) by (cases y) (auto simp: set_slot_def)
    show "held ?g + add_mset (Unref_Inv i) L = held w + L" unfolding h [symmetric] by simp
  qed (use counts_ok_finite [OF c] in simp_all)
  moreover have "shape_ok ?g"
    using world_ok_shape [OF assms(1)] assms(2) tab'
    by (intro shape_ok_client [of w c v]) (simp_all add: set_slot_def)
  moreover have "size (held w) = Suc (size (held ?g))" unfolding h [symmetric] by simp
  ultimately have g: "world_ok k (add_mset (Unref_Inv i) L) ?g"
    using assms(1) by (simp add: world_ok_def)
  let ?w' = "?g\<lparr>invs := (invs ?g)(i := None),
      clients := (clients ?g)(c := Some (?v\<lparr>c_ref_count := size_dec (c_ref_count v)\<rparr>),
                             inv_target u := Some (t\<lparr>c_ref_count := size_dec (c_ref_count t)\<rparr>))\<rparr>"
  have "inv_unref (Some i) ?g = Some ?w'"
    using free_inv [of ?g i u ?v t] assms(3-6) diff t cs ct by (simp add: set_slot_def)
  with ok_inv_unref [OF g] have w': "world_ok k L ?w'" "evo ?g ?w'"
    using world_ok_mono [of "Suc k" L ?w' k] by auto
  have "evo w ?g" using assms(2) by (simp add: evo_def kept_upd client_keeps_def set_slot_def)
  moreover have "client_remove_invitation (Some c) (Some i) w = Some (int j, ?w')"
  proof -
    have "inv_unref (Some i) w = Some (w\<lparr>invs := (invs w)(i := None),
      clients := (clients w)(c := Some (v\<lparr>c_ref_count := size_dec (c_ref_count v)\<rparr>),
                             inv_target u := Some (t\<lparr>c_ref_count := size_dec (c_ref_count t)\<rparr>))\<rparr>)"
      using free_inv [of w i u v t] assms(2-6) diff t cs ct by simp
    moreover have "invs_lst v \<noteq> []" "invs_len v \<noteq> 0" "take (invs_cap v) (invs_lst v) = invs_lst v"
      using tab j' occupied_clear [of j "invs_lst v"] by (auto simp: table_ok_def)
    ultimately show ?thesis
      using assms(2,6) j j'(2) diff
      by (simp add: client_remove_invitation_def remove_from_inv_lst_def set_slot_def fun_upd_twist) (cases v; simp)
  qed
  ultimately show ?thesis using w' evo_trans by blast
qed

lemma send_pkt_players:
  "send_pkt p typ ident role sz datap (w\<lparr>players := ps\<rparr>) =
    map_option (\<lambda>(st, w'). (st, w'\<lparr>players := ps\<rparr>)) (send_pkt p typ ident role sz datap w)"
  by (simp add: send_pkt_def w_pack_header_def client_send_packet_def client_get_fd_def
      split: prod.split option.split bind_splits)

text \<open>The notification of the invited client, while the inviting player is referenced.\<close>

lemma invited_safe:
  assumes "world_ok k L w" and "clients w s = Some sv" and "clients w t = Some tv" and "c_player sv = Some a"
  shows "\<exists>st w1 nm o1. w_player_ref (Some a) w = Some (Some a, w1) \<and> clients w1 = clients w \<and> invs w1 = invs w \<and>
    w_player_get_name (Some a) w1 = Some nm \<and>
    send_pkt (Some t) typ n role (length nm) (Some (bytes_of nm)) w1 = Some (st, w1\<lparr>os := o1\<rparr>) \<and>
    w_player_unref (Some a) (w1\<lparr>os := o1\<rparr>) = Some (w\<lparr>os := o1\<rparr>) \<and>
    world_ok k L (w\<lparr>os := o1\<rparr>) \<and> evo w (w\<lparr>os := o1\<rparr>)"
proof -
  note pok = world_okD(3) [OF assms(1)]
  have "player_of w s = Some a" using assms(2,4) by (simp add: player_of_def)
  then obtain p where p: "players w a = Some p" using pok unfolding players_ok_def by blast
  moreover have "p_name p \<noteq> None" "p_ref_count p \<noteq> 0" using pok p unfolding players_ok_def by blast+
  then obtain nm where nm: "p_name p = Some nm" by blast
  let ?p = "p\<lparr>p_ref_count := p_ref_count p + 1\<rparr>"
  let ?ps = "(players w)(a := Some ?p)"
  obtain st o1 where s: "send_pkt (Some t) typ n role (length nm) (Some (bytes_of nm)) w = Some (st, w\<lparr>os := o1\<rparr>)"
      "world_ok k L (w\<lparr>os := o1\<rparr>)" "evo w (w\<lparr>os := o1\<rparr>)"
    using ok_send_text [OF assms(1,3)] by blast
  have "w_player_ref (Some a) w = Some (Some a, w\<lparr>players := ?ps\<rparr>)" by (rule player_ref_value [OF p])
  moreover have "w_player_get_name (Some a) (w\<lparr>players := ?ps\<rparr>) = Some nm" using nm by simp
  moreover have "send_pkt (Some t) typ n role (length nm) (Some (bytes_of nm)) (w\<lparr>players := ?ps\<rparr>) =
      Some (st, w\<lparr>players := ?ps, os := o1\<rparr>)"
    unfolding send_pkt_players s(1) by simp
  moreover have "w_player_unref (Some a) (w\<lparr>players := ?ps, os := o1\<rparr>) = Some (w\<lparr>os := o1\<rparr>)"
  proof -
    have eq: "w\<lparr>players := ?ps, os := o1\<rparr> = w\<lparr>os := o1, players := ?ps\<rparr>" by simp
    have "w_player_unref (Some a) (w\<lparr>os := o1, players := ?ps\<rparr>) = Some (w\<lparr>os := o1\<rparr>)"
      using player_ref_unref [OF world_okD(3) [OF s(2)], of a p] p by simp
    then show ?thesis by (simp only: eq)
  qed
  ultimately show ?thesis using s(2,3)
    by (intro exI [of _ st] exI [of _ "w\<lparr>players := ?ps\<rparr>"] exI [of _ nm] exI [of _ o1]) simp
qed

lemma released_slots:
  assumes "released w w'" and "clients w' c = Some v'" and "clients w c = Some v"
  shows "invs_lst v' = invs_lst v" and "c_player v' = c_player v"
proof -
  obtain n where "v' = v\<lparr>c_ref_count := n\<rparr>"
    using assms unfolding released_def shrunk_def by (metis option.inject)
  then show "invs_lst v' = invs_lst v" and "c_player v' = c_player v" by simp_all
qed

lemma make_safe:
  assumes W: "world_ok (k + 5) L w" and "clients w s = Some sv" and "clients w t = Some tv"
    and "c_player sv = Some a" and "c_player tv \<noteq> None" and "s = t \<or> c_player sv \<noteq> c_player tv"
    and "anchored L w s" and "anchored L w t"
  shows "\<exists>st w'. client_make_invitation (Some s) (Some t) srole trole w = Some (st, w') \<and>
    world_ok k L w' \<and> evo w w'"
proof (cases "srole = NULL_ROLE \<or> trole = NULL_ROLE \<or> s = t")
  case True
  then have "inv_create (Some s) (Some t) srole trole w = Some (None, w)"
    by (auto simp: inv_create_def)
  then show ?thesis using world_ok_mono [OF W, of k] by (simp add: client_make_invitation_def)
next
  case nd: False
  have W3: "world_ok (Suc (Suc (Suc (Suc (Suc k))))) L w" using W by (simp add: eval_nat_numeral)
  obtain i w1 u sv1 tv1 where 1: "inv_create (Some s) (Some t) srole trole w = Some (Some i, w1)"
      "world_ok (Suc (Suc k)) (add_mset (Unref_Inv i) L) w1" "evo w w1" "invs w1 i = Some u" "i_ref_count u = 1"
      "inv_src u = s" "inv_target u = t" "inv_game u = None"
      "clients w1 s = Some sv1" "clients w1 t = Some tv1" "c_player sv1 = c_player sv"
    using ok_inv_create [OF W3 assms(2,3), of srole trole] nd assms(4-6) by auto
  have anc: "anchored L w' s \<and> anchored L w' t" if "evo w w'" for w'
    using that anchored_evo assms(7,8) by blast
  obtain n2 w2 where 2: "client_add_invitation (Some s) (Some i) w1 = Some (n2, w2)"
      "world_ok (Suc k) (add_mset (Unref_Inv i) L) w2" "evo w1 w2"
      "n2 = -1 \<and> w2 = w1 \<or> (\<exists>j v'. n2 = int j \<and> clients w2 s = Some v' \<and> Some i \<in> set (invs_lst v') \<and>
        c_player v' = c_player sv1 \<and> invs w2 i = Some (u\<lparr>i_ref_count := size_inc (i_ref_count u)\<rparr>))"
      "\<forall>d. d \<noteq> s \<longrightarrow> clients w2 d = clients w1 d"
    using ok_insert [OF 1(2) 1(9,4)] by blast
  have e2: "evo w w2" by (rule evo_trans [OF 1(3) 2(3)])
  show ?thesis
  proof (cases "n2 = -1")
    case True
    obtain w3 where 3: "inv_unref (Some i) w2 = Some w3" "world_ok (Suc (Suc k)) L w3" "evo w2 w3"
      using ok_inv_unref [OF 2(2)] by blast
    have "client_make_invitation (Some s) (Some t) srole trole w = Some (-1, w3)"
      using 1(1) 2(1) True 3(1) by (simp add: client_make_invitation_def)
    then show ?thesis using world_ok_mono [OF 3(2), of k] evo_trans [OF e2 3(3)] by simp
  next
    case n2: False
    then obtain j2 sv2 where j2: "n2 = int j2" "clients w2 s = Some sv2" "Some i \<in> set (invs_lst sv2)"
        "c_player sv2 = c_player sv1" "invs w2 i = Some (u\<lparr>i_ref_count := size_inc (i_ref_count u)\<rparr>)"
      using 2(4) by blast
    let ?u2 = "u\<lparr>i_ref_count := size_inc (i_ref_count u)\<rparr>"
    have st: "s \<noteq> t" using nd by simp
    have tv2: "clients w2 t = Some tv1" using 2(5) st 1(10) by simp
    obtain n3 w3 where 3: "client_add_invitation (Some t) (Some i) w2 = Some (n3, w3)"
        "world_ok k (add_mset (Unref_Inv i) L) w3" "evo w2 w3"
        "n3 = -1 \<and> w3 = w2 \<or> (\<exists>j v'. n3 = int j \<and> clients w3 t = Some v' \<and> Some i \<in> set (invs_lst v') \<and>
          c_player v' = c_player tv1 \<and> invs w3 i = Some (?u2\<lparr>i_ref_count := size_inc (i_ref_count ?u2)\<rparr>))"
        "\<forall>d. d \<noteq> t \<longrightarrow> clients w3 d = clients w2 d"
      using ok_insert [OF 2(2) tv2 j2(5)] by blast
    have e3: "evo w w3" by (rule evo_trans [OF e2 3(3)])
    obtain w4 where 4: "inv_unref (Some i) w3 = Some w4" "world_ok (Suc k) L w4" "evo w3 w4" "released w3 w4"
      using ok_inv_unref [OF 3(2)] by blast
    have e4: "evo w w4" by (rule evo_trans [OF e3 4(3)])
    show ?thesis
    proof (cases "n3 = -1")
      case True
      then have w3: "w3 = w2" using 3(4) by auto
      have cnt: "i_ref_count ?u2 \<noteq> 1" "size_dec (i_ref_count ?u2) = 1" using 1(5) size_dec_inc by (simp_all add: size_inc_def size_dec_def)
      let ?u4 = "?u2\<lparr>i_ref_count := 1\<rparr>"
      have w4: "w4 = w2\<lparr>invs := (invs w2)(i := Some ?u4)\<rparr>"
        using inv_unref_count [OF j2(5) cnt(1)] 4(1) unfolding w3 cnt(2) by simp
      have u4: "invs w4 i = Some ?u4" and s4: "clients w4 s = Some sv2" using j2(2) unfolding w4 by simp_all
      have "\<exists>j w'. client_remove_invitation (Some s) (Some i) w4 = Some (int j, w') \<and> world_ok (Suc k) L w' \<and> evo w4 w'"
        using ok_remove_last [OF 4(2) s4 u4] j2(3) 1(6-8) anc [OF e4] by simp
      then obtain j w5 where 5: "client_remove_invitation (Some s) (Some i) w4 = Some (int j, w5)"
          "world_ok (Suc k) L w5" "evo w4 w5" by blast
      have "client_make_invitation (Some s) (Some t) srole trole w = Some (int j, w5)"
        using 1(1) 2(1) n2 3(1) True 4(1) 5(1) by (simp add: client_make_invitation_def)
      then show ?thesis using world_ok_mono [OF 5(2), of k] evo_trans [OF e4 5(3)] by simp
    next
      case n3: False
      then obtain tv3 where tv3: "clients w3 t = Some tv3" "Some i \<in> set (invs_lst tv3)" using 3(4) by blast
      have s3: "clients w3 s = Some sv2" using 3(5) st j2(2) by simp
      obtain sv4 where sv4: "clients w4 s = Some sv4" using anchored_live [OF 4(2)] anc [OF e4] by blast
      obtain tv4 where tv4: "clients w4 t = Some tv4" using anchored_live [OF 4(2)] anc [OF e4] by blast
      have pl: "c_player sv4 = Some a" using released_slots(2) [OF 4(4) sv4 s3] j2(4) 1(11) assms(4) by simp
      have "Some i \<in> set (invs_lst tv4)" using released_slots(1) [OF 4(4) tv4 tv3(1)] tv3(2) by simp
      then obtain u4 where u4: "invs w4 i = Some u4" using slot_live [OF 4(2) tv4] by blast
      obtain st w5 nm o5 where 5: "w_player_ref (Some a) w4 = Some (Some a, w5)" "clients w5 = clients w4" "invs w5 = invs w4"
          "w_player_get_name (Some a) w5 = Some nm"
          "send_pkt (Some t) JEUX_INVITED_PKT n3 (target_role u4) (length nm) (Some (bytes_of nm)) w5 = Some (st, w5\<lparr>os := o5\<rparr>)"
          "w_player_unref (Some a) (w5\<lparr>os := o5\<rparr>) = Some (w4\<lparr>os := o5\<rparr>)"
          "world_ok (Suc k) L (w4\<lparr>os := o5\<rparr>)" "evo w4 (w4\<lparr>os := o5\<rparr>)"
        using invited_safe [OF 4(2) sv4 tv4 pl] by blast
      have u5: "invs w5 i = Some u4" using u4 5(3) by simp
      have "client_make_invitation (Some s) (Some t) srole trole w =
          Some (if st = -1 then -1 else n2, w4\<lparr>os := o5\<rparr>)"
        using 1(1) 2(1) n2 3(1) n3 4(1) client_get_player_live [OF sv4] pl 5(1) inv_get_live(4) [OF u5] 5(4-6)
        by (simp add: client_make_invitation_def)
      then show ?thesis using world_ok_mono [OF 5(7), of k] evo_trans [OF e4 5(8)] by simp
    qed
  qed
qed

end
