(* ===== verification/Move_Safety.thy ===== *)
theory Move_Safety
  imports Play_Safety
begin

text \<open>
  Safety of \<open>client_make_move\<close> and of \<open>client_logout\<close>.
\<close>

subsection \<open>The end of a game\<close>

lemma game_over_safe:
  assumes "world_ok k L w" and "invs w i = Some u" and "Unref_Inv i \<in># L" and "Unref_Client t \<in># L"
    and "games w g = Some x"
    and parties: "c = inv_src u \<and> t = inv_target u \<or> c = inv_target u \<and> t = inv_src u"
    and "role \<noteq> NULL_ROLE"
  shows "\<exists>w'. move_game_over (Some c) ident (Some i) (Some g) role (Some t) n w = Some w' \<and>
    world_ok k L w' \<and> evo w w'"
proof -
  obtain s v where "clients w (inv_src u) = Some s" "clients w (inv_target u) = Some v"
    by (rule parties_live [OF world_okD(1) [OF assms(1)] assms(2)])
  then obtain cv tv where cv: "clients w c = Some cv" and tv: "clients w t = Some tv" using parties by metis
  obtain s1 o1 where 1: "send_pkt (Some c) JEUX_ENDED_PKT (int ident) (winner x) 0 None w = Some (s1, w\<lparr>os := o1\<rparr>)"
      "world_ok k L (w\<lparr>os := o1\<rparr>)" "evo w (w\<lparr>os := o1\<rparr>)"
    using ok_send_empty [OF assms(1) cv] by blast
  let ?w1 = "w\<lparr>os := o1\<rparr>"
  have tv1: "clients ?w1 t = Some tv" using tv by simp
  obtain s2 o2 where 2: "send_pkt (Some t) JEUX_ENDED_PKT n (winner x) 0 None ?w1 = Some (s2, ?w1\<lparr>os := o2\<rparr>)"
      "world_ok k L (?w1\<lparr>os := o2\<rparr>)" "evo ?w1 (?w1\<lparr>os := o2\<rparr>)"
    using ok_send_empty [OF 1(2) tv1] by blast
  let ?w2 = "?w1\<lparr>os := o2\<rparr>"
  have e2: "evo w ?w2" by (rule evo_trans [OF 1(3) 2(3)])
  have cv2: "clients ?w2 c = Some cv" and u2: "invs ?w2 i = Some u" using cv assms(2) by simp_all
  obtain s3 w3 where 3: "client_remove_invitation (Some c) (Some i) ?w2 = Some (s3, w3)" "world_ok k L w3" "evo ?w2 w3"
    using ok_remove [OF 2(2) cv2 u2 assms(3)] by blast
  have e3: "evo w w3" by (rule evo_trans [OF e2 3(3)])
  obtain u3 where u3: "invs w3 i = Some u3" by (rule local_inv [OF 3(2) assms(3)])
  obtain tv3 where tv3: "clients w3 t = Some tv3" by (rule local_client [OF 3(2) assms(4)])
  obtain s4 w4 where 4: "client_remove_invitation (Some t) (Some i) w3 = Some (s4, w4)" "world_ok k L w4" "evo w3 w4"
    using ok_remove [OF 3(2) tv3 u3 assms(3)] by blast
  have e4: "evo w w4" by (rule evo_trans [OF e3 4(3)])
  obtain u4 where u4: "invs w4 i = Some u4" "inv_keeps u u4"
    by (rule local_inv_keeps [OF 4(2) assms(3) e4 assms(1,2)])
  obtain s' v' where p4: "clients w4 (inv_src u4) = Some s'" "clients w4 (inv_target u4) = Some v'"
    by (rule parties_live [OF world_okD(1) [OF 4(2)] u4(1)])
  have keep: "inv_src u4 = inv_src u" "inv_target u4 = inv_target u" using u4(2) by (simp_all add: inv_keeps_def)
  obtain cv4 tv4 where cv4: "clients w4 c = Some cv4" and tv4: "clients w4 t = Some tv4"
    and pair: "pair_ok w4 (c_player cv4) (c_player tv4)"
  proof (cases "c = inv_src u \<and> t = inv_target u")
    case True
    then show thesis using that [of s' v'] p4 keep parties_pair_ok [OF 4(2) u4(1) p4] by simp
  next
    case False
    with parties have "c = inv_target u" "t = inv_src u" by auto
    then show thesis using that [of v' s'] p4 keep pair_ok_sym [OF parties_pair_ok [OF 4(2) u4(1) p4]] by simp
  qed
  let ?p = "c_player cv4" and ?q = "c_player tv4"
  let ?first = "if role = FIRST_PLAYER_ROLE then ?p else ?q" and ?second = "if role = FIRST_PLAYER_ROLE then ?q else ?p"
  have "(?first, ?second) = (?p, ?q) \<or> (?first, ?second) = (?q, ?p)" by simp
  from ok_ref_post_unref [OF 4(2) pair this, of "role_code (winner x)"] obtain w5 w6 w7 w8 w9 where
    5: "w_player_ref ?p w4 = Some (?p, w5)" "w_player_ref ?q w5 = Some (?q, w6)"
      "w_player_post_result ?first ?second (role_code (winner x)) w6 = Some w7"
      "w_player_unref ?p w7 = Some w8" "w_player_unref ?q w8 = Some w9"
      "world_ok k L w9" "evo w4 w9" "clients w5 = clients w4" by blast
  have tv5: "clients w5 t = Some tv4" using tv4 5(8) by simp
  have "move_game_over (Some c) ident (Some i) (Some g) role (Some t) n w = Some w9"
    using winner_value [OF assms(5)] 1(1) 2(1) 3(1) 4(1) client_get_player_live [OF cv4]
      client_get_player_live [OF tv5] 5(1-5) assms(7)
    by (cases role) (simp_all add: move_game_over_def)
  then show ?thesis using 5(6) evo_trans [OF e4 5(7)] by blast
qed

subsection \<open>Moves\<close>

lemma is_over_value: "games w g = Some x \<Longrightarrow> w_game_is_over (Some g) w = Some (game_is_over (Some x))"
  by (simp add: w_game_is_over_def)

lemma release_three:
  assumes "world_ok k (add_mset (Unref_Client t) (add_mset (Unref_Game g) (add_mset (Unref_Inv i) L))) w"
  shows "\<exists>w1 w2 w3. inv_unref (Some i) w = Some w1 \<and> client_unref (Some t) w1 = Some w2 \<and>
      w_game_unref (Some g) w2 = Some w3 \<and> world_ok (Suc (Suc (Suc k))) L w3 \<and> evo w w3"
    and "\<exists>w1 w2 w3. client_unref (Some t) w = Some w1 \<and> inv_unref (Some i) w1 = Some w2 \<and>
      w_game_unref (Some g) w2 = Some w3 \<and> world_ok (Suc (Suc (Suc k))) L w3 \<and> evo w w3"
proof -
  have "world_ok k (add_mset (Unref_Inv i) (add_mset (Unref_Client t) (add_mset (Unref_Game g) L))) w"
    using assms by (simp only: add_mset_commute)
  from ok_inv_unref [OF this] obtain w1 where 1: "inv_unref (Some i) w = Some w1"
    "world_ok (Suc k) (add_mset (Unref_Client t) (add_mset (Unref_Game g) L)) w1" "evo w w1" by blast
  from ok_client_unref [OF 1(2)] obtain w2 where 2: "client_unref (Some t) w1 = Some w2"
    "world_ok (Suc (Suc k)) (add_mset (Unref_Game g) L) w2" "evo w1 w2" by blast
  from ok_game_unref [OF 2(2)] obtain w3 where 3: "w_game_unref (Some g) w2 = Some w3"
    "world_ok (Suc (Suc (Suc k))) L w3" "evo w2 w3" by blast
  show "\<exists>w1 w2 w3. inv_unref (Some i) w = Some w1 \<and> client_unref (Some t) w1 = Some w2 \<and>
      w_game_unref (Some g) w2 = Some w3 \<and> world_ok (Suc (Suc (Suc k))) L w3 \<and> evo w w3"
    using 1(1) 2(1) 3(1,2) evo_trans [OF evo_trans [OF 1(3) 2(3)] 3(3)] by blast
next
  from ok_client_unref [OF assms] obtain w1 where 1: "client_unref (Some t) w = Some w1"
    "world_ok (Suc k) (add_mset (Unref_Game g) (add_mset (Unref_Inv i) L)) w1" "evo w w1" by blast
  have "world_ok (Suc k) (add_mset (Unref_Inv i) (add_mset (Unref_Game g) L)) w1"
    using 1(2) by (simp only: add_mset_commute)
  from ok_inv_unref [OF this] obtain w2 where 2: "inv_unref (Some i) w1 = Some w2"
    "world_ok (Suc (Suc k)) (add_mset (Unref_Game g) L) w2" "evo w1 w2" by blast
  from ok_game_unref [OF 2(2)] obtain w3 where 3: "w_game_unref (Some g) w2 = Some w3"
    "world_ok (Suc (Suc (Suc k))) L w3" "evo w2 w3" by blast
  show "\<exists>w1 w2 w3. client_unref (Some t) w = Some w1 \<and> inv_unref (Some i) w1 = Some w2 \<and>
      w_game_unref (Some g) w2 = Some w3 \<and> world_ok (Suc (Suc (Suc k))) L w3 \<and> evo w w3"
    using 1(1) 2(1) 3(1,2) evo_trans [OF evo_trans [OF 1(3) 2(3)] 3(3)] by blast
qed

lemma move_made_safe:
  assumes W: "world_ok k (add_mset (Unref_Client t) (add_mset (Unref_Game g) (add_mset (Unref_Inv i) L))) w"
    and "invs w i = Some u"
    and parties: "c = inv_src u \<and> t = inv_target u \<or> c = inv_target u \<and> t = inv_src u"
    and "role \<noteq> NULL_ROLE"
  shows "\<exists>st w'. move_made (Some c) ident (Some i) (Some g) role (Some t) w = Some (st, w') \<and>
    world_ok (Suc (Suc (Suc k))) L w' \<and> evo w w'"
proof -
  let ?L = "add_mset (Unref_Client t) (add_mset (Unref_Game g) (add_mset (Unref_Inv i) L))"
  obtain tv where tv: "clients w t = Some tv" by (rule local_client [OF W, of t]) simp
  obtain x where x: "games w g = Some x" by (rule local_game [OF W, of g]) simp
  obtain n where n: "search_inv_lst_safe (Some t) (Some i) w = Some n"
    using search_result [OF tv world_okD(4) [OF W tv]] by blast
  show ?thesis
  proof (cases "n = -1")
    case True
    obtain w1 w2 w3 where "client_unref (Some t) w = Some w1" "inv_unref (Some i) w1 = Some w2"
        "w_game_unref (Some g) w2 = Some w3" and w3: "world_ok (Suc (Suc (Suc k))) L w3" "evo w w3"
      using release_three(2) [OF W] by blast
    then have "move_made (Some c) ident (Some i) (Some g) role (Some t) w = Some (-1, w3)"
      using n True by (simp add: move_made_def)
    with w3 show ?thesis by blast
  next
    case False
    obtain str where str: "w_game_unparse_state (Some g) w = Some (Some str, w)"
      using unparse_ok [OF W x] by blast
    obtain s1 o1 where 1: "send_pkt (Some t) JEUX_MOVED_PKT n NULL_ROLE (length str) (Some (bytes_of str)) w =
        Some (s1, w\<lparr>os := o1\<rparr>)" "world_ok k ?L (w\<lparr>os := o1\<rparr>)" "evo w (w\<lparr>os := o1\<rparr>)"
      using ok_send_text [OF W tv] by blast
    let ?w1 = "w\<lparr>os := o1\<rparr>"
    have x1: "games ?w1 g = Some x" and u1: "invs ?w1 i = Some u" using x assms(2) by simp_all
    have "\<exists>w2. (if game_is_over (Some x) then move_game_over (Some c) ident (Some i) (Some g) role (Some t) n ?w1
        else Some ?w1) = Some w2 \<and> world_ok k ?L w2 \<and> evo ?w1 w2"
      using game_over_safe [OF 1(2) u1 _ _ x1 parties assms(4)] 1(2) by simp
    then obtain w2 where 2: "(if game_is_over (Some x) then move_game_over (Some c) ident (Some i) (Some g) role (Some t) n ?w1
        else Some ?w1) = Some w2" "world_ok k ?L w2" "evo ?w1 w2" by blast
    obtain w3 w4 w5 where 3: "inv_unref (Some i) w2 = Some w3" "client_unref (Some t) w3 = Some w4"
        "w_game_unref (Some g) w4 = Some w5" "world_ok (Suc (Suc (Suc k))) L w5" "evo w2 w5"
      using release_three(1) [OF 2(2)] by blast
    have "move_made (Some c) ident (Some i) (Some g) role (Some t) w = Some (0, w5)"
      using n False str 1(1) is_over_value [OF x1] 2(1) 3(1-3) by (simp add: move_made_def)
    then show ?thesis using 3(4) evo_trans [OF evo_trans [OF 1(3) 2(3)] 3(5)] by blast
  qed
qed

lemma ok_parse:
  assumes "world_ok k L w" and "games w g = Some x"
  shows "w_game_parse_move (Some g) role sp w = Some (None, w) \<or>
    (\<exists>mv. w_game_parse_move (Some g) role sp w = Some (Some mv, w) \<and> wf_move mv \<and> gr mv = role)"
proof -
  obtain r m where r: "game_parse_move (Some x) role sp (mem (os w)) = (r, m)" by fastforce
  have "m = []" using r world_okD(2) [OF assms(1)]
    by (auto simp: game_parse_move_def Let_def split: if_splits)
  then have "w_game_parse_move (Some g) role sp w = Some (r, w)"
    using r assms(2) world_okD(2) [OF assms(1)] by (simp add: w_game_parse_move_def)
  then show ?thesis using r by (cases r) (auto dest: game_parse_move_wf)
qed

lemma ok_apply:
  assumes "world_ok k L w" and "games w g = Some x" and "wf_move mv"
  shows "\<exists>st w'. w_game_apply_move (Some g) (Some mv) w = Some (st, w') \<and> world_ok k L w' \<and> evo w w' \<and>
    clients w' = clients w \<and> invs w' = invs w \<and> (st = -1 \<or> gr mv \<noteq> NULL_ROLE)"
proof -
  note gi = world_okD(6) [OF assms(1,2)]
  show ?thesis
  proof (cases "legal_move x mv")
    case True
    let ?x = "moved_game x (gr mv) (original_num mv - 1)"
    have "game_status x \<noteq> GAME_TERMINATED" "gr mv \<noteq> NULL_ROLE" using True by (auto simp: legal_move_def)
    moreover have "g_ref_count ?x = g_ref_count x" by (simp add: moved_game_def Let_def)
    ultimately show ?thesis
      using ok_game_update [OF assms(1,2) moved_game_inv [OF gi]] game_apply_move_legal [OF gi assms(3) True] assms(2)
      by (simp add: w_game_apply_move_def)
  next
    case False
    then show ?thesis
      using game_apply_move_illegal [OF gi assms(3) False] assms(1,2)
      by (simp add: w_game_apply_move_def fun_upd_idem)
  qed
qed

lemma move_safe:
  assumes "world_ok (Suc (Suc (Suc k))) L w" and "clients w c = Some v" and "ident < invs_cap v"
  shows "\<exists>st w'. client_make_move (Some c) ident move w = Some (st, w') \<and>
    world_ok (Suc (Suc (Suc k))) L w' \<and> evo w w'"
proof (cases "invs_lst v ! ident")
  case None
  then show ?thesis using read_slot_ok(1) [OF assms] assms(1) by (simp add: client_make_move_def)
next
  case (Some i)
  note rd = read_slot_ok(1) [OF assms]
  obtain u u1 w1 where 1: "inv_ref (Some i) w = Some (Some i, w1)"
    "world_ok (Suc (Suc k)) (add_mset (Unref_Inv i) L) w1" "evo w w1" "clients w1 = clients w"
    "invs w1 i = Some u1" "inv_wf u1"
    by (rule slot_ref [OF assms Some])
  show ?thesis
  proof (cases "inv_game u1")
    case None
    obtain w2 where 2: "inv_unref (Some i) w1 = Some w2" "world_ok (Suc (Suc (Suc k))) L w2" "evo w1 w2"
      using ok_inv_unref [OF 1(2)] by blast
    have "client_make_move (Some c) ident move w = Some (-1, w2)"
      using rd Some 1(1,5) None 2(1) by (simp add: client_make_move_def)
    then show ?thesis using 2(2) evo_trans [OF 1(3) 2(3)] by blast
  next
    case g: (Some g)
    obtain x1 where x1: "games w1 g = Some x1"
      by (rule inv_game_live [OF world_okD(1) [OF 1(2)] 1(5) g])
    obtain w2 where 2: "w_game_ref (Some g) w1 = Some (Some g, w2)"
        "world_ok (Suc k) (add_mset (Unref_Game g) (add_mset (Unref_Inv i) L)) w2" "evo w1 w2"
        "clients w2 = clients w1" "invs w2 = invs w1"
      using ok_game_ref [OF 1(2) x1] by blast
    have e2: "evo w w2" by (rule evo_trans [OF 1(3) 2(3)])
    have u2: "invs w2 i = Some u1" using 1(5) 2(5) by simp
    obtain x2 where x2: "games w2 g = Some x2" by (rule local_game [OF 2(2), of g]) simp
    let ?role = "if inv_target u1 = c then target_role u1 else if inv_src u1 = c then src_role u1 else NULL_ROLE"
    have fail: "\<exists>w4 w5. inv_unref (Some i) w3 = Some w4 \<and> w_game_unref (Some g) w4 = Some w5 \<and>
        world_ok (Suc (Suc (Suc k))) L w5 \<and> evo w3 w5"
      if w3: "world_ok (Suc k) (add_mset (Unref_Game g) (add_mset (Unref_Inv i) L)) w3" for w3
    proof -
      have "world_ok (Suc k) (add_mset (Unref_Inv i) (add_mset (Unref_Game g) L)) w3"
        using w3 by (simp only: add_mset_commute)
      from ok_inv_unref [OF this] obtain w4 where 4: "inv_unref (Some i) w3 = Some w4"
        "world_ok (Suc (Suc k)) (add_mset (Unref_Game g) L) w4" "evo w3 w4" by blast
      from ok_game_unref [OF 4(2)] 4 evo_trans show ?thesis by blast
    qed
    note eqs = rd Some 1(1) 1(5) g 2(1) u2
    from ok_parse [OF 2(2) x2, of ?role "Some move"] show ?thesis
    proof
      assume p: "w_game_parse_move (Some g) ?role (Some move) w2 = Some (None, w2)"
      obtain w4 w5 where 4: "inv_unref (Some i) w2 = Some w4" "w_game_unref (Some g) w4 = Some w5"
          "world_ok (Suc (Suc (Suc k))) L w5" "evo w2 w5"
        using fail [OF 2(2)] by blast
      have "client_make_move (Some c) ident move w = Some (-1, w5)"
        using eqs p 4(1,2)
        by (cases "inv_target u1 = c"; cases "inv_src u1 = c") (simp_all add: client_make_move_def)
      then show ?thesis using 4(3) evo_trans [OF e2 4(4)] by blast
    next
      assume "\<exists>mv. w_game_parse_move (Some g) ?role (Some move) w2 = Some (Some mv, w2) \<and> wf_move mv \<and> gr mv = ?role"
      then obtain mv where p: "w_game_parse_move (Some g) ?role (Some move) w2 = Some (Some mv, w2)"
        "wf_move mv" "gr mv = ?role" by blast
      obtain st w3 where 3: "w_game_apply_move (Some g) (Some mv) w2 = Some (st, w3)"
          "world_ok (Suc k) (add_mset (Unref_Game g) (add_mset (Unref_Inv i) L)) w3" "evo w2 w3"
          "clients w3 = clients w2" "invs w3 = invs w2" "st = -1 \<or> gr mv \<noteq> NULL_ROLE"
        using ok_apply [OF 2(2) x2 p(2)] by blast
      have e3: "evo w w3" by (rule evo_trans [OF e2 3(3)])
      show ?thesis
      proof (cases "st = -1")
        case True
        obtain w4 w5 where 4: "inv_unref (Some i) w3 = Some w4" "w_game_unref (Some g) w4 = Some w5"
            "world_ok (Suc (Suc (Suc k))) L w5" "evo w3 w5"
          using fail [OF 3(2)] by blast
        have "client_make_move (Some c) ident move w = Some (-1, w5)"
          using eqs p(1) 3(1) True 4(1,2)
          by (cases "inv_target u1 = c"; cases "inv_src u1 = c") (simp_all add: client_make_move_def)
        then show ?thesis using 4(3) evo_trans [OF e3 4(4)] by blast
      next
        case st: False
        then have role: "?role \<noteq> NULL_ROLE" using 3(6) p(3) by simp
        let ?t = "if inv_src u1 = c then inv_target u1 else inv_src u1"
        have parties: "c = inv_src u1 \<and> ?t = inv_target u1 \<or> c = inv_target u1 \<and> ?t = inv_src u1"
          using role by (auto split: if_splits)
        have u3: "invs w3 i = Some u1" using u2 3(5) by simp
        obtain s' v' where "clients w3 (inv_src u1) = Some s'" "clients w3 (inv_target u1) = Some v'"
          by (rule parties_live [OF world_okD(1) [OF 3(2)] u3])
        then obtain tv where "clients w3 ?t = Some tv" by (cases "inv_src u1 = c") auto
        then obtain w4 where 4: "client_ref (Some ?t) w3 = Some (Some ?t, w4)"
            "world_ok k (add_mset (Unref_Client ?t) (add_mset (Unref_Game g) (add_mset (Unref_Inv i) L))) w4"
            "evo w3 w4" "invs w4 = invs w3"
          using ok_client_ref [OF 3(2)] by blast
        have u4: "invs w4 i = Some u1" using u3 4(4) by simp
        obtain st5 w5 where 5: "move_made (Some c) ident (Some i) (Some g) ?role (Some ?t) w4 = Some (st5, w5)"
            "world_ok (Suc (Suc (Suc k))) L w5" "evo w4 w5"
          using move_made_safe [OF 4(2) u4 parties role] by blast
        have "client_make_move (Some c) ident move w = Some (st5, w5)"
        proof (cases "inv_src u1 = c")
          case True
          then show ?thesis using eqs p(1) 3(1) st 4(1) 5(1)
            by (cases "inv_target u1 = c") (simp_all add: client_make_move_def)
        next
          case False
          then show ?thesis using eqs p(1) 3(1) st 4(1) 5(1)
            by (cases "inv_target u1 = c") (simp_all add: client_make_move_def)
        qed
        then show ?thesis using 5(2) evo_trans [OF evo_trans [OF e3 4(3)] 5(3)] by blast
      qed
    qed
  qed
qed

subsection \<open>The loop of a logout\<close>

lemma evo_cap:
  assumes "world_ok k L w" and "evo w w'" and "clients w c = Some v" and "clients w' c = Some v'"
  shows "invs_cap v' = invs_cap v"
proof -
  from evo_client [OF assms(2,4)] assms(3) show ?thesis by (auto simp: client_keeps_def)
qed

lemma logout_slot_safe:
  assumes "world_ok (Suc (Suc k)) L w" and "anchored L w c" and "clients w c = Some v" and "ident < invs_cap v"
  shows "\<exists>w'. logout_slot c ident w = Some w' \<and> world_ok (Suc (Suc k)) L w' \<and> evo w w'"
proof -
  obtain st1 w1 where 1: "client_resign_game (Some c) ident w = Some (st1, w1)" "world_ok (Suc (Suc k)) L w1" "evo w w1"
    using resign_safe [OF assms(1,3,4)] by blast
  have "anchored L w1 c" using anchored_evo [OF 1(3)] assms(2) by blast
  then obtain v1 where v1: "clients w1 c = Some v1" by (rule anchored_live [OF 1(2)])
  have c1: "ident < invs_cap v1" using evo_cap [OF assms(1) 1(3) assms(3) v1] assms(4) by simp
  obtain st2 w2 where 2: "client_revoke_invitation (Some c) ident w1 = Some (st2, w2)" "world_ok (Suc (Suc k)) L w2" "evo w1 w2"
    using revoke_safe [OF 1(2) v1 c1] by blast
  have e2: "evo w w2" by (rule evo_trans [OF 1(3) 2(3)])
  have "anchored L w2 c" using anchored_evo [OF e2] assms(2) by blast
  then obtain v2 where v2: "clients w2 c = Some v2" by (rule anchored_live [OF 2(2)])
  have c2: "ident < invs_cap v2" using evo_cap [OF assms(1) e2 assms(3) v2] assms(4) by simp
  obtain st3 w3 where 3: "client_decline_invitation (Some c) ident w2 = Some (st3, w3)" "world_ok (Suc (Suc k)) L w3" "evo w2 w3"
    using decline_safe [OF 2(2) v2 c2] by blast
  show ?thesis
    using 1 2 3 e2 evo_trans [OF e2 3(3)]
    by (cases "st1 = -1"; cases "st2 = -1") (simp_all add: logout_slot_def)
qed

lemma logout_slots_safe:
  assumes "world_ok (Suc (Suc k)) L w" and "anchored L w c" and "clients w c = Some v"
    and "\<forall>n \<in> set ns. n < invs_cap v"
  shows "\<exists>w'. logout_slots c ns w = Some w' \<and> world_ok (Suc (Suc k)) L w' \<and> evo w w'"
  using assms
proof (induction ns arbitrary: w v)
  case Nil
  then show ?case by simp
next
  case (Cons n ns)
  obtain w1 where 1: "logout_slot c n w = Some w1" "world_ok (Suc (Suc k)) L w1" "evo w w1"
    using logout_slot_safe [OF Cons.prems(1-3), of n] Cons.prems(4) by auto
  have a1: "anchored L w1 c" using anchored_evo [OF 1(3)] Cons.prems(2) by blast
  then obtain v1 where v1: "clients w1 c = Some v1" by (rule anchored_live [OF 1(2)])
  have "\<forall>m \<in> set ns. m < invs_cap v1"
    using evo_cap [OF Cons.prems(1) 1(3) Cons.prems(3) v1] Cons.prems(4) by simp
  from Cons.IH [OF 1(2) a1 v1 this] obtain w2 where
    "logout_slots c ns w1 = Some w2" "world_ok (Suc (Suc k)) L w2" "evo w1 w2" by blast
  with 1 evo_trans show ?case by auto
qed

end
