(* ===== verification/Player_Registry.thy ===== *)
theory Player_Registry
  imports World Slots
begin

text \<open>
  The player registry (\<open>src/src/player_registry.c\<close>): the table of all players that ever logged in,
  which keeps a reference to each of them until the server ends. The loop counter of the code is an
  \<open>int\<close>; the model assumes a table of fewer than \<open>2 ^ 31\<close> entries.
\<close>

definition preg_init :: "mem \<Rightarrow> player_registry option \<times> mem" where
  "preg_init m =
    (let (ok, m) = malloc m
     in if \<not> ok then (None, m)
        else let (ok, m) = malloc m
        in if \<not> ok then (None, m)
        else (Some \<lparr>preg_arr = replicate MAX_CLIENTS None, preg_len = 0, preg_cap = MAX_CLIENTS\<rparr>, m))"

text \<open>\<open>preg_fini\<close>: every player in the table loses the registry's reference.\<close>

fun unref_players :: "nat option list \<Rightarrow> world \<Rightarrow> world option" where
  "unref_players [] w = Some w"
| "unref_players (x # xs) w =
     (case x of None \<Rightarrow> unref_players xs w
      | Some p \<Rightarrow> do { w \<leftarrow> w_player_unref (Some p) w; unref_players xs w })"

definition preg_fini :: "world \<Rightarrow> world option" where
  "preg_fini w = do {
     w \<leftarrow> unref_players (take (preg_cap (preg w)) (preg_arr (preg w))) w;
     Some (w\<lparr>preg := (preg w)\<lparr>preg_arr := []\<rparr>\<rparr>)
   }"

text \<open>The search of \<open>preg_register\<close> for a player with this name.\<close>

fun find_player :: "string \<Rightarrow> nat option list \<Rightarrow> world \<Rightarrow> nat option option" where
  "find_player nm [] w = Some None"
| "find_player nm (x # xs) w =
     (case x of None \<Rightarrow> find_player nm xs w
      | Some p \<Rightarrow> do {
          othername \<leftarrow> w_player_get_name (Some p) w;
          if nm = othername then Some (Some p) else find_player nm xs w
        })"

text \<open>The enlarged table; a failing \<open>reallocarray\<close> leaves a \<open>NULL\<close> array, which is then written.\<close>

definition preg_grow :: "world \<Rightarrow> world option" where
  "preg_grow w =
    (if preg_len (preg w) \<ge> preg_cap (preg w) then
       let (ok, w) = w_malloc w; r = preg w
       in if \<not> ok then None
          else Some (w\<lparr>preg := r\<lparr>preg_arr := take (preg_cap r) (preg_arr r) @ replicate (preg_cap r) None,
                               preg_cap := preg_cap r * 2\<rparr>\<rparr>)
     else Some w)"

definition preg_register :: "string \<Rightarrow> world \<Rightarrow> (nat option \<times> world) option" where
  "preg_register nm w = do {
     w \<leftarrow> preg_grow w;
     found \<leftarrow> find_player nm (take (preg_cap (preg w)) (preg_arr (preg w))) w;
     if found \<noteq> None then w_player_ref found w
     else do {
       (player, w) \<leftarrow>
         (case find_idx (\<lambda>x. x = None) (take (preg_cap (preg w)) (preg_arr (preg w))) of
            None \<Rightarrow> Some (None, w)
          | Some k \<Rightarrow> do {
              let (pp, w) = w_player_create (Some nm) w;
              let w = w\<lparr>preg := (preg w)\<lparr>preg_arr := (preg_arr (preg w))[k := pp]\<rparr>\<rparr>;
              w_player_ref pp w
            });
       Some (player, w\<lparr>preg := (preg w)\<lparr>preg_len := preg_len (preg w) + 1\<rparr>\<rparr>)
     }
   }"

subsection \<open>The invariant of the registry\<close>

definition set_preg_slot :: "nat \<Rightarrow> nat option \<Rightarrow> world \<Rightarrow> world" where
  "set_preg_slot k x w = w\<lparr>preg := (preg w)\<lparr>preg_arr := (preg_arr (preg w))[k := x]\<rparr>\<rparr>"

interpretation preg_table: slot_table "\<lambda>w. preg_arr (preg w)" set_preg_slot
  by unfold_locales (simp add: set_preg_slot_def)

definition named :: "world \<Rightarrow> nat \<Rightarrow> string \<Rightarrow> bool" where
  "named w a nm \<longleftrightarrow> (\<exists>p. players w a = Some p \<and> p_name p = Some nm)"

definition in_preg :: "world \<Rightarrow> nat \<Rightarrow> bool" where
  "in_preg w a \<longleftrightarrow> Some a \<in> set (preg_arr (preg w))"

text \<open>The players that the table references.\<close>

definition preg_plays :: "world \<Rightarrow> nat multiset" where
  "preg_plays w = mset (map (\<lambda>x. the x) (filter (\<lambda>x. x \<noteq> None) (preg_arr (preg w))))"

text \<open>The array has its capacity, \<open>len\<close> bounds the number of entries, every entry is a player with a
name, and no two entries have the same name. No player lives at an address that is still free.\<close>

definition preg_ok :: "world \<Rightarrow> bool" where
  "preg_ok w \<longleftrightarrow> length (preg_arr (preg w)) = preg_cap (preg w) \<and> 0 < preg_cap (preg w) \<and>
     occupied (preg_arr (preg w)) \<le> preg_len (preg w) \<and> preg_len (preg w) \<le> preg_cap (preg w) \<and>
     (\<forall>a. in_preg w a \<longrightarrow> (\<exists>nm. named w a nm)) \<and>
     (\<forall>a b nm. in_preg w a \<longrightarrow> in_preg w b \<longrightarrow> named w a nm \<longrightarrow> named w b nm \<longrightarrow> a = b) \<and>
     (\<forall>a \<ge> next_addr w. players w a = None)"

lemma preg_okD:
  assumes "preg_ok w"
  shows "take (preg_cap (preg w)) (preg_arr (preg w)) = preg_arr (preg w)"
    and "in_preg w a \<Longrightarrow> \<exists>nm. named w a nm"
    and "in_preg w a \<Longrightarrow> in_preg w b \<Longrightarrow> named w a nm \<Longrightarrow> named w b nm \<Longrightarrow> a = b"
    and "next_addr w \<le> a \<Longrightarrow> players w a = None"
  using assms unfolding preg_ok_def by (simp, blast+)

lemma occupied_append [simp]: "occupied (xs @ ys) = occupied xs + occupied ys"
  by (simp add: occupied_def)

lemma preg_grow_ok:
  assumes "preg_ok w" and "mem (os w) = []"
  shows "\<exists>r. preg_grow w = Some (w\<lparr>preg := r\<rparr>) \<and> preg_ok (w\<lparr>preg := r\<rparr>) \<and>
    (\<forall>a. in_preg (w\<lparr>preg := r\<rparr>) a = in_preg w a) \<and> preg_len r < preg_cap r \<and>
    preg_plays (w\<lparr>preg := r\<rparr>) = preg_plays w"
proof (cases "preg_len (preg w) \<ge> preg_cap (preg w)")
  case False
  then show ?thesis using assms(1) by (intro exI [of _ "preg w"]) (simp add: preg_grow_def)
next
  case True
  let ?r = "(preg w)\<lparr>preg_arr := preg_arr (preg w) @ replicate (preg_cap (preg w)) None,
                     preg_cap := preg_cap (preg w) * 2\<rparr>"
  have mal: "w_malloc w = (True, w)"
    using assms(2) by (simp add: w_malloc_def os_malloc_def)
  have same: "in_preg (w\<lparr>preg := ?r\<rparr>) a = in_preg w a" for a
    by (auto simp: in_preg_def)
  have nm: "named (w\<lparr>preg := ?r\<rparr>) a n = named w a n" for a n by (simp add: named_def)
  have "preg_ok (w\<lparr>preg := ?r\<rparr>)"
    using assms(1) unfolding preg_ok_def same nm by simp
  moreover have "preg_grow w = Some (w\<lparr>preg := ?r\<rparr>)"
    using True mal preg_okD(1) [OF assms(1)] by (simp add: preg_grow_def Let_def)
  moreover have "preg_len ?r < preg_cap ?r"
    using assms(1) by (simp add: preg_ok_def)
  moreover have "preg_plays (w\<lparr>preg := ?r\<rparr>) = preg_plays w" by (simp add: preg_plays_def)
  ultimately show ?thesis using same by blast
qed

lemma find_player_correct:
  assumes "\<And>a. Some a \<in> set xs \<Longrightarrow> \<exists>n. named w a n"
  shows "\<exists>r. find_player nm xs w = Some r \<and>
    (case r of None \<Rightarrow> \<forall>a. Some a \<in> set xs \<longrightarrow> \<not> named w a nm
     | Some a \<Rightarrow> Some a \<in> set xs \<and> named w a nm)"
  using assms
proof (induction xs)
  case Nil
  then show ?case by simp
next
  case (Cons x xs)
  then obtain r where r: "find_player nm xs w = Some r"
    "case r of None \<Rightarrow> \<forall>a. Some a \<in> set xs \<longrightarrow> \<not> named w a nm
     | Some a \<Rightarrow> Some a \<in> set xs \<and> named w a nm" by auto
  show ?case
  proof (cases x)
    case None
    with r show ?thesis by (auto split: option.splits)
  next
    case (Some a)
    then obtain p n where p: "players w a = Some p" "p_name p = Some n"
      using Cons.prems [of a] by (auto simp: named_def)
    then have "w_player_get_name (Some a) w = Some n"
      by (simp add: w_player_get_name_def player_get_name_def)
    moreover have "named w a nm \<longleftrightarrow> n = nm" using p by (simp add: named_def)
    ultimately show ?thesis using r Some by (cases "n = nm") (auto split: option.splits)
  qed
qed

lemma named_iff: "named w a n \<longleftrightarrow> map_option p_name (players w a) = Some (Some n)"
  by (auto simp: named_def)

lemma preg_ok_cong:
  assumes "preg w' = preg w" and "next_addr w' = next_addr w"
    and "\<And>a. map_option p_name (players w' a) = map_option p_name (players w a)"
  shows "preg_ok w' = preg_ok w"
proof -
  have "players w' a = None \<longleftrightarrow> players w a = None" for a
    using assms(3) [of a] by (metis map_option_is_None)
  then show ?thesis
    unfolding preg_ok_def in_preg_def named_iff assms by simp
qed

text \<open>The two results of \<open>preg_register\<close> on a table with room.\<close>

definition reref :: "nat \<Rightarrow> world \<Rightarrow> world" where
  "reref a w = w\<lparr>players := (players w)(a := map_option (\<lambda>p. p\<lparr>p_ref_count := p_ref_count p + 1\<rparr>) (players w a))\<rparr>"

definition new_player :: "string \<Rightarrow> world \<Rightarrow> player" where
  "new_player nm w = \<lparr>rating = PLAYER_INITIAL_RATING, player_id = player_counter w, p_name = Some nm,
                      p_ref_count = 2\<rparr>"

definition enter :: "string \<Rightarrow> nat \<Rightarrow> world \<Rightarrow> world" where
  "enter nm k w = w\<lparr>players := (players w)(next_addr w := Some (new_player nm w)),
     next_addr := Suc (next_addr w), player_counter := player_counter w + 1,
     preg := (preg w)\<lparr>preg_arr := (preg_arr (preg w))[k := Some (next_addr w)],
                      preg_len := preg_len (preg w) + 1\<rparr>\<rparr>"

lemma register_known:
  assumes "preg_ok w" and "mem (os w) = []" and "in_preg w a" and "named w a nm"
  shows "\<exists>r. preg_register nm w = Some (Some a, reref a (w\<lparr>preg := r\<rparr>)) \<and>
    preg_ok (reref a (w\<lparr>preg := r\<rparr>)) \<and> (\<forall>b. in_preg (w\<lparr>preg := r\<rparr>) b = in_preg w b) \<and>
    preg_plays (w\<lparr>preg := r\<rparr>) = preg_plays w"
proof -
  obtain r where r: "preg_grow w = Some (w\<lparr>preg := r\<rparr>)" "preg_ok (w\<lparr>preg := r\<rparr>)"
    "\<And>b. in_preg (w\<lparr>preg := r\<rparr>) b = in_preg w b" "preg_plays (w\<lparr>preg := r\<rparr>) = preg_plays w"
    using preg_grow_ok [OF assms(1,2)] by blast
  let ?w = "w\<lparr>preg := r\<rparr>"
  have nm: "named ?w b n = named w b n" for b n by (simp add: named_def)
  obtain x where x: "find_player nm (preg_arr r) ?w = Some x"
    "case x of None \<Rightarrow> \<forall>a. Some a \<in> set (preg_arr r) \<longrightarrow> \<not> named ?w a nm
     | Some a \<Rightarrow> Some a \<in> set (preg_arr r) \<and> named ?w a nm"
    using find_player_correct [of "preg_arr r" ?w nm] preg_okD(2) [OF r(2)]
    by (auto simp: in_preg_def)
  have inr: "Some b \<in> set (preg_arr r) \<longleftrightarrow> in_preg w b" for b
    using r(3) [of b] by (simp add: in_preg_def)
  have "x = Some a"
  proof (cases x)
    case None
    with x(2) assms(3,4) show ?thesis by (simp add: inr nm)
  next
    case (Some b)
    with x(2) have "in_preg w b" "named w b nm" by (simp_all add: inr nm)
    then show ?thesis using preg_okD(3) [OF assms(1) _ assms(3) _ assms(4)] Some by blast
  qed
  moreover obtain p where p: "players w a = Some p" using assms(4) by (auto simp: named_def)
  ultimately have eq: "preg_register nm w = Some (Some a, reref a ?w)"
    using r(1) x(1) preg_okD(1) [OF r(2)]
    by (simp add: preg_register_def w_player_ref_def player_ref_def reref_def size_inc_def)
  have "preg_ok (reref a ?w) = preg_ok ?w"
    using p by (intro preg_ok_cong) (simp_all add: reref_def)
  with eq r(2-4) show ?thesis by blast
qed

lemma register_new:
  assumes "preg_ok w" and "mem (os w) = []" and "\<And>a. in_preg w a \<Longrightarrow> \<not> named w a nm"
  shows "\<exists>r k. preg_register nm w = Some (Some (next_addr w), enter nm k (w\<lparr>preg := r\<rparr>)) \<and>
    preg_ok (enter nm k (w\<lparr>preg := r\<rparr>)) \<and>
    (\<forall>b. in_preg (enter nm k (w\<lparr>preg := r\<rparr>)) b \<longleftrightarrow> b = next_addr w \<or> in_preg w b) \<and>
    preg_plays (enter nm k (w\<lparr>preg := r\<rparr>)) = add_mset (next_addr w) (preg_plays w)"
proof -
  obtain r where r: "preg_grow w = Some (w\<lparr>preg := r\<rparr>)" "preg_ok (w\<lparr>preg := r\<rparr>)"
    "\<And>b. in_preg (w\<lparr>preg := r\<rparr>) b = in_preg w b" "preg_len r < preg_cap r"
    "preg_plays (w\<lparr>preg := r\<rparr>) = preg_plays w"
    using preg_grow_ok [OF assms(1,2)] by blast
  let ?w = "w\<lparr>preg := r\<rparr>"
  have inr: "Some b \<in> set (preg_arr r) \<longleftrightarrow> in_preg w b" for b
    using r(3) [of b] by (simp add: in_preg_def)
  have nm: "named ?w b n = named w b n" for b n by (simp add: named_def)
  obtain x where x: "find_player nm (preg_arr r) ?w = Some x"
    "case x of None \<Rightarrow> \<forall>a. Some a \<in> set (preg_arr r) \<longrightarrow> \<not> named ?w a nm
     | Some a \<Rightarrow> Some a \<in> set (preg_arr r) \<and> named ?w a nm"
    using find_player_correct [of "preg_arr r" ?w nm] preg_okD(2) [OF r(2)]
    by (auto simp: in_preg_def)
  have none: "x = None" using x(2) assms(3) by (cases x) (auto simp: inr nm)
  have len: "length (preg_arr r) = preg_cap r" "occupied (preg_arr r) \<le> preg_len r"
    using r(2) by (simp_all add: preg_ok_def)
  then have "None \<in> set (preg_arr r)" using r(4) occupied_full_iff [of "preg_arr r"] by fastforce
  then obtain k where k: "find_idx (\<lambda>x. x = None) (preg_arr r) = Some k" by (rule find_idx_member)
  have k': "k < length (preg_arr r)" "preg_arr r ! k = None" using find_idx_SomeD [OF k] by simp_all
  let ?e = "enter nm k ?w"
  have "player_create (Some nm) (player_counter w) [] =
      (Some (\<lparr>rating = PLAYER_INITIAL_RATING, player_id = player_counter w, p_name = Some nm,
              p_ref_count = 1\<rparr>), player_counter w + 1, [])"
    by (simp add: player_create_def player_ref_def size_inc_def)
  then have eq: "preg_register nm w = Some (Some (next_addr w), ?e)"
    using r(1) x(1) none k preg_okD(1) [OF r(2)] assms(2)
    by (simp add: preg_register_def w_player_create_def w_player_ref_def player_ref_def enter_def
        new_player_def size_inc_def Let_def)
  have ine: "in_preg ?e b \<longleftrightarrow> b = next_addr w \<or> in_preg w b" for b
    using preg_table.set_fill [of ?w k b "next_addr w"] k inr [of b]
    by (simp add: in_preg_def enter_def set_preg_slot_def)
  have fresh: "players w b = None" if "next_addr w \<le> b" for b using preg_okD(4) [OF assms(1) that] .
  have ne: "named ?e b n \<longleftrightarrow> (if b = next_addr w then n = nm else named w b n)" for b n
    by (auto simp: named_def enter_def new_player_def)
  have "b \<noteq> next_addr w" if "in_preg w b" for b
    using preg_okD(2) [OF assms(1) that] fresh [of b] by (auto simp: named_def)
  then have "a = b" if "in_preg ?e a" "in_preg ?e b" "named ?e a n" "named ?e b n" for a b n
    using that preg_okD(3) [OF assms(1), of a b n] assms(3)
    unfolding ine ne by (auto split: if_splits)
  moreover have "\<exists>n. named ?e a n" if "in_preg ?e a" for a
    using that preg_okD(2) [OF assms(1), of a] unfolding ine ne by auto
  moreover have "occupied (preg_arr (preg ?e)) \<le> preg_len (preg ?e)"
    using k' len(2) by (simp add: enter_def occupied_fill)
  moreover have "players ?e a = None" if "next_addr ?e \<le> a" for a
    using that fresh [of a] by (simp add: enter_def)
  ultimately have "preg_ok ?e"
    using r(2,4) unfolding preg_ok_def by (simp add: enter_def)
  moreover have "preg_plays ?e = add_mset (next_addr w) (preg_plays w)"
    unfolding r(5) [symmetric] using slots_fill [OF k', where f = "\<lambda>a. a" and i = "next_addr w"]
    by (simp add: preg_plays_def enter_def)
  ultimately show ?thesis using eq ine by blast
qed

lemma in_preg_live: "preg_ok w \<Longrightarrow> in_preg w a \<Longrightarrow> a < next_addr w"
  using preg_okD(2,4) [of w a] by (fastforce simp: named_def not_less)

lemma reref_named [simp]: "named (reref a w) b n = named w b n"
  by (auto simp: named_def reref_def)

lemma reref_frame [simp]: "in_preg (reref a w) b = in_preg w b" "os (reref a w) = os w"
  by (simp_all add: in_preg_def reref_def)

lemma enter_frame:
  "named (enter nm k w) b n \<longleftrightarrow> (if b = next_addr w then n = nm else named w b n)"
  "os (enter nm k w) = os w"
  by (auto simp: named_def enter_def new_player_def)

subsection \<open>Properties of the player registry\<close>

text \<open>C22: with memory available \<open>preg_register\<close> always returns a player with the given name that is in
the registry, keeps the invariant of the registry, and keeps every player that was there. A name that
is registered gives the player registered under it, with one more reference; a new name gives a new
player with the initial rating and two references. Registering the same name again gives the same
player: ratings survive a logout.\<close>

theorem preg_register_correct:
  assumes "preg_ok w" and "mem (os w) = []"
  shows "\<exists>a w'. preg_register nm w = Some (Some a, w') \<and> preg_ok w' \<and> in_preg w' a \<and> named w' a nm \<and>
    (\<forall>b n. in_preg w b \<and> named w b n \<longrightarrow> in_preg w' b \<and> named w' b n) \<and>
    (if \<exists>b. in_preg w b \<and> named w b nm
     then in_preg w a \<and> players w' = players (reref a w)
     else a = next_addr w \<and> players w' = (players w)(a := Some (new_player nm w))) \<and>
    (\<exists>w''. preg_register nm w' = Some (Some a, w''))"
proof (cases "\<exists>b. in_preg w b \<and> named w b nm")
  case True
  then obtain a where a: "in_preg w a" "named w a nm" by blast
  obtain r where r: "preg_register nm w = Some (Some a, reref a (w\<lparr>preg := r\<rparr>))"
      "preg_ok (reref a (w\<lparr>preg := r\<rparr>))" "\<And>b. in_preg (w\<lparr>preg := r\<rparr>) b = in_preg w b"
    using register_known [OF assms a] by blast
  let ?w = "reref a (w\<lparr>preg := r\<rparr>)"
  have nm: "named ?w b n = named w b n" for b n unfolding reref_named by (simp add: named_def)
  have "in_preg ?w a" "named ?w a nm" "mem (os ?w) = []" using a r(3) assms(2) nm by simp_all
  then have "\<exists>w''. preg_register nm ?w = Some (Some a, w'')"
    using register_known [OF r(2)] by blast
  moreover have "players ?w = players (reref a w)" by (simp add: reref_def)
  ultimately show ?thesis using r a nm True by (intro exI [of _ a] exI [of _ ?w]) simp
next
  case False
  then obtain r k where r: "preg_register nm w = Some (Some (next_addr w), enter nm k (w\<lparr>preg := r\<rparr>))"
      "preg_ok (enter nm k (w\<lparr>preg := r\<rparr>))"
      "\<And>b. in_preg (enter nm k (w\<lparr>preg := r\<rparr>)) b \<longleftrightarrow> b = next_addr w \<or> in_preg w b"
    using register_new [OF assms, of nm] by blast
  let ?w = "enter nm k (w\<lparr>preg := r\<rparr>)"
  have nm: "named ?w b n \<longleftrightarrow> (if b = next_addr w then n = nm else named w b n)" for b n
    unfolding enter_frame by (simp add: named_def)
  have "in_preg ?w (next_addr w)" "named ?w (next_addr w) nm" "mem (os ?w) = []"
    using r(3) assms(2) nm by (simp_all add: enter_frame)
  then have "\<exists>w''. preg_register nm ?w = Some (Some (next_addr w), w'')"
    using register_known [OF r(2)] by blast
  moreover have "players ?w = (players w)(next_addr w := Some (new_player nm w))"
    by (simp add: enter_def new_player_def)
  moreover have "b \<noteq> next_addr w" if "in_preg w b" for b using in_preg_live [OF assms(1) that] by simp
  ultimately show ?thesis using r nm False by (intro exI [of _ "next_addr w"] exI [of _ ?w]) auto
qed

theorem preg_register_correct_witness:
  "\<exists>a w'. preg_register ''bob'' blank_world = Some (Some a, w') \<and> named w' a ''bob''"
proof -
  have "preg_ok blank_world" "mem (os blank_world) = []"
    by (simp_all add: preg_ok_def blank_world_def in_preg_def idle_os_def)
  then show ?thesis using preg_register_correct by blast
qed

end
