(* ===== verification/Server.thy ===== *)
theory Server
  imports Client_Ops Player_Registry
begin

text \<open>
  The service of one client (\<open>src/src/server.c\<close>): the handlers of the packets that a client sends,
  one iteration of the loop of \<open>jeux_client_service\<close>, and the step relation \<open>serial_step\<close> of the server
  in which the threads of all connected clients take turns, one request at a time. An iteration whose
  \<open>read\<close> waits for the client has no value, so that the thread makes no step.
\<close>

subsection \<open>The list of users\<close>

text \<open>The loop that prints the list that \<open>creg_all_players\<close> returned.\<close>

fun users_text :: "nat list \<Rightarrow> world \<Rightarrow> (string \<times> world) option" where
  "users_text [] w = Some ([], w)"
| "users_text (a # as) w = do {
     nm \<leftarrow> w_player_get_name (Some a) w;
     r \<leftarrow> w_player_get_rating (Some a) w;
     w \<leftarrow> w_player_unref (Some a) w;
     (txt, w) \<leftarrow> users_text as w;
     Some (nm @ [CHR 0x09] @ dec_string r @ [CHR 0x0A] @ txt, w)
   }"

text \<open>A failing \<open>open_memstream\<close> is not checked: its result is then used as a stream.\<close>

definition user_handler :: "nat \<Rightarrow> world \<Rightarrow> world option" where
  "user_handler c w = do {
     (all_players, w) \<leftarrow> creg_all_players w;
     let (ok, w) = w_malloc w;
     if \<not> ok then None
     else do {
       (string_print, w) \<leftarrow> users_text all_players w;
       (_, w) \<leftarrow> send_pkt (Some c) JEUX_ACK_PKT 0 NULL_ROLE (length string_print)
                  (Some (bytes_of string_print)) w;
       Some w
     }
   }"

subsection \<open>The handlers of requests\<close>

text \<open>The zeroed buffer of \<open>payload_size + 1\<close> bytes after \<open>memcpy\<close>, read as a C string; copying more
than the payload holds is undefined.\<close>

definition payload_string :: "byte list option \<Rightarrow> nat \<Rightarrow> string option" where
  "payload_string payloadp sz =
    (let data = (case payloadp of None \<Rightarrow> [] | Some d \<Rightarrow> d)
     in if length data < sz then None else Some (cstr (take sz data)))"

definition invite_handler :: "nat \<Rightarrow> byte list option \<Rightarrow> packet_header \<Rightarrow> world \<Rightarrow> (int \<times> world) option" where
  "invite_handler c payloadp jph w =
    (if payloadp = None then Some (-1, w)
     else
       let hdr = unpack_header jph; (ok, w) = w_malloc w
       in if \<not> ok then Some (-1, w)
          else do {
            nm \<leftarrow> payload_string payloadp (unat (pkt_size hdr));
            (target, w) \<leftarrow> creg_lookup nm w;
            if target = None then Some (-1, w)
            else do {
              let trole = (if pkt_role hdr = 1 then FIRST_PLAYER_ROLE else SECOND_PLAYER_ROLE);
              let srole = (if trole = FIRST_PLAYER_ROLE then SECOND_PLAYER_ROLE else FIRST_PLAYER_ROLE);
              (ident, w) \<leftarrow> client_make_invitation (Some c) target srole trole w;
              w \<leftarrow> client_unref target w;
              if ident = -1 then Some (-1, w)
              else do {
                (_, w) \<leftarrow> send_pkt (Some c) JEUX_ACK_PKT ident NULL_ROLE 0 None w;
                Some (ident, w)
              }
            }
          })"

definition revoke_handler :: "nat \<Rightarrow> packet_header \<Rightarrow> world \<Rightarrow> (int \<times> world) option" where
  "revoke_handler c jph w = do {
     let hdr = unpack_header jph;
     (status, w) \<leftarrow> client_revoke_invitation (Some c) (unat (pkt_id hdr)) w;
     if status = -1 then Some (-1, w) else client_send_ack (Some c) None 0 w
   }"

definition decline_handler :: "nat \<Rightarrow> packet_header \<Rightarrow> world \<Rightarrow> (int \<times> world) option" where
  "decline_handler c jph w = do {
     let hdr = unpack_header jph;
     (status, w) \<leftarrow> client_decline_invitation (Some c) (unat (pkt_id hdr)) w;
     if status = -1 then Some (-1, w) else client_send_ack (Some c) None 0 w
   }"

definition accept_handler :: "nat \<Rightarrow> packet_header \<Rightarrow> world \<Rightarrow> (int \<times> world) option" where
  "accept_handler c jph w = do {
     let hdr = unpack_header jph;
     ((status, str_ptr), w) \<leftarrow> client_accept_invitation (Some c) (unat (pkt_id hdr)) w;
     if status = -1 then Some (-1, w)
     else (case str_ptr of
             Some s \<Rightarrow> client_send_ack (Some c) (Some (bytes_of s)) (length s) w
           | None \<Rightarrow> client_send_ack (Some c) None 0 w)
   }"

definition move_handler :: "nat \<Rightarrow> byte list option \<Rightarrow> packet_header \<Rightarrow> world \<Rightarrow> (int \<times> world) option" where
  "move_handler c payloadp jph w =
    (let hdr = unpack_header jph; (ok, w) = w_malloc w
     in if \<not> ok then Some (-1, w)
        else do {
          move_name \<leftarrow> payload_string payloadp (unat (pkt_size hdr));
          (move_status, w) \<leftarrow> client_make_move (Some c) (unat (pkt_id hdr)) move_name w;
          if move_status = -1 then Some (-1, w) else client_send_ack (Some c) None 0 w
        })"

definition resign_handler :: "nat \<Rightarrow> packet_header \<Rightarrow> world \<Rightarrow> (int \<times> world) option" where
  "resign_handler c jph w = do {
     let hdr = unpack_header jph;
     (resign_status, w) \<leftarrow> client_resign_game (Some c) (unat (pkt_id hdr)) w;
     if resign_status = -1 then Some (-1, w) else client_send_ack (Some c) None 0 w
   }"

definition login_handler ::
  "nat \<Rightarrow> byte list option \<Rightarrow> packet_header \<Rightarrow> world \<Rightarrow> (nat option \<times> world) option" where
  "login_handler c payloadp jph w =
    (if payloadp = None then do { (_, w) \<leftarrow> client_send_nack (Some c) w; Some (None, w) }
     else
       let hdr = unpack_header jph; (ok, w) = w_malloc w
       in if \<not> ok then do { (_, w) \<leftarrow> client_send_nack (Some c) w; Some (None, w) }
          else do {
            nm \<leftarrow> payload_string payloadp (unat (pkt_size hdr));
            (new_player, w) \<leftarrow> preg_register nm w;
            if new_player = None then do { (_, w) \<leftarrow> client_send_nack (Some c) w; Some (None, w) }
            else do {
              (st, w) \<leftarrow> client_login (Some c) new_player w;
              if st = -1 then do {
                w \<leftarrow> w_player_unref new_player w;
                (_, w) \<leftarrow> client_send_nack (Some c) w;
                Some (None, w)
              }
              else do {
                (status, w) \<leftarrow> client_send_ack (Some c) None 0 w;
                if status = -1 then Some (None, w) else Some (new_player, w)
              }
            }
          })"

subsection \<open>The service loop\<close>

text \<open>A thread: its descriptor, its client, and the variable \<open>new_player\<close>.\<close>

record service =
  svc_fd :: int
  svc_client :: nat
  svc_player :: "nat option"

definition service_start :: "int \<Rightarrow> world \<Rightarrow> (service option \<times> world) option" where
  "service_start fd w = do {
     (cp, w) \<leftarrow> creg_register fd w;
     Some (map_option (\<lambda>c. \<lparr>svc_fd = fd, svc_client = c, svc_player = None\<rparr>) cp, w)
   }"

text \<open>The end of the loop, when no packet could be received.\<close>

definition service_end :: "service \<Rightarrow> world \<Rightarrow> world option" where
  "service_end t w = do {
     w \<leftarrow> (if svc_player t \<noteq> None then do {
             w \<leftarrow> w_player_unref (svc_player t) w;
             (_, w) \<leftarrow> client_logout (Some (svc_client t)) w;
             Some w
           }
           else Some w);
     (_, w) \<leftarrow> creg_unregister (svc_client t) w;
     Some w
   }"

text \<open>The \<open>NACK\<close> that follows a handler that returned -1, and the \<open>switch\<close> over the packet types of
a client that is logged in; other types are ignored.\<close>

definition nack_failed :: "nat \<Rightarrow> int \<times> world \<Rightarrow> world option" where
  "nack_failed c r = (case r of (status, w) \<Rightarrow>
     if status = -1 then do { (_, w) \<leftarrow> client_send_nack (Some c) w; Some w } else Some w)"

definition dispatch :: "nat \<Rightarrow> packet_header \<Rightarrow> byte list option \<Rightarrow> world \<Rightarrow> world option" where
  "dispatch c jph payloadp w =
    (if pkt_type jph = pkt_code JEUX_USERS_PKT then user_handler c w
     else if pkt_type jph = pkt_code JEUX_INVITE_PKT then
       do { r \<leftarrow> invite_handler c payloadp jph w; nack_failed c r }
     else if pkt_type jph = pkt_code JEUX_REVOKE_PKT then
       do { r \<leftarrow> revoke_handler c jph w; nack_failed c r }
     else if pkt_type jph = pkt_code JEUX_DECLINE_PKT then
       do { r \<leftarrow> decline_handler c jph w; nack_failed c r }
     else if pkt_type jph = pkt_code JEUX_ACCEPT_PKT then
       do { r \<leftarrow> accept_handler c jph w; nack_failed c r }
     else if pkt_type jph = pkt_code JEUX_MOVE_PKT then
       do { r \<leftarrow> move_handler c payloadp jph w; nack_failed c r }
     else if pkt_type jph = pkt_code JEUX_RESIGN_PKT then
       do { r \<leftarrow> resign_handler c jph w; nack_failed c r }
     else Some w)"

text \<open>One iteration: \<open>None\<close> in the first component is the return of the thread.\<close>

definition service_iteration :: "service \<Rightarrow> world \<Rightarrow> (service option \<times> world) option" where
  "service_iteration t w = do {
     ((status, jph, payloadp), o1) \<leftarrow> proto_recv_packet (svc_fd t) (os w);
     let w = w\<lparr>os := o1\<rparr>;
     if status = -1 then do { w \<leftarrow> service_end t w; Some (None, w) }
     else if pkt_type jph = pkt_code JEUX_LOGIN_PKT then
       (if svc_player t \<noteq> None then do {
          (_, w) \<leftarrow> client_send_nack (Some (svc_client t)) w;
          Some (Some t, w)
        }
        else do {
          (new_player, w) \<leftarrow> login_handler (svc_client t) payloadp jph w;
          Some (Some (t\<lparr>svc_player := new_player\<rparr>), w)
        })
     else if svc_player t = None then do {
       (_, w) \<leftarrow> client_send_nack (Some (svc_client t)) w;
       Some (Some t, w)
     }
     else do {
       w \<leftarrow> dispatch (svc_client t) jph payloadp w;
       Some (Some t, w)
     }
   }"

subsection \<open>The server\<close>

text \<open>The state is the shared state and the running threads, in the order in which they connected. The
code holds no lock over a request: what two requests can do to one another between their statements is
the subject of \<open>Login_Race\<close>, \<open>Move_Race\<close>, \<open>Slot_Race\<close> and \<open>Invite_Race\<close>.\<close>

inductive serial_step :: "world \<times> service list \<Rightarrow> world \<times> service list \<Rightarrow> bool" where
  connect: "service_start fd w = Some (Some t, w') \<Longrightarrow> serial_step (w, ts) (w', ts @ [t])"
| refuse: "service_start fd w = Some (None, w') \<Longrightarrow> serial_step (w, ts) (w', ts)"
| serve: "i < length ts \<Longrightarrow> service_iteration (ts ! i) w = Some (Some t, w') \<Longrightarrow>
    serial_step (w, ts) (w', ts[i := t])"
| finish: "i < length ts \<Longrightarrow> service_iteration (ts ! i) w = Some (None, w') \<Longrightarrow>
    serial_step (w, ts) (w', take i ts @ drop (Suc i) ts)"

inductive_cases serial_stepE: "serial_step s s'"

end
