(* ===== verification/Player_Counts.thy ===== *)
theory Player_Counts
  imports Move_Safety Server
begin

text \<open>
  The references to players. A player is referenced by the player registry, by the clients that are
  logged in as it, and by the service threads. The code leaks some of these references, so the
  invariant \<open>counted\<close> is an inequality: the count is at least the number of references. It is what
  the releases of a logout need. \<open>sane\<close> joins it with \<open>world_ok\<close> and the invariants of the two
  registries: this is the part of the server's invariant that concerns the shared state.
\<close>

subsection \<open>References to players\<close>

definition refs :: "world \<Rightarrow> nat \<Rightarrow> nat" where
  "refs w a = (case players w a of None \<Rightarrow> 0 | Some p \<Rightarrow> unat (p_ref_count p))"

definition client_plays :: "client \<Rightarrow> nat multiset" where
  "client_plays v = (case c_player v of None \<Rightarrow> {#} | Some a \<Rightarrow> {#a#})"

definition plays :: "world \<Rightarrow> nat multiset" where
  "plays w = map_sum client_plays (clients w) + preg_plays w"

definition counted :: "nat \<Rightarrow> nat multiset \<Rightarrow> world \<Rightarrow> bool" where
  "counted k M w \<longleftrightarrow> (\<forall>a. count (plays w + M) a \<le> refs w a \<and> refs w a + k < 2 ^ 64)"

lemma counted_mono: "counted k M w \<Longrightarrow> j \<le> k \<Longrightarrow> N \<subseteq># M \<Longrightarrow> counted j N w"
  unfolding counted_def using mset_subset_eq_count [of N M]
  by (auto intro: order_trans [OF add_left_mono]) (meson add_left_mono le_less_trans)

lemma counted_live:
  assumes "counted k M w" and "a \<in># plays w + M"
  obtains p where "players w a = Some p" and "p_ref_count p \<noteq> 0"
proof -
  have "0 < count (plays w + M) a" using assms(2) by simp
  then have "0 < refs w a" using assms(1) unfolding counted_def by (meson less_le_trans)
  then show thesis using that by (auto simp: refs_def unat_gt_0 split: option.splits)
qed

lemma refs_tags: "refs w a = (case tags w a of None \<Rightarrow> 0 | Some (n, k) \<Rightarrow> unat k)"
  by (simp add: refs_def tags_def split: option.splits)

lemma count_map_sum: "finite (dom h) \<Longrightarrow> count (map_sum f h) a = (\<Sum>i \<in> dom h. count (f (the (h i))) a)"
  by (simp add: map_sum_def count_sum)

lemma map_sum_kept:
  assumes "finite (dom h)" and "kept client_keeps h h'"
  shows "map_sum client_plays h' \<subseteq># map_sum client_plays h"
proof (rule mset_subset_eqI)
  fix a
  have sub: "dom h' \<subseteq> dom h" using assms(2) unfolding kept_def by blast
  have "client_plays (the (h' i)) = client_plays (the (h i))" if "i \<in> dom h'" for i
    using assms(2) that unfolding kept_def by (fastforce simp: client_plays_def client_keeps_def)
  then have "count (map_sum client_plays h') a = (\<Sum>i \<in> dom h'. count (client_plays (the (h i))) a)"
    using finite_subset [OF sub assms(1)] by (simp add: count_map_sum)
  also have "\<dots> \<le> count (map_sum client_plays h) a"
    unfolding count_map_sum [OF assms(1)] by (rule sum_mono2 [OF assms(1) sub]) simp
  finally show "count (map_sum client_plays h') a \<le> count (map_sum client_plays h) a" .
qed

lemma counted_evo:
  assumes "counted k M w" and "evo w w'" and "finite (dom (clients w))"
  shows "counted k M w'"
proof -
  have "preg_plays w' = preg_plays w" using assms(2) by (simp add: evo_def preg_plays_def)
  moreover have "map_sum client_plays (clients w') \<subseteq># map_sum client_plays (clients w)"
    using assms(2,3) by (intro map_sum_kept) (simp_all add: evo_def)
  ultimately have "count (plays w') a \<le> count (plays w) a" for a
    by (simp add: plays_def mset_subset_eq_count)
  moreover have "refs w' a = refs w a" for a using assms(2) by (simp add: refs_tags evo_def)
  ultimately show ?thesis using assms(1) unfolding counted_def count_union
    by (metis add_le_mono1 order_trans)
qed

lemma plays_frame [simp]: "plays (w\<lparr>players := ps\<rparr>) = plays w" "plays (w\<lparr>os := o1\<rparr>) = plays w"
  by (simp_all add: plays_def preg_plays_def)

lemma plays_client:
  assumes "a \<in># client_plays v" and "clients w c = Some v" and "finite (dom (clients w))"
  shows "a \<in># plays w"
  using map_sum_remove [OF assms(3,2), of client_plays] assms(1) by (simp add: plays_def)

lemma plays_player_of:
  assumes "player_of w c = Some a" and "finite (dom (clients w))"
  shows "a \<in># plays w"
proof -
  obtain v where "clients w c = Some v" "c_player v = Some a"
    using assms(1) by (auto simp: player_of_def bind_eq_Some_conv)
  with assms(2) show ?thesis by (intro plays_client [of a v]) (simp_all add: client_plays_def)
qed

subsection \<open>Taking and dropping a reference to a player\<close>

lemma unat_size_inc: "unat (n :: size_t) + 1 < 2 ^ 64 \<Longrightarrow> unat (n + 1) = unat n + 1"
  by (simp add: unat_word_ariths)

lemma counted_ref:
  assumes "counted (Suc k) M w" and "players w a = Some p"
  shows "counted k (add_mset a M) (w\<lparr>players := (players w)(a := Some (p\<lparr>p_ref_count := p_ref_count p + 1\<rparr>))\<rparr>)"
proof -
  let ?w = "w\<lparr>players := (players w)(a := Some (p\<lparr>p_ref_count := p_ref_count p + 1\<rparr>))\<rparr>"
  have "refs w a = unat (p_ref_count p)" using assms(2) by (simp add: refs_def)
  moreover have "refs w a + Suc k < 2 ^ 64" using assms(1) unfolding counted_def by blast
  ultimately have a: "refs ?w a = refs w a + 1" using unat_size_inc [of "p_ref_count p"] by (simp add: refs_def)
  have b: "refs ?w b = refs w b" if "b \<noteq> a" for b using that by (simp add: refs_def)
  show ?thesis
    unfolding counted_def
  proof
    fix b
    have "count (plays w + M) b \<le> refs w b \<and> refs w b + Suc k < 2 ^ 64"
      using assms(1) unfolding counted_def by blast
    then show "count (plays ?w + add_mset a M) b \<le> refs ?w b \<and> refs ?w b + k < 2 ^ 64"
      using a b by (cases "b = a") simp_all
  qed
qed

text \<open>The player after \<open>player_unref\<close>, if it still exists.\<close>

definition unreffed :: "player \<Rightarrow> player option" where
  "unreffed p = (if p_ref_count p = 1 then None else Some (p\<lparr>p_ref_count := p_ref_count p - 1\<rparr>))"

lemma player_unref_eq:
  "players w a = Some p \<Longrightarrow> w_player_unref (Some a) w = Some (w\<lparr>players := (players w)(a := unreffed p)\<rparr>)"
  by (simp add: w_player_unref_def player_unref_def size_dec_def unreffed_def)

lemma unat_size_dec: "(n :: size_t) \<noteq> 0 \<Longrightarrow> unat (n - 1) = unat n - 1"
  by (rule unat_minus_one)

lemma counted_unref:
  assumes "counted k (add_mset a M) w"
  obtains p where "players w a = Some p"
    and "w_player_unref (Some a) w = Some (w\<lparr>players := (players w)(a := unreffed p)\<rparr>)"
    and "counted k M (w\<lparr>players := (players w)(a := unreffed p)\<rparr>)"
proof -
  obtain p where p: "players w a = Some p" "p_ref_count p \<noteq> 0" by (rule counted_live [OF assms, of a]) simp
  let ?w = "w\<lparr>players := (players w)(a := unreffed p)\<rparr>"
  have a: "refs ?w a = refs w a - 1"
    using p unat_size_dec [of "p_ref_count p"] by (simp add: refs_def unreffed_def)
  have b: "refs ?w b = refs w b" if "b \<noteq> a" for b using that by (simp add: refs_def)
  have "counted k M ?w"
    unfolding counted_def
  proof
    fix b
    have "count (plays w + add_mset a M) b \<le> refs w b \<and> refs w b + k < 2 ^ 64"
      using assms unfolding counted_def by blast
    then show "count (plays ?w + M) b \<le> refs ?w b \<and> refs ?w b + k < 2 ^ 64"
      using a b by (cases "b = a") auto
  qed
  with p(1) player_unref_eq [OF p(1)] that show thesis by blast
qed

text \<open>The players stay well formed: a player that is still referenced is not freed.\<close>

lemma players_ok_unref:
  assumes "players_ok w" and "counted k (add_mset a M) w" and "players w a = Some p"
    and "finite (dom (clients w))"
  shows "players_ok (w\<lparr>players := (players w)(a := unreffed p)\<rparr>)"
proof -
  let ?w = "w\<lparr>players := (players w)(a := unreffed p)\<rparr>"
  have c: "counted k M ?w" by (rule counted_unref [OF assms(2)]) (use assms(3) in simp)
  have po: "player_of ?w c = player_of w c" for c by (simp add: player_of_def)
  have live: "players ?w b \<noteq> None" if "player_of w c = Some b" for c b
  proof -
    have "b \<in># plays ?w + M" using plays_player_of [OF that assms(4)] by simp
    then show ?thesis using counted_live [OF c] by (metis option.distinct(1))
  qed
  have "p_ref_count q \<noteq> 0 \<and> p_name q \<noteq> None" if "players ?w b = Some q" for b q
    using that assms(1,3) by (auto simp: players_ok_def unreffed_def split: if_splits)
  moreover have "invs ?w = invs w" by simp
  ultimately show ?thesis using live assms(1) unfolding players_ok_def po by (metis (no_types))
qed

lemma players_ok_ref:
  assumes "players_ok w" and "counted (Suc k) M w" and "players w a = Some p"
  shows "players_ok (w\<lparr>players := (players w)(a := Some (p\<lparr>p_ref_count := p_ref_count p + 1\<rparr>))\<rparr>)"
proof -
  have "p_ref_count p + 1 \<noteq> 0"
    using counted_live [OF counted_ref [OF assms(2,3)], of a] by fastforce
  then show ?thesis using assms(1,3) by (intro players_ok_update) (auto simp: players_ok_def)
qed

subsection \<open>The invariant of the shared state\<close>

text \<open>Every table of invitations has the full size, so a packet's identifier is always in range; a
registered client that is a party of an invitation is logged in.\<close>

definition parties_in :: "world \<Rightarrow> bool" where
  "parties_in w \<longleftrightarrow> (\<forall>i u c. invs w i = Some u \<longrightarrow> c = inv_src u \<or> c = inv_target u \<longrightarrow>
     registered w c \<longrightarrow> player_of w c \<noteq> None)"

definition sane :: "nat \<Rightarrow> nat multiset \<Rightarrow> pending multiset \<Rightarrow> world \<Rightarrow> bool" where
  "sane k M L w \<longleftrightarrow> world_ok k L w \<and> counted k M w \<and> preg_ok w \<and> creg_ok (creg w) \<and>
     creg_cap (creg w) = MAX_CLIENTS \<and> names_unique w \<and> parties_in w \<and> (\<forall>c v. clients w c = Some v \<longrightarrow> invs_cap v = TABLE_SIZE)"

lemma saneD:
  assumes "sane k M L w"
  shows "world_ok k L w" and "counted k M w" and "preg_ok w" and "creg_ok (creg w)" and "names_unique w"
    and "parties_in w" and "clients w c = Some v \<Longrightarrow> invs_cap v = TABLE_SIZE" and "finite (dom (clients w))"
    and "mem (os w) = []" and "players_ok w" and "creg_cap (creg w) = MAX_CLIENTS"
  using assms world_okD [of k L w] counts_ok_finite [of L w] by (auto simp: sane_def)

lemma sane_mono: "sane k M L w \<Longrightarrow> j \<le> k \<Longrightarrow> N \<subseteq># M \<Longrightarrow> sane j N L w"
  using world_ok_mono counted_mono unfolding sane_def by blast

lemma named_tags: "named w a n \<longleftrightarrow> map_option fst (tags w a) = Some (Some n)"
  by (auto simp: named_def tags_def)

lemma logged_as_named: "logged_as w c n \<longleftrightarrow> (\<exists>a. player_of w c = Some a \<and> named w a n)"
  by (auto simp: logged_as_def player_of_def named_def bind_eq_Some_conv)

lemma registered_cong: "creg w' = creg w \<Longrightarrow> registered w' c = registered w c"
  by (simp add: registered_def creg_slots_def)

lemma tags_None: "tags w a = None \<longleftrightarrow> players w a = None"
  by (simp add: tags_def)

lemma preg_ok_evo:
  assumes "preg_ok w" and "evo w w'"
  shows "preg_ok w'"
proof -
  have e: "preg w' = preg w" "next_addr w \<le> next_addr w'" "tags w' = tags w" using assms(2) by (simp_all add: evo_def)
  then have "players w' a = None \<longleftrightarrow> players w a = None" for a
    using tags_None [of w' a] tags_None [of w a] by simp
  with e assms(1) show ?thesis
    unfolding preg_ok_def in_preg_def named_tags by (auto dest: order_trans)
qed

lemma names_unique_evo:
  assumes "names_unique w" and "evo w w'"
  shows "names_unique w'"
proof -
  have l: "logged_as w c n" if "logged_as w' c n" for c n
    using that assms(2) kept_player [of w w' c] unfolding logged_as_named named_tags evo_def by metis
  have "registered w' c = registered w c" for c using assms(2) by (intro registered_cong) (simp add: evo_def)
  with l assms(1) show ?thesis unfolding names_unique_def by blast
qed

lemma parties_in_evo:
  assumes "parties_in w" and "evo w w'" and "\<And>c. registered w c \<Longrightarrow> clients w' c \<noteq> None"
  shows "parties_in w'"
  unfolding parties_in_def
proof (intro allI impI)
  fix i u' c
  assume a: "invs w' i = Some u'" "c = inv_src u' \<or> c = inv_target u'" "registered w' c"
  have r: "registered w c" using a(3) assms(2) registered_cong [of w' w c] by (simp add: evo_def)
  have "player_of w c \<noteq> None"
    using assms(1,2) a r unfolding parties_in_def evo_def heirs_def inv_keeps_def by metis
  moreover obtain v' where v': "clients w' c = Some v'" using assms(3) [OF r] by blast
  moreover obtain v where "clients w c = Some v" "client_keeps v v'" by (rule evo_client [OF assms(2) v'])
  ultimately show "player_of w' c \<noteq> None" by (simp add: player_of_def client_keeps_def)
qed

lemma registered_anchored: "registered w c \<longleftrightarrow> Unref_Client c \<in># creg_holds w"
  by (force simp: registered_def creg_holds_def)

lemma registered_live:
  assumes "world_ok k L w" and "registered w c"
  obtains v where "clients w c = Some v" and "c_ref_count v \<noteq> 0"
proof -
  have "Unref_Client c \<in># held w + L" using assms(2) by (auto simp: registered_anchored held_def)
  then show thesis using that client_ref_live_of [OF world_okD(1) [OF assms(1)]] by metis
qed

text \<open>An operation of a client keeps the invariant.\<close>

lemma sane_evo:
  assumes "sane j M L w" and "evo w w'" and "world_ok k L' w'" and "k \<le> j"
  shows "sane k M L' w'"
proof -
  note s = saneD [OF assms(1)]
  have reg: "registered w' c = registered w c" for c using assms(2) by (intro registered_cong) (simp add: evo_def)
  have "parties_in w'"
    by (rule parties_in_evo [OF s(6) assms(2)]) (metis reg registered_live [OF assms(3)] option.distinct(1))
  moreover have "invs_cap v' = TABLE_SIZE" if v': "clients w' c = Some v'" for c v'
    by (rule evo_client [OF assms(2) v']) (use s(7) in \<open>simp add: client_keeps_def\<close>)
  moreover have "counted k M w'" using counted_mono [OF counted_evo [OF s(2) assms(2) s(8)] assms(4)] by simp
  ultimately show ?thesis
    using assms(2,3) s(4,11) preg_ok_evo [OF s(3) assms(2)] names_unique_evo [OF s(5) assms(2)]
    by (simp add: sane_def evo_def)
qed

lemma sane_live:
  assumes "sane k M L w" and "registered w c"
  shows "client_live w c"
proof -
  obtain v where v: "clients w c = Some v" "c_ref_count v \<noteq> 0"
    by (rule registered_live [OF saneD(1) [OF assms(1)] assms(2)])
  have "\<exists>p nm. players w a = Some p \<and> p_name p = Some nm" if "c_player v = Some a" for a
  proof -
    have "player_of w c = Some a" using v(1) that by (simp add: player_of_def)
    then obtain p where "players w a = Some p"
      using saneD(10) [OF assms(1)] unfolding players_ok_def by blast
    then show ?thesis using saneD(10) [OF assms(1)] unfolding players_ok_def by blast
  qed
  with v show ?thesis by (simp add: client_live_def)
qed

text \<open>Registered clients that are logged in have different players.\<close>

lemma sane_distinct:
  assumes "sane k M L w" and "registered w c" and "registered w d" and "player_of w c = Some a"
    and "player_of w d = Some a"
  shows "c = d"
proof -
  obtain p nm where p: "players w a = Some p" "p_name p = Some nm"
    using sane_live [OF assms(1,2)] assms(4) by (auto simp: client_live_def player_of_def)
  then have "logged_as w c nm" "logged_as w d nm"
    using assms(4,5) by (auto simp: logged_as_named named_def)
  then show ?thesis using saneD(5) [OF assms(1)] assms(2,3) unfolding names_unique_def by blast
qed

end
