(* ===== verification/Request_Safety.thy ===== *)
theory Request_Safety
  imports Player_Counts
begin

text \<open>
  Safety of the handlers of requests (\<open>src/src/server.c\<close>) except login: from a sane state every
  handler returns, and the state stays sane. \<open>safely\<close> is the shape that all these facts have; it
  composes along the statements of a handler.
\<close>

definition safely :: "nat \<Rightarrow> pending multiset \<Rightarrow> world \<Rightarrow> ('a \<times> world) option \<Rightarrow> bool" where
  "safely k L w r \<longleftrightarrow> (\<exists>x w'. r = Some (x, w') \<and> world_ok k L w' \<and> evo w w')"

lemma safely_ret [simp]: "safely k L w (Some (x, w)) \<longleftrightarrow> world_ok k L w"
  by (simp add: safely_def)

lemma safely_bind:
  assumes "safely j L w r" and "\<And>x w1. r = Some (x, w1) \<Longrightarrow> world_ok j L w1 \<Longrightarrow> evo w w1 \<Longrightarrow> safely k L' w1 (f (x, w1))"
  shows "safely k L' w (Option.bind r f)"
proof -
  obtain x w1 where 1: "r = Some (x, w1)" "world_ok j L w1" "evo w w1"
    using assms(1) unfolding safely_def by blast
  from assms(2) [OF this] 1(1) evo_trans [OF 1(3)] show ?thesis unfolding safely_def by fastforce
qed

lemma safely_mono: "safely j L w r \<Longrightarrow> k \<le> j \<Longrightarrow> safely k L w r"
  using world_ok_mono unfolding safely_def by blast

lemma safelyI: "\<exists>x w'. r = Some (x, w') \<and> world_ok k L w' \<and> evo w w' \<Longrightarrow> safely k L w r"
  by (simp add: safely_def)

subsection \<open>Answers\<close>

lemma send_ack_pkt: "client_send_ack (Some c) d n = send_pkt (Some c) JEUX_ACK_PKT 0 NULL_ROLE n d"
  by (simp add: client_send_ack_def send_pkt_def fun_eq_iff)

lemma send_nack_pkt: "client_send_nack (Some c) = send_pkt (Some c) JEUX_NACK_PKT 0 NULL_ROLE 0 None"
  by (simp add: client_send_nack_def send_pkt_def fun_eq_iff)

lemma send_empty_safely:
  "world_ok k L w \<Longrightarrow> clients w c = Some v \<Longrightarrow> safely k L w (send_pkt (Some c) typ ident role 0 None w)"
  using ok_send_empty [of k L w c v] by (intro safelyI) blast

lemma send_text_safely:
  "world_ok k L w \<Longrightarrow> clients w c = Some v \<Longrightarrow>
   safely k L w (send_pkt (Some c) typ ident role (length s) (Some (bytes_of s)) w)"
  using ok_send_text [of k L w c v] by (intro safelyI) blast

lemma registered_evo: "evo w w' \<Longrightarrow> registered w' c = registered w c"
  by (intro registered_cong) (simp add: evo_def)

text \<open>A sane state with a registered client, as the handlers see it.\<close>

lemma session_client:
  assumes "sane j M L w" and "registered w c" and "evo w w'" and "world_ok k L' w'"
  obtains v where "clients w' c = Some v" and "invs_cap v = TABLE_SIZE" and "c_ref_count v \<noteq> 0"
proof -
  have "registered w' c" using assms(2,3) registered_evo by blast
  then obtain v where v: "clients w' c = Some v" "c_ref_count v \<noteq> 0" by (rule registered_live [OF assms(4)])
  obtain v0 where "clients w c = Some v0" "client_keeps v0 v" by (rule evo_client [OF assms(3) v(1)])
  then have "invs_cap v = TABLE_SIZE" using saneD(7) [OF assms(1)] by (simp add: client_keeps_def)
  with v that show thesis by blast
qed

text \<open>The identifier of a packet is always inside the table.\<close>

lemma packet_id_in_range: "unat (pkt_id hdr) < TABLE_SIZE"
proof -
  have "unat (pkt_id hdr) < 2 ^ LENGTH(8)" by (rule unsigned_less)
  then show ?thesis by (simp add: TABLE_SIZE_def MAX_CLIENTS_def)
qed

lemma id_in_range: "invs_cap v = TABLE_SIZE \<Longrightarrow> unat (pkt_id hdr) < invs_cap v"
  using packet_id_in_range by simp

lemma ack_safely:
  assumes "sane j M L w" and "registered w c" and "evo w w'" and "world_ok k L' w'"
  shows "safely k L' w' (client_send_ack (Some c) None 0 w')"
    and "safely k L' w' (client_send_ack (Some c) (Some (bytes_of s)) (length s) w')"
    and "safely k L' w' (client_send_nack (Some c) w')"
proof -
  obtain v where v: "clients w' c = Some v" by (rule session_client [OF assms])
  show "safely k L' w' (client_send_ack (Some c) None 0 w')" "safely k L' w' (client_send_nack (Some c) w')"
    unfolding send_ack_pkt send_nack_pkt by (rule send_empty_safely [OF assms(4) v])+
  show "safely k L' w' (client_send_ack (Some c) (Some (bytes_of s)) (length s) w')"
    unfolding send_ack_pkt by (rule send_text_safely [OF assms(4) v])
qed

subsection \<open>Revoking, declining, accepting, resigning\<close>

lemma revoke_handler_safely:
  assumes "sane (Suc (Suc k)) M L w" and "registered w c"
  shows "safely (Suc (Suc k)) L w (revoke_handler c jph w)"
  unfolding revoke_handler_def Let_def
proof (rule safely_bind)
  note W = saneD(1) [OF assms(1)]
  show "safely (Suc (Suc k)) L w (client_revoke_invitation (Some c) (unat (pkt_id (unpack_header jph))) w)"
    by (rule session_client [OF assms evo_refl W]) (rule safelyI, rule revoke_safe [OF W], assumption, rule id_in_range)
qed (use ack_safely [OF assms] in auto)

lemma decline_handler_safely:
  assumes "sane (Suc (Suc k)) M L w" and "registered w c"
  shows "safely (Suc (Suc k)) L w (decline_handler c jph w)"
  unfolding decline_handler_def Let_def
proof (rule safely_bind)
  note W = saneD(1) [OF assms(1)]
  show "safely (Suc (Suc k)) L w (client_decline_invitation (Some c) (unat (pkt_id (unpack_header jph))) w)"
    by (rule session_client [OF assms evo_refl W]) (rule safelyI, rule decline_safe [OF W], assumption, rule id_in_range)
qed (use ack_safely [OF assms] in auto)

lemma resign_handler_safely:
  assumes "sane (Suc (Suc k)) M L w" and "registered w c"
  shows "safely (Suc (Suc k)) L w (resign_handler c jph w)"
  unfolding resign_handler_def Let_def
proof (rule safely_bind)
  note W = saneD(1) [OF assms(1)]
  show "safely (Suc (Suc k)) L w (client_resign_game (Some c) (unat (pkt_id (unpack_header jph))) w)"
    by (rule session_client [OF assms evo_refl W]) (rule safelyI, rule resign_safe [OF W], assumption, rule id_in_range)
qed (use ack_safely [OF assms] in auto)

lemma accept_handler_safely:
  assumes "sane (Suc (Suc (Suc (Suc k)))) M L w" and "registered w c"
  shows "safely (Suc (Suc (Suc k))) L w (accept_handler c jph w)"
  unfolding accept_handler_def Let_def
proof (rule safely_bind)
  note W = saneD(1) [OF assms(1)]
  show "safely (Suc (Suc (Suc k))) L w (client_accept_invitation (Some c) (unat (pkt_id (unpack_header jph))) w)"
    by (rule session_client [OF assms evo_refl W]) (rule safelyI, rule accept_safe [OF W], assumption, rule id_in_range)
qed (use ack_safely [OF assms] in \<open>auto split: option.split\<close>)

subsection \<open>Moving\<close>

text \<open>What \<open>proto_recv_packet\<close> returns: a payload has the announced size, and no payload means size 0.\<close>

definition payload_matches :: "packet_header \<Rightarrow> byte list option \<Rightarrow> bool" where
  "payload_matches jph payloadp \<longleftrightarrow> length (case payloadp of None \<Rightarrow> [] | Some d \<Rightarrow> d) = payload_size jph"

lemma payload_string_result:
  assumes "payload_matches jph payloadp"
  obtains s where "payload_string payloadp (unat (pkt_size (unpack_header jph))) = Some s"
  using assms by (simp add: payload_string_def payload_matches_def payload_size_def unpack_header_def Let_def)

lemma w_malloc_ok [simp]: "mem (os w) = [] \<Longrightarrow> w_malloc w = (True, w)"
  by (simp add: w_malloc_def os_malloc_def)

lemma move_handler_safely:
  assumes "sane (Suc (Suc (Suc k))) M L w" and "registered w c" and "payload_matches jph payloadp"
  shows "safely (Suc (Suc (Suc k))) L w (move_handler c payloadp jph w)"
proof -
  note W = saneD(1) [OF assms(1)]
  obtain s where s: "payload_string payloadp (unat (pkt_size (unpack_header jph))) = Some s"
    by (rule payload_string_result [OF assms(3)])
  have "safely (Suc (Suc (Suc k))) L w (client_make_move (Some c) (unat (pkt_id (unpack_header jph))) s w)"
    by (rule session_client [OF assms(1,2) evo_refl W]) (rule safelyI, rule move_safe [OF W], assumption, rule id_in_range)
  then have "safely (Suc (Suc (Suc k))) L w (do {
      (move_status, w) \<leftarrow> client_make_move (Some c) (unat (pkt_id (unpack_header jph))) s w;
      if move_status = -1 then Some (-1, w) else client_send_ack (Some c) None 0 w })"
    by (rule safely_bind) (use ack_safely [OF assms(1,2)] in auto)
  then show ?thesis using s saneD(9) [OF assms(1)] by (simp add: move_handler_def Let_def)
qed

subsection \<open>Inviting\<close>

lemma lookup_safe:
  assumes "sane (Suc k) M L w"
  obtains "creg_lookup nm w = Some (None, w)" "\<forall>d. registered w d \<longrightarrow> \<not> logged_as w d nm"
  | d w1 where "creg_lookup nm w = Some (Some d, w1)" "world_ok k (add_mset (Unref_Client d) L) w1" "evo w w1"
      "registered w d" "logged_as w d nm"
proof (rule lookup_cases [of w nm])
  show "client_live w d" if "registered w d" for d by (rule sane_live [OF assms that])
next
  fix d u
  assume d: "creg_lookup nm w = Some (Some d, w\<lparr>clients := (clients w)(d := Some (u\<lparr>c_ref_count := c_ref_count u + 1\<rparr>))\<rparr>)"
    "clients w d = Some u" "registered w d" "logged_as w d nm"
  obtain w1 where w1: "client_ref (Some d) w = Some (Some d, w1)" "world_ok k (add_mset (Unref_Client d) L) w1" "evo w w1"
    using ok_client_ref [OF saneD(1) [OF assms] d(2)] by blast
  then have "creg_lookup nm w = Some (Some d, w1)"
    using d(1,2) by (simp add: client_ref_def size_inc_def)
  with w1(2,3) d(3,4) that(2) show thesis by blast
next
  assume "creg_lookup nm w = Some (None, w)" "\<forall>d. registered w d \<longrightarrow> \<not> logged_as w d nm"
  with that(1) show thesis by blast
qed

lemma make_safely:
  assumes "sane (k + 6) M {#} w" and "registered w c" and "player_of w c \<noteq> None"
    and "world_ok (k + 5) {#Unref_Client d#} w1" and "evo w w1" and "registered w d" and "logged_as w d nm"
  shows "safely k {#Unref_Client d#} w1 (client_make_invitation (Some c) (Some d) srole trole w1)"
proof -
  obtain cv where cv: "clients w1 c = Some cv" by (rule session_client [OF assms(1,2,5,4)])
  obtain dv where dv: "clients w1 d = Some dv" by (rule session_client [OF assms(1,6,5,4)])
  obtain cv0 where cv0: "clients w c = Some cv0" "client_keeps cv0 cv" by (rule evo_client [OF assms(5) cv])
  obtain dv0 where dv0: "clients w d = Some dv0" "client_keeps dv0 dv" by (rule evo_client [OF assms(5) dv])
  have pc: "player_of w c = c_player cv" and pd: "player_of w d = c_player dv"
    using cv0 dv0 by (simp_all add: player_of_def client_keeps_def)
  obtain a where a: "c_player cv = Some a" using assms(3) pc by auto
  obtain b where b: "c_player dv = Some b" using assms(7) pd by (auto simp: logged_as_named)
  have dist: "c = d \<or> c_player cv \<noteq> c_player dv"
    using sane_distinct [OF assms(1,2,6)] pc pd a by metis
  have "creg w1 = creg w" using assms(5) by (simp add: evo_def)
  then have anc: "anchored {#Unref_Client d#} w1 c" "anchored {#Unref_Client d#} w1 d"
    using assms(2) by (simp_all add: anchored_def registered_anchored creg_holds_cong [of w1 w])
  show ?thesis
    using make_safe [OF assms(4) cv dv a _ dist anc] b by (intro safelyI) blast
qed

lemma unref_step_safely:
  assumes "world_ok k (add_mset (Unref_Client d) L) w"
    and "\<And>w1. client_unref (Some d) w = Some w1 \<Longrightarrow> world_ok (Suc k) L w1 \<Longrightarrow> evo w w1 \<Longrightarrow> safely j L w1 (f w1)"
  shows "safely j L w (Option.bind (client_unref (Some d) w) f)"
proof -
  obtain w1 where 1: "client_unref (Some d) w = Some w1" "world_ok (Suc k) L w1" "evo w w1"
    using ok_client_unref [OF assms(1)] by blast
  from assms(2) [OF this] 1(1) evo_trans [OF 1(3)] show ?thesis unfolding safely_def by fastforce
qed

text \<open>The rest of \<open>invite_handler\<close> after the target was found.\<close>

definition invite_tail :: "nat \<Rightarrow> nat \<Rightarrow> packet_header \<Rightarrow> world \<Rightarrow> (int \<times> world) option" where
  "invite_tail c d hdr w = do {
     let trole = (if pkt_role hdr = 1 then FIRST_PLAYER_ROLE else SECOND_PLAYER_ROLE);
     let srole = (if trole = FIRST_PLAYER_ROLE then SECOND_PLAYER_ROLE else FIRST_PLAYER_ROLE);
     (ident, w) \<leftarrow> client_make_invitation (Some c) (Some d) srole trole w;
     w \<leftarrow> client_unref (Some d) w;
     if ident = -1 then Some (-1, w)
     else do {
       (_, w) \<leftarrow> send_pkt (Some c) JEUX_ACK_PKT ident NULL_ROLE 0 None w;
       Some (ident, w)
     }
   }"

lemma invite_tail_safely:
  assumes "sane (k + 6) M {#} w" and "registered w c" and "player_of w c \<noteq> None"
    and "world_ok (k + 5) {#Unref_Client d#} w1" and "evo w w1" and "registered w d" and "logged_as w d nm"
  shows "safely k {#} w1 (invite_tail c d hdr w1)"
  unfolding invite_tail_def Let_def
proof (rule safely_bind [OF make_safely [OF assms]], simp only: split, rule unref_step_safely, assumption)
  fix ident w2 w3
  assume w2: "evo w1 w2" and w3: "world_ok (Suc k) {#} w3" "evo w2 w3"
  have e: "evo w w3" by (rule evo_trans [OF evo_trans [OF assms(5) w2] w3(2)])
  obtain v where v: "clients w3 c = Some v" by (rule session_client [OF assms(1,2) e w3(1)])
  have ok: "world_ok k {#} w3" using world_ok_mono [OF w3(1)] by simp
  have "safely k {#} w3 (do { (_, w) \<leftarrow> send_pkt (Some c) JEUX_ACK_PKT ident NULL_ROLE 0 None w3; Some (ident, w) })"
    by (rule safely_bind [OF send_empty_safely [OF ok v]]) simp
  then show "safely k {#} w3 (if ident = -1 then Some (-1, w3)
      else do { (_, w) \<leftarrow> send_pkt (Some c) JEUX_ACK_PKT ident NULL_ROLE 0 None w3; Some (ident, w) })"
    using ok by simp
qed

lemma invite_handler_safely:
  assumes "sane (k + 6) M {#} w" and "registered w c" and "player_of w c \<noteq> None" and "payload_matches jph payloadp"
  shows "safely k {#} w (invite_handler c payloadp jph w)"
proof (cases "payloadp = None")
  case True
  then show ?thesis using saneD(1) [OF sane_mono [OF assms(1), of k M]] by (simp add: invite_handler_def)
next
  case False
  obtain s where s: "payload_string payloadp (unat (pkt_size (unpack_header jph))) = Some s"
    by (rule payload_string_result [OF assms(4)])
  have eq: "invite_handler c payloadp jph w = do {
      (target, w) \<leftarrow> creg_lookup s w;
      case target of None \<Rightarrow> Some (-1, w) | Some d \<Rightarrow> invite_tail c d (unpack_header jph) w }"
    using False s saneD(9) [OF assms(1)]
    by (auto simp: invite_handler_def invite_tail_def Let_def intro!: Option.bind_cong split: option.split)
  have "Suc (k + 5) = k + 6" by simp
  then have S: "sane (Suc (k + 5)) M {#} w" using assms(1) by (simp only:)
  show ?thesis
  proof (cases rule: lookup_safe [OF S, where nm = s, case_names none found])
    case none
    then show ?thesis using saneD(1) [OF sane_mono [OF assms(1), of k M]] by (simp add: eq)
  next
    case (found d w1)
    have "safely k {#} w1 (invite_tail c d (unpack_header jph) w1)"
      by (rule invite_tail_safely [OF assms(1-3) found(2,3,4,5)])
    then show ?thesis using found(1) evo_trans [OF found(3)] unfolding safely_def eq by fastforce
  qed
qed

end
