(* ===== verification/User_List.thy ===== *)
theory User_List
  imports Request_Safety
begin

text \<open>
  The list of users (\<open>creg_all_players\<close> and \<open>user_handler\<close>): the handler references every player
  that is logged in, prints a line for each and drops the references, so only the packet remains.
\<close>

subsection \<open>References taken by the list\<close>

definition bump :: "nat multiset \<Rightarrow> world \<Rightarrow> world" where
  "bump M w = w\<lparr>players := (\<lambda>a. map_option (\<lambda>p. p\<lparr>p_ref_count := p_ref_count p + of_nat (count M a)\<rparr>) (players w a))\<rparr>"

lemma bump_empty [simp]: "bump {#} w = w"
  by (simp add: bump_def map_option.compositionality option.map_ident)

lemma bump_player: "players w a = Some p \<Longrightarrow>
    players (bump M w) a = Some (p\<lparr>p_ref_count := p_ref_count p + of_nat (count M a)\<rparr>)"
  by (simp add: bump_def)

lemma bump_ref:
  assumes "players w a = Some p"
  shows "w_player_ref (Some a) (bump M w) = Some (Some a, bump (add_mset a M) w)"
  using assms player_ref_value [OF bump_player [OF assms, of M]]
  by (auto simp: bump_def fun_eq_iff add_ac)

lemma ref_players_bump:
  assumes "\<forall>a \<in> set as. players w a \<noteq> None"
  shows "ref_players as (bump M w) = Some (bump (mset as + M) w)"
  using assms
proof (induction as arbitrary: M)
  case (Cons a as)
  then obtain p where "players w a = Some p" by auto
  with Cons show ?case by (simp add: bump_ref)
qed simp

text \<open>The count of a player with two references or more is not one.\<close>

lemma bump_unref:
  assumes "players w a = Some p" and "p_ref_count p \<noteq> 0"
    and "unat (p_ref_count p) + count (add_mset a M) a < 2 ^ 64"
  shows "w_player_unref (Some a) (bump (add_mset a M) w) = Some (bump M w)"
proof -
  let ?n = "count M a"
  let ?p = "p\<lparr>p_ref_count := p_ref_count p + of_nat (count (add_mset a M) a)\<rparr>"
  have "unat (p_ref_count p + of_nat (Suc ?n)) = unat (p_ref_count p) + Suc ?n"
    using assms(3) by (simp add: unat_word_ariths unat_of_nat take_bit_eq_mod del: of_nat_Suc)
  moreover have "0 < unat (p_ref_count p)" using assms(2) by (simp add: unat_gt_0)
  ultimately have "p_ref_count ?p \<noteq> 1" by (auto simp del: of_nat_Suc)
  from player_unref_value [OF bump_player [OF assms(1)] this]
  show ?thesis using assms(1) by (auto simp: bump_def fun_eq_iff)
qed

subsection \<open>The text\<close>

definition user_line :: "world \<Rightarrow> nat \<Rightarrow> string" where
  "user_line w a = (case players w a of None \<Rightarrow> []
     | Some p \<Rightarrow> the (p_name p) @ [CHR 0x09] @ dec_string (player_get_rating p) @ [CHR 0x0A])"

lemma rating_count [simp]: "player_get_rating (p\<lparr>p_ref_count := n\<rparr>) = player_get_rating p"
  by (simp add: player_get_rating_def)

lemma users_text_bump:
  assumes "\<forall>a \<in> set as. \<exists>p. players w a = Some p \<and> p_name p \<noteq> None \<and> p_ref_count p \<noteq> 0 \<and>
      unat (p_ref_count p) + count (mset as) a < 2 ^ 64"
  shows "users_text as (bump (mset as) w) = Some (concat (map (user_line w) as), w)"
  using assms
proof (induction as)
  case (Cons a as)
  then obtain p nm where p: "players w a = Some p" "p_name p = Some nm" "p_ref_count p \<noteq> 0"
      "unat (p_ref_count p) + count (add_mset a (mset as)) a < 2 ^ 64" by auto
  have "users_text as (bump (mset as) w) = Some (concat (map (user_line w) as), w)"
  proof (rule Cons.IH, rule ballI)
    fix b assume "b \<in> set as"
    then obtain q where "players w b = Some q" "p_name q \<noteq> None" "p_ref_count q \<noteq> 0"
        "unat (p_ref_count q) + count (mset (a # as)) b < 2 ^ 64" using Cons.prems by auto
    moreover have "count (mset as) b \<le> count (mset (a # as)) b" by simp
    ultimately show "\<exists>p. players w b = Some p \<and> p_name p \<noteq> None \<and> p_ref_count p \<noteq> 0 \<and>
        unat (p_ref_count p) + count (mset as) b < 2 ^ 64" by (auto intro: le_less_trans)
  qed
  moreover have "w_player_get_rating (Some a) (bump M w) = Some (player_get_rating p)" for M
    using bump_player [OF p(1), of M] by (simp add: w_player_get_rating_def)
  moreover have "w_player_get_name (Some a) (bump M w) = Some nm" for M
    using bump_player [OF p(1), of M] p(2) by simp
  moreover have "user_line w a = nm @ [CHR 0x09] @ dec_string (player_get_rating p) @ [CHR 0x0A]"
    using p(1,2) by (simp add: user_line_def)
  ultimately show ?case using bump_unref [OF p(1,3,4)] by simp
qed simp

subsection \<open>The players that are logged in\<close>

definition lobby :: "nat option list \<Rightarrow> world \<Rightarrow> nat list" where
  "lobby xs w = List.map_filter (\<lambda>x. Option.bind x (player_of w)) xs"

lemma logged_in_lobby:
  assumes "\<forall>c. Some c \<in> set xs \<longrightarrow> clients w c \<noteq> None"
  shows "logged_in xs w = Some (lobby xs w)"
  using assms
proof (induction xs)
  case (Cons x xs)
  then show ?case
    by (cases x) (auto simp: lobby_def map_filter_simps player_of_def split: option.splits)
qed (simp add: lobby_def map_filter_simps)

lemma lobby_member: "a \<in> set (lobby xs w) \<longleftrightarrow> (\<exists>c. Some c \<in> set xs \<and> player_of w c = Some a)"
  by (force simp: lobby_def map_filter_def bind_eq_Some_conv)

lemma lobby_length: "length (lobby xs w) \<le> length xs"
  by (simp add: lobby_def map_filter_def)

lemma lobby_players:
  assumes "sane k M L w" and "MAX_CLIENTS \<le> k" and "a \<in> set (lobby (creg_slots w) w)"
  shows "\<exists>p. players w a = Some p \<and> p_name p \<noteq> None \<and> p_ref_count p \<noteq> 0 \<and>
      unat (p_ref_count p) + count (mset (lobby (creg_slots w) w)) a < 2 ^ 64"
proof -
  obtain c where c: "registered w c" "player_of w c = Some a"
    using assms(3) by (auto simp: lobby_member registered_def)
  have po: "players_ok w" by (rule saneD(10) [OF assms(1)])
  then obtain p where p: "players w a = Some p" using c(2) unfolding players_ok_def by blast
  have "p_name p \<noteq> None" "p_ref_count p \<noteq> 0" using po p unfolding players_ok_def by blast+
  moreover have "refs w a + k < 2 ^ 64" using saneD(2) [OF assms(1)] unfolding counted_def by blast
  moreover have "count (mset (lobby (creg_slots w) w)) a \<le> MAX_CLIENTS"
  proof -
    have "count (mset (lobby (creg_slots w) w)) a \<le> length (lobby (creg_slots w) w)"
      using count_le_size [of "mset (lobby (creg_slots w) w)" a] by simp
    also have "\<dots> \<le> length (creg_slots w)" by (rule lobby_length)
    also have "\<dots> \<le> MAX_CLIENTS" using saneD(11) [OF assms(1)] by (simp add: creg_slots_def)
    finally show ?thesis .
  qed
  ultimately show ?thesis using p assms(2) by (simp add: refs_def)
qed

definition user_list :: "world \<Rightarrow> string" where
  "user_list w = concat (map (user_line w) (lobby (creg_slots w) w))"

lemma all_players_result:
  assumes "sane k M L w" and "MAX_CLIENTS \<le> k"
  shows "creg_all_players w = Some (lobby (creg_slots w) w, bump (mset (lobby (creg_slots w) w)) w)"
proof -
  have "clients w c \<noteq> None" if "Some c \<in> set (creg_slots w)" for c
    using sane_live [OF assms(1), of c] that by (auto simp: registered_def client_live_def)
  then have "logged_in (creg_slots w) w = Some (lobby (creg_slots w) w)" by (intro logged_in_lobby) blast
  moreover have "ref_players (lobby (creg_slots w) w) w = Some (bump (mset (lobby (creg_slots w) w)) w)"
    using ref_players_bump [of "lobby (creg_slots w) w" w "{#}"] lobby_players [OF assms] by fastforce
  ultimately show ?thesis using saneD(9) [OF assms(1)] by (simp add: creg_all_players_def)
qed

lemma user_handler_result:
  assumes "sane k M L w" and "MAX_CLIENTS \<le> k"
  shows "user_handler c w = do {
      (_, w) \<leftarrow> send_pkt (Some c) JEUX_ACK_PKT 0 NULL_ROLE (length (user_list w)) (Some (bytes_of (user_list w))) w;
      Some w }"
proof -
  have "users_text (lobby (creg_slots w) w) (bump (mset (lobby (creg_slots w) w)) w) = Some (user_list w, w)"
    unfolding user_list_def using lobby_players [OF assms] by (intro users_text_bump) blast
  moreover have "mem (os (bump N w)) = []" for N using saneD(9) [OF assms(1)] by (simp add: bump_def)
  ultimately show ?thesis using all_players_result [OF assms] by (simp add: user_handler_def)
qed

lemma user_handler_safe:
  assumes "sane k M {#} w" and "MAX_CLIENTS \<le> k" and "registered w c"
  shows "\<exists>w'. user_handler c w = Some w' \<and> world_ok k {#} w' \<and> evo w w'"
proof -
  note W = saneD(1) [OF assms(1)]
  obtain v where v: "clients w c = Some v" by (rule session_client [OF assms(1,3) evo_refl W])
  obtain st o1 where "send_pkt (Some c) JEUX_ACK_PKT 0 NULL_ROLE (length (user_list w)) (Some (bytes_of (user_list w))) w =
      Some (st, w\<lparr>os := o1\<rparr>)" "world_ok k {#} (w\<lparr>os := o1\<rparr>)" "evo w (w\<lparr>os := o1\<rparr>)"
    using ok_send_text [OF W v] by blast
  then show ?thesis using user_handler_result [OF assms(1,2), of c] by simp
qed

end
