(* ===== verification/Login_Safety.thy ===== *)
theory Login_Safety
  imports User_List
begin

text \<open>
  Safety of \<open>login_handler\<close>: registering the player, logging in, and the references that the service
  thread keeps. \<open>steady\<close> is what the other threads rely on.
\<close>

subsection \<open>Registering a player\<close>

text \<open>No step of a thread closes or replaces a session of another thread.\<close>

definition steady :: "world \<Rightarrow> world \<Rightarrow> bool" where
  "steady w w' \<longleftrightarrow> creg w' = creg w \<and> same_input (os w) (os w') \<and>
     (\<forall>d v'. clients w' d = Some v' \<longrightarrow> (\<exists>v. clients w d = Some v \<and> c_fd v' = c_fd v \<and>
        (c_player v \<noteq> None \<longrightarrow> c_player v' = c_player v)))"

lemma steady_refl [simp]: "steady w w"
  by (simp add: steady_def)

lemma evo_steady: "evo w w' \<Longrightarrow> steady w w'"
  unfolding evo_def kept_def client_keeps_def steady_def by metis

lemma steady_trans: "steady w1 w2 \<Longrightarrow> steady w2 w3 \<Longrightarrow> steady w1 w3"
  unfolding steady_def by metis

lemma world_ok_preg [simp]: "world_ok k L (w\<lparr>preg := r\<rparr>) = world_ok k L w"
proof -
  have st: "stored (w\<lparr>preg := r\<rparr>) y = stored w y" for y by (cases y) simp_all
  have h: "held (w\<lparr>preg := r\<rparr>) = held w" by (simp add: held_map_sum creg_holds_def creg_slots_def)
  have "counts_ok L (w\<lparr>preg := r\<rparr>) = counts_ok L w" unfolding counts_ok_def h st by simp
  moreover have "player_of (w\<lparr>preg := r\<rparr>) = player_of w" by (simp add: player_of_def fun_eq_iff)
  then have "shape_ok (w\<lparr>preg := r\<rparr>) = shape_ok w"
    by (simp add: shape_ok_def fresh_from_def players_ok_def)
  ultimately show ?thesis unfolding world_ok_def h by simp
qed

text \<open>How the parts of \<open>sane\<close> that do not concern players carry over when only players, the player
registry and the address counter change.\<close>

lemma sane_players:
  assumes "sane j M L w" and "clients w' = clients w" and "invs w' = invs w" and "creg w' = creg w"
    and "world_ok k L w'" and "counted k N w'" and "preg_ok w'"
    and "\<And>c a n. player_of w c = Some a \<Longrightarrow> named w' a n \<Longrightarrow> named w a n" and "os w' = os w"
  shows "sane k N L w'" and "steady w w'"
proof -
  have p: "player_of w' = player_of w" using assms(2) by (simp add: player_of_def fun_eq_iff)
  have r: "registered w' c = registered w c" for c by (rule registered_cong [OF assms(4)])
  have "logged_as w c n" if "logged_as w' c n" for c n
    using that assms(8) unfolding logged_as_named p by blast
  then have "names_unique w'" using saneD(5) [OF assms(1)] unfolding names_unique_def r by blast
  moreover have "parties_in w'" using saneD(6) [OF assms(1)] unfolding parties_in_def r p assms(3) .
  ultimately show "sane k N L w'" using assms saneD(7) [OF assms(1)] by (simp add: sane_def)
  show "steady w w'" using assms(2,4,9) by (simp add: steady_def)
qed

lemma named_players: "players w' a = players w a \<Longrightarrow> named w' a n = named w a n"
  by (simp add: named_def)

lemma register_known_sane:
  assumes S: "sane (Suc (Suc k)) M L w" and "in_preg w a" and "named w a nm"
  shows "\<exists>w'. preg_register nm w = Some (Some a, w') \<and> sane k (add_mset a M) L w' \<and> steady w w' \<and>
    named w' a nm \<and> clients w' = clients w \<and> os w' = os w \<and> (\<forall>x n. logged_as w' x n = logged_as w x n)"
proof -
  note s = saneD [OF S]
  obtain r where r: "preg_register nm w = Some (Some a, reref a (w\<lparr>preg := r\<rparr>))"
      "preg_ok (reref a (w\<lparr>preg := r\<rparr>))" "preg_plays (w\<lparr>preg := r\<rparr>) = preg_plays w"
    using register_known [OF s(3,9) assms(2,3)] by blast
  let ?g = "w\<lparr>preg := r\<rparr>"
  obtain p where p: "players w a = Some p" "p_name p = Some nm" using assms(3) by (auto simp: named_def)
  let ?w = "?g\<lparr>players := (players ?g)(a := Some (p\<lparr>p_ref_count := p_ref_count p + 1\<rparr>))\<rparr>"
  have eq: "reref a ?g = ?w" using p by (simp add: reref_def)
  have pg: "players ?g a = Some p" using p(1) by simp
  have g: "counted (Suc (Suc k)) M ?g" using s(2) r(3) by (simp add: counted_def plays_def refs_def)
  have wg: "world_ok (Suc (Suc k)) L ?g" using s(1) by simp
  have "counted (Suc k) (add_mset a M) ?w" by (rule counted_ref [OF g pg])
  then have c: "counted k (add_mset a M) ?w" by (rule counted_mono) simp_all
  have "world_ok (Suc (Suc k)) L ?w"
    by (rule world_ok_set_players [OF wg players_ok_ref [OF world_okD(3) [OF wg] g pg]])
  then have ok: "world_ok k L ?w" by (rule world_ok_mono) simp
  have nm: "named ?w b n = named w b n" for b n using p by (auto simp: named_def)
  have pr: "preg_ok ?w" using r(2) unfolding eq .
  note res = sane_players [OF S, of ?w k "add_mset a M", OF _ _ _ ok c pr]
  have "sane k (add_mset a M) L ?w" "steady w ?w" using res nm by simp_all
  moreover have "named ?w a nm" using assms(3) nm by blast
  moreover have "player_of ?w x = player_of w x" for x by (simp add: player_of_def)
  then have "logged_as ?w x n = logged_as w x n" for x n unfolding logged_as_named nm by simp
  ultimately show ?thesis using r(1) unfolding eq by (intro exI [of _ ?w]) simp
qed

lemma register_new_sane:
  assumes S: "sane (Suc (Suc k)) M L w" and "\<And>a. in_preg w a \<Longrightarrow> \<not> named w a nm"
  shows "\<exists>w'. preg_register nm w = Some (Some (next_addr w), w') \<and> sane k (add_mset (next_addr w) M) L w' \<and>
    steady w w' \<and> named w' (next_addr w) nm \<and> clients w' = clients w \<and> os w' = os w \<and>
    (\<forall>x n. logged_as w' x n = logged_as w x n)"
proof -
  note s = saneD [OF S]
  let ?n = "next_addr w"
  obtain r j where r: "preg_register nm w = Some (Some ?n, enter nm j (w\<lparr>preg := r\<rparr>))"
      "preg_ok (enter nm j (w\<lparr>preg := r\<rparr>))" "preg_plays (enter nm j (w\<lparr>preg := r\<rparr>)) = add_mset ?n (preg_plays w)"
    using register_new [OF s(3,9) assms(2)] by blast
  let ?w = "enter nm j (w\<lparr>preg := r\<rparr>)"
  have fresh: "players w ?n = None" using preg_okD(4) [OF s(3), of ?n] by simp
  have frame: "clients ?w = clients w" "invs ?w = invs w" "games ?w = games w" "creg ?w = creg w"
      "next_addr ?w = Suc ?n" "os ?w = os w"
      "players ?w = (players w)(?n := Some (new_player nm (w\<lparr>preg := r\<rparr>)))" by (simp_all add: enter_def)
  have np: "p_ref_count (new_player nm v) = 2" "p_name (new_player nm v) = Some nm" for v by (simp_all add: new_player_def)
  have po: "player_of ?w = player_of w" using frame(1) by (simp add: player_of_def fun_eq_iff)
  have k: "k + 2 < 2 ^ 64" using s(2) unfolding counted_def by fastforce
  have old: "b \<noteq> ?n" if "player_of w c = Some b" for b c using that s(10) fresh unfolding players_ok_def by blast
  have "players_ok ?w" using s(10) np unfolding players_ok_def po frame(2,7) by (auto split: if_splits)
  moreover have "fresh_from ?w" using world_ok_shape [OF s(1)] by (auto simp: shape_ok_def fresh_from_def frame)
  ultimately have shape: "shape_ok ?w" using world_ok_shape [OF s(1)] by (simp add: shape_ok_def frame)
  have h: "held ?w = held w" by (simp add: held_map_sum creg_holds_def creg_slots_def frame)
  have st: "stored ?w y = stored w y" for y by (cases y) (simp_all add: frame)
  have "counts_ok L ?w" using s(1) unfolding world_ok_def counts_ok_def h st frame by blast
  with shape have ok: "world_ok k L ?w" using s(1) unfolding world_ok_def h by simp
  have c: "counted k (add_mset ?n M) ?w"
    unfolding counted_def
  proof
    fix b
    have b: "count (plays w + M) b \<le> refs w b \<and> refs w b + Suc (Suc k) < 2 ^ 64"
      using s(2) unfolding counted_def by blast
    show "count (plays ?w + add_mset ?n M) b \<le> refs ?w b \<and> refs ?w b + k < 2 ^ 64"
    proof (cases "b = ?n")
      case True
      then show ?thesis using b fresh k np r(3) by (simp add: refs_def frame plays_def)
    next
      case False
      then show ?thesis using b r(3) by (simp add: refs_def frame plays_def)
    qed
  qed
  have nm: "named ?w b n = named w b n" if "b \<noteq> ?n" for b n using that by (simp add: named_def frame)
  have "sane k (add_mset ?n M) L ?w" "steady w ?w"
    using sane_players [OF S frame(1,2,4) ok c r(2)] nm old frame(6) by metis+
  moreover have "named ?w ?n nm" by (simp add: named_def frame np)
  moreover have "logged_as ?w x n = logged_as w x n" for x n
    unfolding logged_as_named po using nm old by blast
  ultimately show ?thesis using r(1) frame(1,6) by blast
qed

lemma register_sane:
  assumes "sane (Suc (Suc k)) M L w"
  obtains a w' where "preg_register nm w = Some (Some a, w')" and "sane k (add_mset a M) L w'" and "steady w w'"
    and "named w' a nm" and "clients w' = clients w" and "os w' = os w"
    and "\<And>x n. logged_as w' x n = logged_as w x n"
  using register_known_sane [OF assms] register_new_sane [OF assms] by metis

subsection \<open>Logging in\<close>

text \<open>\<open>login_state\<close> gives the client the reference that \<open>client_login\<close> takes.\<close>

lemma login_sane:
  assumes S: "sane (Suc k) M {#} w" and "registered w c" and "clients w c = Some v" and "c_player v = None"
    and "players w a = Some p" and "p_name p = Some nm" and "\<forall>d. registered w d \<longrightarrow> \<not> logged_as w d nm"
  shows "sane k M {#} (login_state c a w)" and "steady w (login_state c a w)"
    and "player_of (login_state c a w) c = Some a"
proof -
  note s = saneD [OF S]
  let ?p = "p\<lparr>p_ref_count := p_ref_count p + 1\<rparr>"
  let ?w1 = "w\<lparr>players := (players w)(a := Some ?p)\<rparr>"
  let ?w = "?w1\<lparr>clients := (clients w)(c := Some (v\<lparr>c_player := Some a\<rparr>))\<rparr>"
  have eq: "login_state c a w = ?w" using assms(3,5) by (simp add: login_state_def)
  have wc: "player_of w c = None" using assms(3,4) by (simp add: player_of_def)
  have po: "player_of ?w d = (if d = c then Some a else player_of w d)" for d by (simp add: player_of_def)
  have c1: "counted k (add_mset a M) ?w1" by (rule counted_ref [OF s(2) assms(5)])
  have ok1: "world_ok (Suc k) {#} ?w1"
    by (rule world_ok_set_players [OF s(1) players_ok_ref [OF s(10,2) assms(5)]])
  note live1 = world_okD(3) [OF ok1]
  have pl: "plays ?w = add_mset a (plays ?w1)"
    using map_sum_update [OF s(8) assms(3), of client_plays "v\<lparr>c_player := Some a\<rparr>"] assms(4)
    by (simp add: plays_def preg_plays_def client_plays_def)
  have "refs ?w b = refs ?w1 b" for b by (simp add: refs_def)
  then have c: "counted k M ?w" using c1 unfolding counted_def pl by simp
  have notparty: "inv_src u \<noteq> c \<and> inv_target u \<noteq> c" if "invs w i = Some u" for i u
    using s(6) that assms(2) wc unfolding parties_in_def by blast
  have "players_ok ?w"
    unfolding players_ok_def po
  proof (intro conjI allI impI)
    show "p_ref_count q \<noteq> 0" "p_name q \<noteq> None" if "players ?w b = Some q" for b q
      using live1 that unfolding players_ok_def by simp_all
    show "players ?w b \<noteq> None" if "(if d = c then Some a else player_of w d) = Some b" for d b
      using that s(10) unfolding players_ok_def by (auto split: if_splits)
    show "(if inv_src u = c then Some a else player_of w (inv_src u)) = None \<or>
        (if inv_src u = c then Some a else player_of w (inv_src u)) \<noteq>
        (if inv_target u = c then Some a else player_of w (inv_target u))" if "invs ?w i = Some u" for i u
      using notparty [of i u] that s(10) unfolding players_ok_def by simp
  qed
  moreover have "table_ok (v\<lparr>c_player := Some a\<rparr>)" using world_okD(4) [OF s(1) assms(3)] by (simp add: table_ok_def)
  ultimately have shape: "shape_ok ?w"
    using world_ok_shape [OF ok1] assms(3) by (auto simp: shape_ok_def fresh_from_def)
  have h: "held ?w = held ?w1"
    using held_upd_client [OF world_okD(1) [OF ok1], of c v "v\<lparr>c_player := Some a\<rparr>"] assms(3)
    by (simp add: client_holds_def destroy_inv_lst_safe_def)
  have "counts_ok {#} ?w"
  proof (rule counts_ok_move [OF world_okD(1) [OF ok1]])
    show "stored ?w y = stored ?w1 y" for y using assms(3) by (cases y) auto
  qed (use counts_ok_finite [OF world_okD(1) [OF ok1]] h in simp_all)
  with shape have ok: "world_ok k {#} ?w" using ok1 unfolding world_ok_def h by simp
  have nm: "named ?w b n = named w b n" for b n using assms(5,6) by (auto simp: named_def)
  have "preg_ok ?w"
    using s(3) assms(5,6) by (subst preg_ok_cong [of ?w w]) auto
  moreover have "names_unique ?w"
    using login_keeps_unique [OF s(5) assms(3,5,6,7)] unfolding eq .
  moreover have "registered ?w d = registered w d" for d by (rule registered_cong) simp
  then have "parties_in ?w" using s(6) unfolding parties_in_def po by auto
  moreover have "invs_cap u = TABLE_SIZE" if "clients ?w d = Some u" for d u
    using that s(7) assms(3) by (auto split: if_splits)
  ultimately have "sane k M {#} ?w" using ok c s(4,11) by (simp add: sane_def)
  then show "sane k M {#} (login_state c a w)" unfolding eq .
  show "steady w (login_state c a w)" unfolding eq using assms(3,4) by (auto simp: steady_def)
  show "player_of (login_state c a w) c = Some a" unfolding eq by (simp add: player_of_def)
qed

lemma client_login_safe:
  assumes S: "sane (Suc k) M {#} w" and "registered w c" and "named w a nm"
  shows "client_login (Some c) (Some a) w = Some (-1, w) \<or>
    (\<exists>w'. client_login (Some c) (Some a) w = Some (0, w') \<and> sane k M {#} w' \<and> steady w w' \<and> player_of w' c = Some a)"
proof -
  obtain v where v: "clients w c = Some v" by (rule registered_live [OF saneD(1) [OF S] assms(2)])
  obtain p where p: "players w a = Some p" "p_name p = Some nm" using assms(3) by (auto simp: named_def)
  show ?thesis
  proof (cases "c_player v")
    case (Some b)
    then show ?thesis using v by (simp add: client_login_def)
  next
    case None
    show ?thesis
    proof (rule lookup_cases [of w nm])
      show "client_live w d" if "registered w d" for d by (rule sane_live [OF S that])
    next
      fix d u
      assume d: "creg_lookup nm w =
          Some (Some d, w\<lparr>clients := (clients w)(d := Some (u\<lparr>c_ref_count := c_ref_count u + 1\<rparr>))\<rparr>)"
        "clients w d = Some u" "registered w d" "logged_as w d nm" "c_ref_count u \<noteq> 0"
      show ?thesis using client_login_found [OF v None p d(1,2,5)] by blast
    next
      assume f: "creg_lookup nm w = Some (None, w)" "\<forall>d. registered w d \<longrightarrow> \<not> logged_as w d nm"
      show ?thesis using client_login_free [OF v None p f(1)] login_sane [OF S assms(2) v None p f(2)] by blast
    qed
  qed
qed

text \<open>Dropping a reference keeps the player registry: its players are still referenced.\<close>

lemma named_unreffed:
  assumes "players w a = Some p" and "named (w\<lparr>players := (players w)(a := unreffed p)\<rparr>) b n"
  shows "named w b n"
  using assms by (auto simp: named_def unreffed_def split: if_splits)

lemma preg_ok_unref:
  assumes P: "preg_ok w" and "players w a = Some p" and "counted k M (w\<lparr>players := (players w)(a := unreffed p)\<rparr>)"
  shows "preg_ok (w\<lparr>players := (players w)(a := unreffed p)\<rparr>)"
proof -
  let ?w = "w\<lparr>players := (players w)(a := unreffed p)\<rparr>"
  have in_reg: "players ?w b \<noteq> None" if "in_preg w b" for b
  proof -
    have "b \<in># plays ?w + M" using that by (force simp: in_preg_def plays_def preg_plays_def)
    then show ?thesis using counted_live [OF assms(3)] by (metis option.distinct(1))
  qed
  have "named ?w b n" if "in_preg w b" "named w b n" for b n
    using in_reg [OF that(1)] that(2) assms(2) by (auto simp: named_def unreffed_def split: if_splits)
  moreover have "in_preg ?w b = in_preg w b" for b by (simp add: in_preg_def)
  moreover have "players ?w b = None" if "next_addr w \<le> b" for b
    using preg_okD(4) [OF P that] assms(2) by auto
  ultimately show ?thesis using P named_unreffed [OF assms(2)] unfolding preg_ok_def by simp metis
qed

text \<open>Dropping the reference to the player of a login that failed.\<close>

lemma unref_player_sane:
  assumes S: "sane k (add_mset a M) L w"
  shows "\<exists>w'. w_player_unref (Some a) w = Some w' \<and> sane k M L w' \<and> steady w w'"
proof -
  note s = saneD [OF S]
  obtain p where p: "players w a = Some p" "w_player_unref (Some a) w = Some (w\<lparr>players := (players w)(a := unreffed p)\<rparr>)"
      "counted k M (w\<lparr>players := (players w)(a := unreffed p)\<rparr>)" by (rule counted_unref [OF s(2)])
  let ?w = "w\<lparr>players := (players w)(a := unreffed p)\<rparr>"
  have ok: "world_ok k L ?w"
    by (rule world_ok_set_players [OF s(1) players_ok_unref [OF s(10,2) p(1) s(8)]])
  have "preg_ok ?w" by (rule preg_ok_unref [OF s(3) p(1,3)])
  from sane_players [OF S _ _ _ ok p(3) this] named_unreffed [OF p(1)] p(2) show ?thesis by auto
qed

subsection \<open>The handler\<close>

text \<open>The reference of the variable \<open>new_player\<close> of a thread.\<close>

definition holding :: "nat option \<Rightarrow> nat multiset" where
  "holding np = (case np of None \<Rightarrow> {#} | Some a \<Rightarrow> {#a#})"

lemma holding_simps [simp]: "holding None = {#}" "holding (Some a) = {#a#}"
  by (simp_all add: holding_def)

lemma steady_registered: "steady w w' \<Longrightarrow> registered w' c = registered w c"
  by (intro registered_cong) (simp add: steady_def)

lemma answer_sane:
  assumes "sane k M {#} w" and "registered w c"
  shows "\<exists>st w'. client_send_nack (Some c) w = Some (st, w') \<and> sane k M {#} w' \<and> steady w w' \<and> player_of w' c = player_of w c"
    and "\<exists>st w'. client_send_ack (Some c) None 0 w = Some (st, w') \<and> sane k M {#} w' \<and> steady w w' \<and> player_of w' c = player_of w c"
proof -
  note W = saneD(1) [OF assms(1)]
  obtain v where v: "clients w c = Some v" by (rule registered_live [OF W assms(2)])
  have send: "\<exists>st w'. send_pkt (Some c) t 0 NULL_ROLE 0 None w = Some (st, w') \<and> sane k M {#} w' \<and> steady w w' \<and>
      player_of w' c = player_of w c" for t
  proof -
    obtain st o1 where "send_pkt (Some c) t 0 NULL_ROLE 0 None w = Some (st, w\<lparr>os := o1\<rparr>)"
        "world_ok k {#} (w\<lparr>os := o1\<rparr>)" "evo w (w\<lparr>os := o1\<rparr>)"
      using ok_send_empty [OF W v] by blast
    then show ?thesis using sane_evo [OF assms(1), of "w\<lparr>os := o1\<rparr>" k "{#}"] evo_steady
      by (intro exI [of _ st] exI [of _ "w\<lparr>os := o1\<rparr>"]) (simp add: player_of_def)
  qed
  show "\<exists>st w'. client_send_nack (Some c) w = Some (st, w') \<and> sane k M {#} w' \<and> steady w w' \<and> player_of w' c = player_of w c"
    "\<exists>st w'. client_send_ack (Some c) None 0 w = Some (st, w') \<and> sane k M {#} w' \<and> steady w w' \<and> player_of w' c = player_of w c"
    using send by (simp_all add: send_ack_pkt send_nack_pkt)
qed

lemma login_handler_safe:
  assumes S: "sane (k + 3) M {#} w" and R: "registered w c" and "payload_matches jph payloadp"
  shows "\<exists>np w'. login_handler c payloadp jph w = Some (np, w') \<and> sane k (holding np + M) {#} w' \<and> steady w w' \<and>
    (\<forall>a. np = Some a \<longrightarrow> player_of w' c = Some a)"
proof (cases "payloadp = None")
  case True
  obtain st w' where "client_send_nack (Some c) w = Some (st, w')" "sane (k + 3) M {#} w'" "steady w w'"
    using answer_sane(1) [OF S R] by blast
  then show ?thesis using True sane_mono [of "k + 3" M "{#}" w' k M]
    by (intro exI [of _ None] exI [of _ w']) (simp add: login_handler_def)
next
  case False
  then obtain d where d: "payloadp = Some d" by blast
  obtain nm where nm: "payload_string payloadp (unat (pkt_size (unpack_header jph))) = Some nm"
    by (rule payload_string_result [OF assms(3)])
  have "sane (Suc (Suc (Suc k))) M {#} w" using S by (simp add: eval_nat_numeral)
  then obtain a w1 where 1: "preg_register nm w = Some (Some a, w1)" "sane (Suc k) (add_mset a M) {#} w1" "steady w w1"
      "named w1 a nm" by (rule register_sane)
  have R1: "registered w1 c" using R steady_registered [OF 1(3)] by simp
  note eqs = d nm [unfolded d] saneD(9) [OF S] 1(1)
  from client_login_safe [OF 1(2) R1 1(4)] show ?thesis
  proof
    assume l: "client_login (Some c) (Some a) w1 = Some (-1, w1)"
    obtain w2 where 2: "w_player_unref (Some a) w1 = Some w2" "sane (Suc k) M {#} w2" "steady w1 w2"
      using unref_player_sane [OF 1(2)] by blast
    have R2: "registered w2 c" using R1 steady_registered [OF 2(3)] by simp
    obtain st w3 where 3: "client_send_nack (Some c) w2 = Some (st, w3)" "sane (Suc k) M {#} w3" "steady w2 w3"
      using answer_sane(1) [OF 2(2) R2] by blast
    have "login_handler c payloadp jph w = Some (None, w3)"
      using eqs l 2(1) 3(1) by (simp add: login_handler_def Let_def)
    then show ?thesis using sane_mono [OF 3(2), of k M] steady_trans [OF steady_trans [OF 1(3) 2(3)] 3(3)] by auto
  next
    assume "\<exists>w'. client_login (Some c) (Some a) w1 = Some (0, w') \<and> sane k (add_mset a M) {#} w' \<and> steady w1 w' \<and>
        player_of w' c = Some a"
    then obtain w2 where 2: "client_login (Some c) (Some a) w1 = Some (0, w2)" "sane k (add_mset a M) {#} w2"
        "steady w1 w2" "player_of w2 c = Some a" by blast
    have R2: "registered w2 c" using R1 steady_registered [OF 2(3)] by simp
    obtain st w3 where 3: "client_send_ack (Some c) None 0 w2 = Some (st, w3)" "sane k (add_mset a M) {#} w3"
        "steady w2 w3" "player_of w3 c = player_of w2 c" using answer_sane(2) [OF 2(2) R2] by blast
    have "login_handler c payloadp jph w = Some (if st = -1 then None else Some a, w3)"
      using eqs 2(1) 3(1) by (simp add: login_handler_def Let_def)
    moreover have "sane k (holding (if st = -1 then None else Some a) + M) {#} w3"
      using 3(2) sane_mono [OF 3(2), of k M] by simp
    ultimately show ?thesis using steady_trans [OF steady_trans [OF 1(3) 2(3)] 3(3)] 2(4) 3(4) by auto
  qed
qed

end
