(* ===== verification/Session_Safety.thy ===== *)
theory Session_Safety
  imports Login_Safety
begin

text \<open>
  The beginning and the end of a session: \<open>creg_register\<close> gives a new client to a thread,
  \<open>client_logout\<close> gives up every invitation and game of the client, and \<open>creg_unregister\<close> drops the
  registry's reference.
\<close>

subsection \<open>Logging out\<close>

text \<open>\<open>sane\<close> for all clients but one, whose thread is closing the session.\<close>

definition closing :: "nat \<Rightarrow> nat \<Rightarrow> nat multiset \<Rightarrow> world \<Rightarrow> bool" where
  "closing c k M w \<longleftrightarrow> world_ok k {#} w \<and> counted k M w \<and> preg_ok w \<and> creg_ok (creg w) \<and>
     creg_cap (creg w) = MAX_CLIENTS \<and> names_unique w \<and>
     (\<forall>i u d. invs w i = Some u \<longrightarrow> d = inv_src u \<or> d = inv_target u \<longrightarrow> d \<noteq> c \<longrightarrow>
        registered w d \<longrightarrow> player_of w d \<noteq> None) \<and>
     (\<forall>d v. clients w d = Some v \<longrightarrow> invs_cap v = TABLE_SIZE)"

lemma sane_closing: "sane k M {#} w \<Longrightarrow> closing c k M w"
  unfolding sane_def closing_def parties_in_def by blast

text \<open>What the other threads see of a session that ends.\<close>

definition undisturbed :: "nat \<Rightarrow> world \<Rightarrow> world \<Rightarrow> bool" where
  "undisturbed c w w' \<longleftrightarrow> same_input (os w) (os w') \<and>
     (\<forall>d v'. clients w' d = Some v' \<longrightarrow> (\<exists>v. clients w d = Some v \<and> c_fd v' = c_fd v \<and>
     (d \<noteq> c \<longrightarrow> c_player v \<noteq> None \<longrightarrow> c_player v' = c_player v)))"

lemma undisturbed_trans: "undisturbed c w1 w2 \<Longrightarrow> undisturbed c w2 w3 \<Longrightarrow> undisturbed c w1 w3"
  unfolding undisturbed_def by metis

lemma steady_undisturbed: "steady w w' \<Longrightarrow> undisturbed c w w'"
  unfolding steady_def undisturbed_def by blast

text \<open>The statements after the loop: the client gives up its player.\<close>

lemma leave_player:
  assumes S: "sane k M {#} w" and "clients w c = Some v" and "c_player v = Some a"
  shows "\<exists>p. players w a = Some p \<and> closing c k M (w\<lparr>players := (players w)(a := unreffed p),
      clients := (clients w)(c := Some (v\<lparr>c_player := None\<rparr>))\<rparr>)"
proof -
  note s = saneD [OF S]
  let ?v = "v\<lparr>c_player := None\<rparr>"
  let ?w1 = "w\<lparr>clients := (clients w)(c := Some ?v)\<rparr>"
  have pl: "plays w = add_mset a (plays ?w1)"
    using map_sum_update [OF s(8) assms(2), of client_plays ?v] assms(3)
    by (simp add: plays_def preg_plays_def client_plays_def)
  have rf: "refs ?w1 = refs w" by (simp add: refs_def fun_eq_iff)
  have c1: "counted k (add_mset a M) ?w1" using s(2) unfolding counted_def pl rf by simp
  have po: "player_of ?w1 d = (if d = c then None else player_of w d)" for d by (simp add: player_of_def)
  have pok: "players_ok ?w1"
    by (rule players_ok_mono [OF s(10)]) (auto simp: po split: if_splits)
  have "table_ok ?v" using world_okD(4) [OF s(1) assms(2)] by (simp add: table_ok_def)
  then have shape: "shape_ok ?w1"
    using world_ok_shape [OF s(1)] assms(2) pok by (auto simp: shape_ok_def fresh_from_def)
  have h: "held ?w1 = held w"
    using held_upd_client [OF world_okD(1) [OF s(1)] assms(2), of ?v]
    by (simp add: client_holds_def destroy_inv_lst_safe_def)
  have "counts_ok {#} ?w1"
  proof (rule counts_ok_move [OF world_okD(1) [OF s(1)]])
    show "stored ?w1 y = stored w y" for y using assms(2) by (cases y) auto
  qed (use counts_ok_finite [OF world_okD(1) [OF s(1)]] h in simp_all)
  with shape have ok1: "world_ok k {#} ?w1" using s(1) unfolding world_ok_def h by simp
  obtain p where p: "players ?w1 a = Some p"
      "counted k M (?w1\<lparr>players := (players ?w1)(a := unreffed p)\<rparr>)" by (rule counted_unref [OF c1])
  let ?w = "?w1\<lparr>players := (players ?w1)(a := unreffed p)\<rparr>"
  have fin: "finite (dom (clients ?w1))" using s(8) by simp
  have ok: "world_ok k {#} ?w" by (rule world_ok_set_players [OF ok1 players_ok_unref [OF pok c1 p(1) fin]])
  have pg1: "preg_ok ?w1" using s(3) by (subst preg_ok_cong [of ?w1 w]) simp_all
  have pg: "preg_ok ?w" by (rule preg_ok_unref [OF pg1 p])
  have po': "player_of ?w d = player_of ?w1 d" for d by (simp add: player_of_def)
  have reg: "registered ?w d = registered w d" for d by (rule registered_cong) simp
  have nm: "named w b n" if "named ?w b n" for b n
    using named_unreffed [OF p(1) that] by (simp add: named_def)
  have "logged_as w d n" if "logged_as ?w d n" for d n
    using that nm unfolding logged_as_named po' po by (auto split: if_splits)
  then have "names_unique ?w" using s(5) unfolding names_unique_def reg by blast
  moreover have "player_of ?w d \<noteq> None" if "invs ?w i = Some u" "d = inv_src u \<or> d = inv_target u" "d \<noteq> c" "registered w d" for i u d
    using that s(6) unfolding po' po parties_in_def by auto
  moreover have "invs_cap u = TABLE_SIZE" if "clients ?w d = Some u" for d u
    using that s(7) assms(2) by (auto split: if_splits)
  ultimately have "closing c k M ?w" using ok p(2) pg s(4,11) unfolding closing_def reg by simp
  moreover have "?w = w\<lparr>players := (players w)(a := unreffed p), clients := (clients w)(c := Some ?v)\<rparr>" by simp
  ultimately have "closing c k M (w\<lparr>players := (players w)(a := unreffed p), clients := (clients w)(c := Some ?v)\<rparr>)"
    by (simp only:)
  then show ?thesis using p(1) by auto
qed

lemma logout_safe:
  assumes S: "sane (Suc (Suc k)) M {#} w" and R: "registered w c" and "player_of w c = Some a"
  shows "\<exists>w'. client_logout (Some c) w = Some (0, w') \<and> closing c (Suc (Suc k)) M w' \<and> undisturbed c w w' \<and>
    creg w' = creg w"
proof -
  note W = saneD(1) [OF S]
  obtain v where v: "clients w c = Some v" by (rule registered_live [OF W R])
  have pl: "c_player v = Some a" using assms(3) v by (simp add: player_of_def)
  have "anchored {#} w c" using R by (simp add: anchored_def registered_anchored)
  moreover have "\<forall>n \<in> set [0..<invs_cap v]. n < invs_cap v" by simp
  ultimately obtain w2 where 2: "logout_slots c [0..<invs_cap v] w = Some w2" "world_ok (Suc (Suc k)) {#} w2" "evo w w2"
    using logout_slots_safe [OF W _ v] by blast
  have S2: "sane (Suc (Suc k)) M {#} w2" by (rule sane_evo [OF S 2(3,2)]) simp
  obtain v2 where v2: "clients w2 c = Some v2" by (rule session_client [OF S R 2(3,2)])
  obtain v' where "clients w c = Some v'" "client_keeps v' v2" by (rule evo_client [OF 2(3) v2])
  then have pl2: "c_player v2 = Some a" using v pl by (simp add: client_keeps_def)
  obtain p where p: "players w2 a = Some p" "closing c (Suc (Suc k)) M (w2\<lparr>players := (players w2)(a := unreffed p),
      clients := (clients w2)(c := Some (v2\<lparr>c_player := None\<rparr>))\<rparr>)"
    using leave_player [OF S2 v2 pl2] by blast
  let ?w = "w2\<lparr>players := (players w2)(a := unreffed p), clients := (clients w2)(c := Some (v2\<lparr>c_player := None\<rparr>))\<rparr>"
  have "client_logout (Some c) w = Some (0, ?w)"
    using v pl 2(1) v2 pl2 player_unref_eq [OF p(1)] by (simp add: client_logout_def client_set_player_safe_def)
  moreover have "undisturbed c w2 ?w" using v2 by (simp add: undisturbed_def)
  then have "undisturbed c w ?w" using undisturbed_trans steady_undisturbed evo_steady 2(3) by blast
  moreover have "creg ?w = creg w" using 2(3) by (simp add: evo_def)
  ultimately show ?thesis using p(2) by blast
qed

subsection \<open>Leaving the client registry\<close>

text \<open>A release does not look at the client registry.\<close>

lemma unref_step_creg:
  "unref_step x (w\<lparr>creg := r\<rparr>) = map_option (\<lambda>(calls, w'). (calls, w'\<lparr>creg := r\<rparr>)) (unref_step x w)"
  by (cases x)
     (auto simp: unref_step_def client_unref_step_def inv_unref_step_def w_game_unref_def deref_def Let_def
        split: option.splits)

lemma release_creg:
  "release xs w = Some w' \<Longrightarrow> release xs (w\<lparr>creg := r\<rparr>) = Some (w'\<lparr>creg := r\<rparr>)"
proof (rule release.raw_induct [where P = "\<lambda>xs w w'. release xs (w\<lparr>creg := r\<rparr>) = Some (w'\<lparr>creg := r\<rparr>)"])
  fix rel :: "pending list \<Rightarrow> world \<Rightarrow> world option" and xs w w'
  assume IH: "\<And>xs w w'. rel xs w = Some w' \<Longrightarrow> release xs (w\<lparr>creg := r\<rparr>) = Some (w'\<lparr>creg := r\<rparr>)"
    and eq: "(case xs of [] \<Rightarrow> Some w
       | x # rest \<Rightarrow>
         (case (case x of
                Unref_Client c \<Rightarrow> client_unref_step c w
              | Unref_Inv i \<Rightarrow> inv_unref_step i w
              | Unref_Game g \<Rightarrow> map_option (\<lambda>w'. ([], w')) (w_game_unref (Some g) w)) of
            None \<Rightarrow> None
          | Some (calls, w') \<Rightarrow> rel (calls @ rest) w')) = Some w'"
  show "release xs (w\<lparr>creg := r\<rparr>) = Some (w'\<lparr>creg := r\<rparr>)"
  proof (cases xs)
    case Nil
    with eq show ?thesis by simp
  next
    case (Cons x rest)
    with eq have "(case unref_step x w of None \<Rightarrow> None | Some (calls, w1) \<Rightarrow> rel (calls @ rest) w1) = Some w'"
      by (simp add: unref_step_def)
    then obtain calls w1 where "unref_step x w = Some (calls, w1)" "rel (calls @ rest) w1 = Some w'"
      by (auto split: option.splits)
    then show ?thesis using IH Cons by (simp add: release_Cons unref_step_creg)
  qed
qed

lemma client_unref_creg:
  "client_unref p w = Some w' \<Longrightarrow> client_unref p (w\<lparr>creg := r\<rparr>) = Some (w'\<lparr>creg := r\<rparr>)"
  by (auto simp: client_unref_def dest: release_creg split: option.splits)

text \<open>Taking a client out of its slot hands the registry's reference to the running operation.\<close>

definition cleared :: "nat \<Rightarrow> client_registry \<Rightarrow> client_registry" where
  "cleared j r = r\<lparr>creg_arr := (creg_arr r)[j := None], creg_len := creg_len r - 1,
                   count_sem := (if creg_len r = 1 then 1 else 0)\<rparr>"

lemma creg_holds_cleared:
  assumes "creg_ok (creg w)" and "find_idx (\<lambda>x. x = Some c) (creg_arr (creg w)) = Some j"
  shows "creg_holds w = add_mset (Unref_Client c) (creg_holds (w\<lparr>creg := cleared j (creg w)\<rparr>))"
    and "creg_ok (cleared j (creg w))"
proof -
  have j: "j < length (creg_arr (creg w))" "creg_arr (creg w) ! j = Some c"
    using find_idx_SomeD [OF assms(2)] by simp_all
  show ok: "creg_ok (cleared j (creg w))" unfolding cleared_def by (rule creg_ok_clear(1) [OF assms])
  then have sl: "creg_slots (w\<lparr>creg := cleared j (creg w)\<rparr>) = (creg_arr (creg w))[j := None]"
    by (subst creg_slots_ok) (simp_all add: cleared_def)
  show "creg_holds w = add_mset (Unref_Client c) (creg_holds (w\<lparr>creg := cleared j (creg w)\<rparr>))"
    unfolding creg_holds_def creg_slots_ok [OF assms(1)] sl
    by (rule slots_clear [OF j, where f = Unref_Client])
qed

lemma closing_registry:
  assumes C: "closing c k M w" and R: "registered w c" and one: "count (creg_holds w) (Unref_Client c) = 1"
  shows "\<exists>w'. creg_unregister c w = Some (0, w') \<and> sane k M {#} w' \<and> undisturbed c w w' \<and>
    creg_holds w = add_mset (Unref_Client c) (creg_holds w')"
proof -
  have W: "world_ok k {#} w" and cr: "creg_ok (creg w)" using C by (simp_all add: closing_def)
  obtain v where v: "clients w c = Some v" by (rule registered_live [OF W R])
  have "Some c \<in> set (creg_arr (creg w))" using R by (simp add: registered_def creg_slots_ok [OF cr])
  then obtain j where j: "find_idx (\<lambda>x. x = Some c) (creg_arr (creg w)) = Some j" by (rule find_idx_member)
  let ?r = "cleared j (creg w)"
  let ?w0 = "os_close (c_fd v) w"
  let ?w1 = "?w0\<lparr>creg := ?r\<rparr>"
  have h0: "creg_holds ?w0 = creg_holds w" by (rule creg_holds_cong) (simp add: os_close_def)
  have hh: "creg_holds ?w0 = add_mset (Unref_Client c) (creg_holds ?w1)"
    using creg_holds_cleared(1) [of ?w0 c j] cr j by (simp add: os_close_def)
  have frame: "clients ?w1 = clients w" "invs ?w1 = invs w" "games ?w1 = games w" "players ?w1 = players w"
      "next_addr ?w1 = next_addr w" "mem (os ?w1) = mem (os w)" "preg ?w1 = preg w" "creg ?w1 = ?r"
      "inbox (os ?w1) = inbox (os w)" "peer_closed (os ?w1) = peer_closed (os w)" "shut_fds (os ?w1) = shut_fds (os w)"
    by (simp_all add: os_close_def)
  have held1: "held w = add_mset (Unref_Client c) (held ?w1)"
    using hh unfolding h0 held_map_sum frame by simp
  have po: "player_of ?w1 = player_of w" by (simp add: player_of_def fun_eq_iff frame)
  have "counts_ok {#Unref_Client c#} ?w1"
  proof (rule counts_ok_move [OF world_okD(1) [OF W]])
    show "stored ?w1 y = stored w y" for y by (cases y) (simp_all add: frame)
    show "held ?w1 + {#Unref_Client c#} = held w + {#}" unfolding held1 by simp
  qed (use counts_ok_finite [OF world_okD(1) [OF W]] frame in simp_all)
  moreover have "shape_ok ?w1"
    using world_ok_shape [OF W] unfolding shape_ok_def fresh_from_def players_ok_def po frame .
  ultimately have W1: "world_ok k {#Unref_Client c#} ?w1" using W unfolding world_ok_def held1 by simp
  obtain w2 where 2: "client_unref (Some c) ?w1 = Some w2" "world_ok (Suc k) {#} w2" "evo ?w1 w2"
    using ok_client_unref [OF W1] by blast
  have bk: "?w1\<lparr>creg := creg w\<rparr> = ?w0" by (simp add: os_close_def)
  have u: "client_unref (Some c) ?w0 = Some (w2\<lparr>creg := creg w\<rparr>)"
    using client_unref_creg [OF 2(1), of "creg w"] unfolding bk .
  have "creg w2 = ?r" using 2(3) frame by (simp add: evo_def)
  then have fin: "w2\<lparr>creg := ?r\<rparr> = w2" by simp
  have un: "creg_unregister c w = Some (0, w2)"
    using unregister_found [OF cr j v u] fin by (simp add: cleared_def)
  have ch2: "creg_holds w2 = creg_holds ?w1" using \<open>creg w2 = ?r\<close> frame by (intro creg_holds_cong) simp
  have hold: "creg_holds w = add_mset (Unref_Client c) (creg_holds w2)" using hh h0 ch2 by simp
  then have c0: "Unref_Client c \<notin># creg_holds w2" using one by (simp add: not_in_iff)
  have reg: "registered w2 d \<longleftrightarrow> registered w d \<and> d \<noteq> c" for d
    using hold c0 by (auto simp: registered_anchored)
  have reg1: "registered ?w1 d = registered w2 d" for d
    using \<open>creg w2 = ?r\<close> frame by (intro registered_cong) simp
  have "sane k M {#Unref_Client c#} ?w1"
  proof -
    have "plays ?w1 = plays w" by (simp add: plays_def preg_plays_def frame)
    moreover have "refs ?w1 = refs w" by (simp add: refs_def fun_eq_iff frame)
    ultimately have "counted k M ?w1" using C unfolding closing_def counted_def by simp
    moreover have "preg_ok ?w1" using C by (subst preg_ok_cong [of ?w1 w]) (simp_all add: closing_def frame)
    moreover have "creg_ok (creg ?w1)" using creg_holds_cleared(2) [OF cr j] frame by simp
    moreover have "creg_cap (creg ?w1) = MAX_CLIENTS" using C frame by (simp add: closing_def cleared_def)
    moreover have "names_unique ?w1"
    proof -
      have "logged_as ?w1 d n = logged_as w d n" for d n by (simp add: logged_as_def frame)
      then show ?thesis using C unfolding closing_def names_unique_def reg1 reg by blast
    qed
    moreover have "parties_in ?w1" using C unfolding closing_def parties_in_def po frame reg1 reg by blast
    moreover have "invs_cap u = TABLE_SIZE" if "clients ?w1 d = Some u" for d u
      using that C unfolding closing_def frame by blast
    ultimately show ?thesis using W1 unfolding sane_def by blast
  qed
  then have "sane k M {#} w2" by (rule sane_evo [OF _ 2(3) world_ok_mono [OF 2(2)]]) simp_all
  moreover have "undisturbed c w w2"
    using steady_undisturbed [OF evo_steady [OF 2(3)]] unfolding undisturbed_def frame .
  ultimately show ?thesis using un hold by blast
qed

subsection \<open>The end of a thread\<close>

lemma service_end_safe:
  assumes S: "sane (Suc (Suc k)) (holding (svc_player t) + M) {#} w" and R: "registered w (svc_client t)"
    and one: "count (creg_holds w) (Unref_Client (svc_client t)) = 1"
    and pl: "svc_player t = None \<or> player_of w (svc_client t) = svc_player t"
  shows "\<exists>w'. service_end t w = Some w' \<and> sane (Suc (Suc k)) M {#} w' \<and> undisturbed (svc_client t) w w' \<and>
    creg_holds w = add_mset (Unref_Client (svc_client t)) (creg_holds w')"
proof (cases "svc_player t")
  case None
  then have "sane (Suc (Suc k)) M {#} w" using S by simp
  from closing_registry [OF sane_closing [OF this] R one] None show ?thesis
    by (auto simp: service_end_def)
next
  case (Some a)
  let ?c = "svc_client t"
  have "sane (Suc (Suc k)) (add_mset a M) {#} w" using S Some by simp
  then obtain w1 where 1: "w_player_unref (Some a) w = Some w1" "sane (Suc (Suc k)) M {#} w1" "steady w w1"
    using unref_player_sane by blast
  have R1: "registered w1 ?c" using R steady_registered [OF 1(3)] by simp
  obtain v1 where v1: "clients w1 ?c = Some v1" by (rule registered_live [OF saneD(1) [OF 1(2)] R1])
  then obtain v where "clients w ?c = Some v" "c_player v \<noteq> None \<longrightarrow> c_player v1 = c_player v"
    using 1(3) unfolding steady_def by blast
  then have "player_of w1 ?c = Some a" using pl Some v1 by (simp add: player_of_def)
  then obtain w2 where 2: "client_logout (Some ?c) w1 = Some (0, w2)" "closing ?c (Suc (Suc k)) M w2"
      "undisturbed ?c w1 w2" "creg w2 = creg w1"
    using logout_safe [OF 1(2) R1] by blast
  have cr: "creg w2 = creg w" using 2(4) 1(3) by (simp add: steady_def)
  have R2: "registered w2 ?c" using R registered_cong [OF cr] by simp
  have h2: "creg_holds w2 = creg_holds w" by (rule creg_holds_cong [OF cr])
  obtain w3 where 3: "creg_unregister ?c w2 = Some (0, w3)" "sane (Suc (Suc k)) M {#} w3" "undisturbed ?c w2 w3"
      "creg_holds w2 = add_mset (Unref_Client ?c) (creg_holds w3)"
    using closing_registry [OF 2(2) R2] one h2 by auto
  have "service_end t w = Some w3" using Some 1(1) 2(1) 3(1) by (simp add: service_end_def)
  moreover have "undisturbed ?c w w3"
    using undisturbed_trans [OF steady_undisturbed [OF 1(3)] undisturbed_trans [OF 2(3) 3(3)]] .
  ultimately show ?thesis using 3(2,4) h2 by simp
qed

subsection \<open>The beginning of a thread\<close>

definition entered :: "int \<Rightarrow> nat \<Rightarrow> world \<Rightarrow> world" where
  "entered fd j w = w\<lparr>clients := (clients w)(next_addr w := Some (new_client fd)), next_addr := Suc (next_addr w),
     creg := (creg w)\<lparr>creg_arr := (creg_arr (creg w))[j := Some (next_addr w)],
                       creg_len := creg_len (creg w) + 1, count_sem := 0\<rparr>\<rparr>"

lemma register_entered:
  assumes "creg_ok (creg w)" and "find_idx (\<lambda>x. x = None) (creg_arr (creg w)) = Some j" and "mem (os w) = []"
  shows "creg_register fd w = Some (Some (next_addr w), entered fd j w)"
proof -
  have sem: "count_sem (creg w) = (if creg_len (creg w) = 0 then 1 else 0)"
    using assms(1) by (simp add: creg_ok_def)
  have len: "creg_len (creg w) + 1 < 2 ^ 64" by (rule creg_ok_fill [OF assms(1,2)])
  have "client_create fd w = Some (Some (next_addr w),
      w\<lparr>clients := (clients w)(next_addr w := Some (new_client fd)), next_addr := Suc (next_addr w)\<rparr>)"
    using assms(3) by (simp add: client_create_def Let_def new_client_def size_inc_def)
  then show ?thesis
    using assms(2) sem len
    by (cases "creg_len (creg w) = 0")
       (simp_all add: creg_register_def creg_slots_ok [OF assms(1)] set_creg_slot_def sem_wait_def Let_def entered_def)
qed

lemma entered_sane:
  assumes S: "sane (Suc k) M {#} w" and j: "find_idx (\<lambda>x. x = None) (creg_arr (creg w)) = Some j"
  shows "sane k M {#} (entered fd j w)"
    and "creg_holds (entered fd j w) = add_mset (Unref_Client (next_addr w)) (creg_holds w)"
    and "\<not> registered w (next_addr w)"
proof -
  note s = saneD [OF S]
  let ?n = "next_addr w"
  let ?w = "entered fd j w"
  have frame: "clients ?w = (clients w)(?n := Some (new_client fd))" "invs ?w = invs w" "games ?w = games w"
      "players ?w = players w" "preg ?w = preg w" "os ?w = os w" "next_addr ?w = Suc ?n"
    by (simp_all add: entered_def)
  have fresh: "clients w ?n = None"
    using world_ok_shape [OF s(1)] by (simp add: shape_ok_def fresh_from_def)
  show nr: "\<not> registered w ?n"
    using registered_live [OF s(1), of ?n] fresh by (metis option.distinct(1))
  have j': "j < length (creg_arr (creg w))" "creg_arr (creg w) ! j = None" using find_idx_SomeD [OF j] by simp_all
  have cok: "creg_ok (creg ?w)" using creg_ok_fill(1) [OF s(4) j] by (simp add: entered_def)
  have sl: "creg_slots ?w = (creg_arr (creg w))[j := Some ?n]"
    by (subst creg_slots_ok [OF cok]) (simp add: entered_def)
  show hold: "creg_holds ?w = add_mset (Unref_Client ?n) (creg_holds w)"
    unfolding creg_holds_def creg_slots_ok [OF s(4)] sl by (rule slots_fill [OF j', where f = Unref_Client])
  have reg: "registered ?w d \<longleftrightarrow> d = ?n \<or> registered w d" for d unfolding registered_anchored hold by auto
  have po: "player_of ?w d = player_of w d" for d using fresh by (simp add: player_of_def frame new_client_def)
  have nc: "client_holds (new_client fd) = {#}" "client_plays (new_client fd) = {#}" "c_ref_count (new_client fd) = 1"
      "invs_cap (new_client fd) = TABLE_SIZE"
    by (simp_all add: client_holds_def destroy_inv_lst_safe_def new_client_def client_plays_def filter_empty_conv)
  have h: "held ?w = add_mset (Unref_Client ?n) (held w)"
    using map_sum_insert [OF s(8) fresh, of client_holds "new_client fd"] nc
    unfolding held_map_sum frame hold by simp
  have "counts_ok {#} ?w"
  proof (rule counts_ok_new [OF world_okD(1) [OF s(1)], of _ _ "Unref_Client ?n"])
    show "stored ?w y = stored w y" if "y \<noteq> Unref_Client ?n" for y using that by (cases y) (simp_all add: frame)
  qed (use counts_ok_finite [OF world_okD(1) [OF s(1)]] h fresh nc frame in simp_all)
  moreover have "shape_ok ?w"
    using world_ok_shape [OF s(1)] new_client_table
    by (auto simp: shape_ok_def fresh_from_def players_ok_def po frame)
  ultimately have ok: "world_ok k {#} ?w" using s(1) unfolding world_ok_def h by simp
  have "plays ?w = plays w"
    using map_sum_insert [OF s(8) fresh, of client_plays "new_client fd"] nc by (simp add: plays_def preg_plays_def frame)
  moreover have "refs ?w = refs w" by (simp add: refs_def fun_eq_iff frame)
  ultimately have c: "counted k M ?w" using counted_mono [OF s(2), of k M] by (simp add: counted_def)
  have nm: "named ?w b n = named w b n" for b n by (simp add: named_def frame)
  have pr: "preg_ok ?w" using s(3) unfolding preg_ok_def in_preg_def nm frame by simp
  have noname: "\<not> logged_as w ?n n" for n using fresh by (simp add: logged_as_def)
  have "names_unique ?w"
    using s(5) noname unfolding names_unique_def reg logged_as_named po nm by (metis (no_types))
  moreover have "parties_in ?w"
    unfolding parties_in_def
  proof (intro allI impI)
    fix i u d
    assume u: "invs ?w i = Some u" and d: "d = inv_src u \<or> d = inv_target u" and r: "registered ?w d"
    have u': "invs w i = Some u" using u by (simp add: frame)
    obtain x y where "clients w (inv_src u) = Some x" "clients w (inv_target u) = Some y"
      by (rule parties_live [OF world_okD(1) [OF s(1)] u'])
    then have "d \<noteq> ?n" using d fresh by auto
    then show "player_of ?w d \<noteq> None" using r s(6) u' d unfolding reg po parties_in_def by blast
  qed
  moreover have "invs_cap v = TABLE_SIZE" if "clients ?w d = Some v" for d v
    using that s(7) nc(4) by (auto simp: frame split: if_splits)
  ultimately show "sane k M {#} ?w" using ok c pr cok s(11) by (simp add: sane_def entered_def)
qed

lemma service_start_safe:
  assumes S: "sane (Suc k) M {#} w"
  shows "service_start fd w = Some (None, w) \<or>
    (\<exists>w'. service_start fd w = Some (Some \<lparr>svc_fd = fd, svc_client = next_addr w, svc_player = None\<rparr>, w') \<and>
      sane k M {#} w' \<and> creg_holds w' = add_mset (Unref_Client (next_addr w)) (creg_holds w) \<and>
      \<not> registered w (next_addr w) \<and> clients w' = (clients w)(next_addr w := Some (new_client fd)))"
proof (cases "None \<in> set (creg_arr (creg w))")
  case True
  then obtain j where j: "find_idx (\<lambda>x. x = None) (creg_arr (creg w)) = Some j" by (rule find_idx_member)
  have "creg_register fd w = Some (Some (next_addr w), entered fd j w)"
    by (rule register_entered [OF saneD(4) [OF S] j saneD(9) [OF S]])
  moreover have "clients (entered fd j w) = (clients w)(next_addr w := Some (new_client fd))" by (simp add: entered_def)
  ultimately show ?thesis using entered_sane [OF S j] by (simp add: service_start_def)
next
  case False
  then show ?thesis using register_full [OF saneD(4) [OF S] False] by (simp add: service_start_def)
qed

end
