(* ===== verification/Listen.thy ===== *)
theory Listen
  imports Protocol
begin

text \<open>
  The functions of \<open>src/src/csapp.c\<close> that open a connection: \<open>open_listenfd\<close>, which the program calls, and
  its counterpart \<open>open_clientfd\<close>. What the system answers is given: the list of addresses that
  \<open>getaddrinfo\<close> finds, with the outcome that \<open>socket\<close>, \<open>bind\<close> (or \<open>connect\<close>) and \<open>close\<close> would have for
  each, and the outcome of \<open>listen\<close>.
\<close>

record candidate =
  cand_socket :: int
  cand_bound :: bool
  cand_close :: bool

datatype bind_result = Bound int | Close_Failed | No_Address

definition close_fd :: "int \<Rightarrow> os_state \<Rightarrow> os_state" where
  "close_fd fd s = s\<lparr>closed_fds := closed_fds s @ [fd]\<rparr>"

text \<open>The loop over the addresses. A socket whose \<open>close\<close> fails is not closed.\<close>

fun bind_first :: "candidate list \<Rightarrow> os_state \<Rightarrow> bind_result \<times> os_state" where
  "bind_first [] s = (No_Address, s)"
| "bind_first (p # ps) s =
     (if cand_socket p < 0 then bind_first ps s
      else if cand_bound p then (Bound (cand_socket p), s)
      else if \<not> cand_close p then (Close_Failed, s)
      else bind_first ps (close_fd (cand_socket p) s))"

definition open_listenfd :: "candidate list option \<Rightarrow> bool \<Rightarrow> os_state \<Rightarrow> int \<times> os_state" where
  "open_listenfd addresses listens s =
    (case addresses of None \<Rightarrow> (-2, s)
     | Some listp \<Rightarrow>
         (case bind_first listp s of
            (Close_Failed, s) \<Rightarrow> (-1, s)
          | (No_Address, s) \<Rightarrow> (-1, s)
          | (Bound fd, s) \<Rightarrow> if \<not> listens then (-1, close_fd fd s) else (fd, s)))"

text \<open>\<open>open_clientfd\<close> walks the addresses in the same way, with \<open>connect\<close> for \<open>bind\<close>.\<close>

definition open_clientfd :: "candidate list option \<Rightarrow> os_state \<Rightarrow> int \<times> os_state" where
  "open_clientfd addresses s =
    (case addresses of None \<Rightarrow> (-2, s)
     | Some listp \<Rightarrow>
         (case bind_first listp s of
            (Close_Failed, s) \<Rightarrow> (-1, s)
          | (No_Address, s) \<Rightarrow> (-1, s)
          | (Bound fd, s) \<Rightarrow> (fd, s)))"

subsection \<open>Properties\<close>

text \<open>The sockets that are created and not returned, as long as every \<open>close\<close> succeeds.\<close>

definition usable :: "candidate \<Rightarrow> bool" where
  "usable p \<longleftrightarrow> 0 \<le> cand_socket p \<and> cand_bound p"

definition passed_over :: "candidate list \<Rightarrow> int list" where
  "passed_over ps = map cand_socket (filter (\<lambda>p. 0 \<le> cand_socket p) (takeWhile (\<lambda>p. \<not> usable p) ps))"

lemma bind_first_result:
  assumes "\<forall>p \<in> set ps. cand_close p"
  shows "bind_first ps s =
    ((case dropWhile (\<lambda>p. \<not> usable p) ps of [] \<Rightarrow> No_Address | p # _ \<Rightarrow> Bound (cand_socket p)),
     s\<lparr>closed_fds := closed_fds s @ passed_over ps\<rparr>)"
  using assms by (induction ps arbitrary: s) (auto simp: usable_def passed_over_def close_fd_def)

lemma open_clientfd_result:
  assumes "\<forall>p \<in> set ps. cand_close p"
  shows "open_clientfd (Some ps) s =
    ((case dropWhile (\<lambda>p. \<not> usable p) ps of [] \<Rightarrow> -1 | p # _ \<Rightarrow> cand_socket p),
     s\<lparr>closed_fds := closed_fds s @ passed_over ps\<rparr>)"
  using bind_first_result [OF assms, of s]
  by (cases "dropWhile (\<lambda>p. \<not> usable p) ps") (simp_all add: open_clientfd_def del: dropWhile_eq_Nil_conv)

text \<open>C40: \<open>open_listenfd\<close> returns the socket of the first address that can be bound, and has closed every
other socket that it created: nothing is leaked, on success or on failure, unless a \<open>close\<close> fails.\<close>

theorem open_listenfd_correct:
  assumes "\<forall>p \<in> set ps. cand_close p"
  shows "open_listenfd (Some ps) listens s =
    (case dropWhile (\<lambda>p. \<not> usable p) ps of
       [] \<Rightarrow> (-1, s\<lparr>closed_fds := closed_fds s @ passed_over ps\<rparr>)
     | p # _ \<Rightarrow> if listens then (cand_socket p, s\<lparr>closed_fds := closed_fds s @ passed_over ps\<rparr>)
         else (-1, s\<lparr>closed_fds := closed_fds s @ passed_over ps @ [cand_socket p]\<rparr>))"
  using bind_first_result [OF assms, of s]
  by (cases "dropWhile (\<lambda>p. \<not> usable p) ps") (simp_all add: open_listenfd_def close_fd_def del: dropWhile_eq_Nil_conv)

theorem open_listenfd_correct_witness:
  "open_listenfd (Some [\<lparr>cand_socket = 3, cand_bound = False, cand_close = True\<rparr>,
      \<lparr>cand_socket = 4, cand_bound = True, cand_close = True\<rparr>]) True idle_os = (4, idle_os\<lparr>closed_fds := [3]\<rparr>)"
  using open_listenfd_correct [of "[\<lparr>cand_socket = 3, cand_bound = False, cand_close = True\<rparr>,
      \<lparr>cand_socket = 4, cand_bound = True, cand_close = True\<rparr>]" True idle_os]
  by (simp add: usable_def passed_over_def idle_os_def)

end
