(* ===== verification/Jeux_Main.thy ===== *)
theory Jeux_Main
  imports Server Listen
begin

text \<open>
  The main program (\<open>src/src/main.c\<close>): the arguments, the initial state, the loop that accepts
  connections, the handler of \<open>SIGHUP\<close>, and the shutdown sequence. The process is a state with a step
  relation: a step is a signal, a part of the main thread's code, the start of a service thread, or one
  iteration of a service thread.
\<close>

subsection \<open>Arguments and initial state\<close>

text \<open>\<open>char_to_port_num\<close>: an \<open>int\<close> that overflows is undefined. The caller may pass \<open>NULL\<close>.\<close>

fun port_digits :: "string \<Rightarrow> int \<Rightarrow> int option" where
  "port_digits [] ret = Some ret"
| "port_digits (ch # str) ret =
     (if \<not> (CHR ''0'' \<le> ch \<and> ch \<le> CHR ''9'') then Some (-1)
      else let ret1 = ret * 10 in
        if ret1 \<ge> 2 ^ 31 then None
        else let ret2 = ret1 + (of_char ch - of_char (CHR ''0'')) in
        if ret2 \<ge> 2 ^ 31 then None else port_digits str ret2)"

definition char_to_port_num :: "string option \<Rightarrow> int option" where
  "char_to_port_num strp = (case strp of None \<Rightarrow> Some (-1) | Some str \<Rightarrow> port_digits str 0)"

text \<open>What it computes: the number that the leading digits denote decides whether the \<open>int\<close> overflows.\<close>

definition port_digit :: "char \<Rightarrow> bool" where
  "port_digit ch \<longleftrightarrow> CHR ''0'' \<le> ch \<and> ch \<le> CHR ''9''"

fun port_value :: "string \<Rightarrow> int \<Rightarrow> int" where
  "port_value [] n = n"
| "port_value (ch # str) n = port_value str (10 * n + (of_char ch - of_char (CHR ''0'')))"

lemma port_digit_code: "port_digit ch \<Longrightarrow> (of_char (CHR ''0'') :: int) \<le> of_char ch"
  using of_nat_of_char [of ch, where 'a = int] by (simp add: port_digit_def less_eq_char_def)

lemma port_value_mono: "\<forall>ch \<in> set str. port_digit ch \<Longrightarrow> 0 \<le> n \<Longrightarrow> n \<le> port_value str n"
proof (induction str arbitrary: n)
  case (Cons ch str)
  let ?n = "10 * n + (of_char ch - of_char (CHR ''0''))"
  have "(of_char (CHR ''0'') :: int) \<le> of_char ch" using port_digit_code Cons.prems(1) by simp
  then have "n \<le> ?n" "0 \<le> ?n" using Cons.prems(2) by linarith+
  with Cons.IH [of ?n] Cons.prems(1) show ?case by simp
qed simp

lemma port_digits_result:
  "0 \<le> n \<Longrightarrow> n < 2 ^ 31 \<Longrightarrow> port_digits str n =
    (if 2 ^ 31 \<le> port_value (takeWhile port_digit str) n then None
     else if \<forall>ch \<in> set str. port_digit ch then Some (port_value str n) else Some (-1))"
proof (induction str arbitrary: n)
  case (Cons ch str)
  let ?n = "10 * n + (of_char ch - of_char (CHR ''0''))"
  show ?case
  proof (cases "port_digit ch")
    case True
    then have d: "CHR ''0'' \<le> ch" "ch \<le> CHR ''9''" by (simp_all add: port_digit_def)
    have n: "10 * n \<le> ?n" "0 \<le> ?n" using port_digit_code [OF True] Cons.prems(1) by linarith+
    have mono: "?n \<le> port_value (takeWhile port_digit str) ?n"
      by (rule port_value_mono [OF _ n(2)]) (auto dest: set_takeWhileD)
    show ?thesis
    proof (cases "?n < 2 ^ 31")
      case small: True
      then show ?thesis using Cons.IH [OF n(2) small] n(1) True d by (simp add: mult.commute)
    next
      case False
      then show ?thesis using mono True d by (simp add: Let_def mult.commute)
    qed
  next
    case False
    then have "\<not> (CHR ''0'' \<le> ch \<and> ch \<le> CHR ''9'')" by (simp add: port_digit_def)
    then have "port_digits (ch # str) n = Some (-1)" by simp
    with False Cons.prems show ?thesis by simp
  qed
qed simp

text \<open>C36: \<open>char_to_port_num\<close> returns the number that a string of digits denotes, and -1 for any other
string. It has no bound on the number of digits: the \<open>int\<close> overflows, which is undefined, exactly when
the leading digits denote a number of more than 31 bits. The empty string counts as 0.\<close>

theorem char_to_port_num_bounds:
  "char_to_port_num (Some str) =
    (if 2 ^ 31 \<le> port_value (takeWhile port_digit str) 0 then None
     else if \<forall>ch \<in> set str. port_digit ch then Some (port_value str 0) else Some (-1)) \<and>
   ((\<forall>ch \<in> set str. port_digit ch) \<longrightarrow> 0 \<le> port_value str 0)"
  using port_digits_result [of 0 str] port_value_mono [of str 0] by (simp add: char_to_port_num_def)

theorem char_to_port_num_bounds_witness:
  "char_to_port_num (Some ''3333'') = Some 3333 \<and> 0 \<le> port_value ''3333'' 0 \<and>
   char_to_port_num (Some ''33a'') = Some (-1) \<and> char_to_port_num (Some ''2147483648'') = None"
  using char_to_port_num_bounds [of "''3333''"] char_to_port_num_bounds [of "''33a''"] char_to_port_num_bounds [of "''2147483648''"]
  by (simp add: port_digit_def less_eq_char_def)

text \<open>The checks of \<open>main\<close>: the port argument that the server is run with, or \<open>None\<close> when the usage
is printed and the process exits. The outer option is undefined behaviour.\<close>

definition main_port :: "string list \<Rightarrow> string option option" where
  "main_port argv =
    (if length argv \<noteq> 3 then Some None
     else if argv ! 1 \<noteq> ''-p'' then Some None
     else do {
       port \<leftarrow> char_to_port_num (Some (argv ! 2));
       if port = -1 then Some None else Some (Some (argv ! 2))
     })"

text \<open>The state after the two registries were initialised; \<open>main\<close> does not check the results, so a
failed initialisation has no value.\<close>

definition main_init :: "os_state \<Rightarrow> world option" where
  "main_init o0 = do {
     let (cr, m1) = creg_init (mem o0);
     let (pr, m2) = preg_init m1;
     cr \<leftarrow> cr;
     pr \<leftarrow> pr;
     Some \<lparr>games = (\<lambda>_. None), players = (\<lambda>_. None), clients = (\<lambda>_. None), invs = (\<lambda>_. None),
           next_addr = 0, player_counter = 0, creg = cr, preg = pr, os = o0\<lparr>mem := m2\<rparr>\<rparr>
   }"

subsection \<open>The process\<close>

text \<open>Where the main thread is: at the top of the loop of \<open>run_server\<close>, blocked in \<open>accept\<close>, or in
\<open>terminate(status)\<close> before its four calls; or the process has exited.\<close>

datatype main_phase = Loop_Top | Accepting | Shutdown_All int | Wait_For_Empty int | Creg_Fini int
  | Preg_Fini int | Exited int

text \<open>\<open>starting\<close> holds the descriptors of the service threads that were created and have not called
\<open>creg_register\<close> yet; \<open>hup_pending\<close> is a \<open>SIGHUP\<close> that another thread sent to the main thread;
\<open>creg_live\<close> is false once \<open>creg_fini\<close> has freed the client registry.\<close>

record process =
  shared :: world
  running :: "service list"
  starting :: "int list"
  phase :: main_phase
  terminate_flag :: bool
  hup_pending :: bool
  listenfd :: int
  creg_live :: bool

definition EXIT_SUCCESS :: int where "EXIT_SUCCESS = 0"

definition EXIT_FAILURE :: int where "EXIT_FAILURE = 1"

definition sighup_handler :: "bool \<Rightarrow> process \<Rightarrow> process" where
  "sighup_handler in_main p =
    (let p = p\<lparr>terminate_flag := True\<rparr>
     in if \<not> in_main then p\<lparr>hup_pending := True\<rparr>
        else p\<lparr>shared := os_close (listenfd p) (shared p)\<rparr>)"

text \<open>\<open>run_server\<close> up to its loop.\<close>

definition run_server :: "candidate list option \<Rightarrow> bool \<Rightarrow> world \<Rightarrow> process" where
  "run_server addresses listens w =
    (let (fd, o1) = open_listenfd addresses listens (os w)
     in \<lparr>shared = w\<lparr>os := o1\<rparr>, running = [], starting = [],
         phase = (if fd < 0 then Shutdown_All EXIT_FAILURE else Loop_Top),
         terminate_flag = False, hup_pending = False, listenfd = fd, creg_live = True\<rparr>)"

text \<open>The loop of \<open>run_server\<close> up to \<open>accept\<close>. A failing \<open>malloc\<close> ends the server.\<close>

definition loop_top :: "process \<Rightarrow> process" where
  "loop_top p =
    (let (newfd, w) = w_malloc (shared p); p = p\<lparr>shared := w\<rparr>
     in if \<not> newfd then p\<lparr>phase := Shutdown_All EXIT_FAILURE\<rparr>
        else if terminate_flag p then p\<lparr>phase := Shutdown_All EXIT_SUCCESS\<rparr>
        else p\<lparr>phase := Accepting\<rparr>)"

text \<open>The rest of the loop, when \<open>accept\<close> has returned \<open>newfd\<close>. Neither the result of \<open>accept\<close> nor that
of \<open>pthread_create\<close> (\<open>created\<close>) is checked.\<close>

definition accepted :: "int \<Rightarrow> bool \<Rightarrow> process \<Rightarrow> process" where
  "accepted newfd created p =
    (if terminate_flag p then
       let p = (if newfd \<noteq> -1 then p\<lparr>shared := os_close newfd (shared p)\<rparr> else p)
       in p\<lparr>phase := Shutdown_All EXIT_SUCCESS\<rparr>
     else
       let p = (if created then p\<lparr>starting := starting p @ [newfd]\<rparr> else p)
       in p\<lparr>phase := (if \<not> terminate_flag p then Loop_Top else Shutdown_All EXIT_SUCCESS)\<rparr>)"

definition exited :: "process \<Rightarrow> bool" where
  "exited p \<longleftrightarrow> (case phase p of Exited _ \<Rightarrow> True | _ \<Rightarrow> False)"

definition creg_fini :: "process \<Rightarrow> process" where
  "creg_fini p = p\<lparr>creg_live := False\<rparr>"

text \<open>\<open>terminate\<close>, call by call: \<open>None\<close> while \<open>creg_wait_for_empty\<close> blocks.\<close>

definition terminate_step :: "process \<Rightarrow> process option" where
  "terminate_step p =
    (case phase p of
       Shutdown_All status \<Rightarrow> do {
         w \<leftarrow> creg_shutdown_all (shared p);
         Some (p\<lparr>shared := w, phase := Wait_For_Empty status\<rparr>)
       }
     | Wait_For_Empty status \<Rightarrow> do {
         w \<leftarrow> creg_wait_for_empty (shared p);
         Some (p\<lparr>shared := w, phase := Creg_Fini status\<rparr>)
       }
     | Creg_Fini status \<Rightarrow> Some ((creg_fini p)\<lparr>phase := Preg_Fini status\<rparr>)
     | Preg_Fini status \<Rightarrow> do {
         w \<leftarrow> preg_fini (shared p);
         Some (p\<lparr>shared := w, phase := Exited status\<rparr>)
       }
     | _ \<Rightarrow> None)"

text \<open>\<open>main\<close>: the exit status of \<open>print_usage_exit\<close>, or the process that enters the loop.\<close>

definition main :: "string list \<Rightarrow> (string \<Rightarrow> candidate list option) \<Rightarrow> bool \<Rightarrow> os_state \<Rightarrow> (int + process) option" where
  "main argv getaddrinfo listens o0 = do {
     port \<leftarrow> main_port argv;
     (case port of
        None \<Rightarrow> Some (Inl EXIT_FAILURE)
      | Some p \<Rightarrow> do {
          w \<leftarrow> main_init o0;
          Some (Inr (run_server (getaddrinfo p) listens w))
        })
   }"

text \<open>Every service thread uses the client registry, so no thread can go on once it is freed.\<close>

inductive jeux_step :: "process \<Rightarrow> process \<Rightarrow> bool" where
  signal: "\<not> exited p \<Longrightarrow> jeux_step p (sighup_handler in_main p)"
| resent: "hup_pending p \<Longrightarrow> \<not> exited p \<Longrightarrow> jeux_step p (sighup_handler True (p\<lparr>hup_pending := False\<rparr>))"
| top: "phase p = Loop_Top \<Longrightarrow> jeux_step p (loop_top p)"
| accept: "phase p = Accepting \<Longrightarrow> jeux_step p (accepted newfd created p)"
| finalize: "terminate_step p = Some p' \<Longrightarrow> jeux_step p p'"
| thread_start: "creg_live p \<Longrightarrow> starting p = xs @ fd # ys \<Longrightarrow> service_start fd (shared p) = Some (t, w) \<Longrightarrow>
    jeux_step p (p\<lparr>shared := w, running := running p @ (case t of None \<Rightarrow> [] | Some t \<Rightarrow> [t]), starting := xs @ ys\<rparr>)"
| thread_work: "creg_live p \<Longrightarrow> running p = xs @ t # ys \<Longrightarrow> service_iteration t (shared p) = Some (r, w) \<Longrightarrow>
    jeux_step p (p\<lparr>shared := w, running := xs @ (case r of None \<Rightarrow> [] | Some t \<Rightarrow> [t]) @ ys\<rparr>)"

inductive_cases jeux_stepE: "jeux_step p q"

end
