(* ===== verification/Server_Safety.thy ===== *)
theory Server_Safety
  imports Session_Safety Jeux_Main
begin

text \<open>
  The invariant of the whole server when requests are handled one at a time: the shared state is sane,
  the client registry holds exactly the clients of the running threads, and every thread's descriptor
  and player are those of its client. Every step of \<open>serial_step\<close> keeps it, and every thread can take its
  next step unless it waits for input; each step uses up input or ends the thread.
\<close>

subsection \<open>Receiving a request\<close>

text \<open>A complete packet is among the bytes to be read: the header and the payload that it announces.\<close>

definition packet_ready :: "byte list \<Rightarrow> bool" where
  "packet_ready bs \<longleftrightarrow> HEADER_SIZE \<le> length bs \<and>
     HEADER_SIZE + payload_size (header_of_bytes (take HEADER_SIZE bs)) \<le> length bs"

text \<open>A thread waits for its client: neither is a complete packet there nor will the stream end.\<close>

definition waits_for_input :: "int \<Rightarrow> os_state \<Rightarrow> bool" where
  "waits_for_input fd o1 \<longleftrightarrow> \<not> read_ends fd o1 \<and> \<not> packet_ready (inbox o1 fd)"

lemma took_frame:
  assumes "took fd n o1 o2"
  shows "mem o2 = mem o1" and "shut_fds o2 = shut_fds o1"
  using assms unfolding took_def by (cases o1; cases o2; simp)+

text \<open>The payload, once the header was read.\<close>

lemma recv_payload:
  assumes h: "fd_op False (read_op fd) 0 HEADER_SIZE ([], o1) = Some (1, (take HEADER_SIZE (inbox o1 fd), o2))"
      "took fd HEADER_SIZE o1 o2" "HEADER_SIZE \<le> length (inbox o1 fd)"
    and "mem o1 = []"
  obtains o3 jph payloadp n where "proto_recv_packet fd o1 = Some ((-1, jph, payloadp), o3)" "took fd n o1 o3" "mem o3 = []"
  | o3 jph payloadp n where "proto_recv_packet fd o1 = Some ((0, jph, payloadp), o3)" "payload_matches jph payloadp"
      "took fd n o1 o3" "HEADER_SIZE \<le> n" "n \<le> length (inbox o1 fd)" "mem o3 = []"
  | "proto_recv_packet fd o1 = None" "waits_for_input fd o1"
proof -
  let ?hdr = "header_of_bytes (take HEADER_SIZE (inbox o1 fd))"
  let ?sz = "payload_size ?hdr"
  note sz = payload_size_def [of ?hdr]
  have m: "mem o' = []" if "took fd n o1 o'" for n o' using took_frame(1) [OF that] assms(4) by simp
  show thesis
  proof (cases "?sz = 0")
    case True
    then have "proto_recv_packet fd o1 = Some ((0, ?hdr, None), o2)"
      using h(1) by (simp add: proto_recv_packet_def Let_def sz)
    moreover have "payload_matches ?hdr None" using True by (simp add: payload_matches_def)
    ultimately show thesis using that(2) [OF _ _ h(2)] h(3) m [OF h(2)] by simp
  next
    case False
    have mal: "os_malloc o2 = (True, o2)" using m [OF h(2)] by (simp add: os_malloc_def)
    consider (waits) "fd_op False (read_op fd) 0 ?sz ([], o2) = None" "\<not> read_ends fd o2" "length (inbox o2 fd) < ?sz"
      | (returns) st k o3 where "fd_op False (read_op fd) 0 ?sz ([], o2) = Some (st, (take k (inbox o2 fd), o3))"
        "took fd k o2 o3" "k \<le> length (inbox o2 fd)" "st = 1 \<and> k = ?sz \<or> st = -1 \<and> k < ?sz"
      using fd_op_read_any [of fd 0 ?sz "[]" o2] by auto
    then show thesis
    proof cases
      case waits
      then have "proto_recv_packet fd o1 = None"
        using h(1) False mal by (simp add: proto_recv_packet_def Let_def sz)
      moreover have "waits_for_input fd o1"
        using waits(2,3) took_ends [OF h(2)] took_inbox [OF h(2)] h(3)
        by (simp add: waits_for_input_def packet_ready_def)
      ultimately show thesis by (rule that(3))
    next
      case returns
      have t: "took fd (HEADER_SIZE + k) o1 o3" by (rule took_trans [OF h(2) returns(2)])
      have eq: "proto_recv_packet fd o1 = Some ((if st = -1 then -1 else 0, ?hdr, Some (take k (inbox o2 fd))), o3)"
        using h(1) False mal returns(1) by (simp add: proto_recv_packet_def Let_def sz)
      show thesis
      proof (cases "st = -1")
        case True
        then show thesis using eq that(1) [OF _ t m [OF t]] by simp
      next
        case f: False
        then have k: "k = ?sz" using returns(4) by auto
        then have "payload_matches ?hdr (Some (take k (inbox o2 fd)))"
          using returns(3) by (simp add: payload_matches_def)
        moreover have "HEADER_SIZE + k \<le> length (inbox o1 fd)" using returns(3) h(3) took_inbox [OF h(2)] by simp
        ultimately show thesis using eq f that(2) [OF _ _ t] m [OF t] by simp
      qed
    qed
  qed
qed

lemma recv_result:
  assumes "mem o1 = []"
  obtains o2 jph payloadp n where "proto_recv_packet fd o1 = Some ((-1, jph, payloadp), o2)" "took fd n o1 o2" "mem o2 = []"
  | o2 jph payloadp n where "proto_recv_packet fd o1 = Some ((0, jph, payloadp), o2)" "payload_matches jph payloadp"
      "took fd n o1 o2" "HEADER_SIZE \<le> n" "n \<le> length (inbox o1 fd)" "mem o2 = []"
  | "proto_recv_packet fd o1 = None" "waits_for_input fd o1"
proof -
  consider (waits) "fd_op False (read_op fd) 0 HEADER_SIZE ([], o1) = None" "\<not> read_ends fd o1"
      "length (inbox o1 fd) < HEADER_SIZE"
    | (returns) st k o2 where "fd_op False (read_op fd) 0 HEADER_SIZE ([], o1) = Some (st, (take k (inbox o1 fd), o2))"
      "took fd k o1 o2" "k \<le> length (inbox o1 fd)" "st = 1 \<and> k = HEADER_SIZE \<or> st = -1 \<and> k < HEADER_SIZE"
    using fd_op_read_any [of fd 0 HEADER_SIZE "[]" o1] by auto
  then show thesis
  proof cases
    case waits
    then show thesis using that(3) by (simp add: proto_recv_packet_def waits_for_input_def packet_ready_def)
  next
    case h: returns
    show thesis
    proof (cases "st = -1")
      case True
      then show thesis using h(1) that(1) [OF _ h(2)] took_frame(1) [OF h(2)] assms by (simp add: proto_recv_packet_def)
    next
      case False
      then have st: "st = 1" "k = HEADER_SIZE" using h(4) by auto
      from recv_payload [OF h(1) [unfolded st] h(2) [unfolded st] h(3) [unfolded st] assms] that
      show thesis by metis
    qed
  qed
qed

text \<open>Receiving changes only the operating system.\<close>

lemma recv_sane:
  assumes "sane k M {#} w" and "mem o1 = []"
  shows "sane k M {#} (w\<lparr>os := o1\<rparr>)"
proof -
  note s = saneD [OF assms(1)]
  let ?w = "w\<lparr>os := o1\<rparr>"
  have st: "stored ?w y = stored w y" for y by (cases y) simp_all
  have "counts_ok {#} ?w" using world_okD(1) [OF s(1)] unfolding counts_ok_def by (simp add: st)
  moreover have "shape_ok ?w" by (rule shape_ok_os [OF world_ok_shape [OF s(1)] assms(2)])
  ultimately have "world_ok k {#} ?w" using s(1) by (simp add: world_ok_def)
  moreover have "counted k M ?w" using s(2) by (simp add: counted_def refs_def)
  moreover have "preg_ok ?w" using s(3) by (subst preg_ok_cong [of ?w w]) simp_all
  moreover have "registered ?w c = registered w c" for c by (rule registered_cong) simp
  moreover have "logged_as ?w c n = logged_as w c n" for c n by (simp add: logged_as_def)
  moreover have "player_of ?w c = player_of w c" for c by (simp add: player_of_def)
  ultimately show ?thesis using s(4-7,11) by (simp add: sane_def names_unique_def parties_in_def)
qed

subsection \<open>One request\<close>

lemma nack_failed_safe:
  assumes S: "sane j M {#} w" and R: "registered w c" and "safely k {#} w r" and "k \<le> j"
  shows "\<exists>w'. Option.bind r (nack_failed c) = Some w' \<and> world_ok k {#} w' \<and> evo w w'"
proof -
  obtain st w1 where 1: "r = Some (st, w1)" "world_ok k {#} w1" "evo w w1" using assms(3) unfolding safely_def by blast
  have "safely k {#} w1 (client_send_nack (Some c) w1)" by (rule ack_safely(3) [OF S R 1(3,2)])
  then obtain s2 w2 where 2: "client_send_nack (Some c) w1 = Some (s2, w2)" "world_ok k {#} w2" "evo w1 w2"
    unfolding safely_def by blast
  show ?thesis using 1 2 evo_trans [OF 1(3) 2(3)] by (cases "st = -1") (simp_all add: nack_failed_def)
qed

lemma dispatch_safe:
  assumes S: "sane (k + 8) M {#} w" and R: "registered w c" and P: "player_of w c \<noteq> None"
    and "payload_matches jph payloadp" and "MAX_CLIENTS \<le> k"
  shows "\<exists>w'. dispatch c jph payloadp w = Some w' \<and> world_ok k {#} w' \<and> evo w w'"
proof -
  have s2: "sane (Suc (Suc k)) M {#} w" and s3: "sane (Suc (Suc (Suc k))) M {#} w"
    and s4: "sane (Suc (Suc (Suc (Suc k)))) M {#} w" and s6: "sane (k + 6) M {#} w"
    and s0: "sane k M {#} w" using sane_mono [OF S] by simp_all
  note nf = nack_failed_safe [OF s0 R safely_mono]
  note goals = user_handler_safe [OF s0 assms(5) R] nf [OF invite_handler_safely [OF s6 R P assms(4)]]
    nf [OF revoke_handler_safely [OF s2 R]] nf [OF decline_handler_safely [OF s2 R]]
    nf [OF accept_handler_safely [OF s4 R]] nf [OF move_handler_safely [OF s3 R assms(4)]]
    nf [OF resign_handler_safely [OF s2 R]]
  have "\<exists>w'. Some w = Some w' \<and> world_ok k {#} w' \<and> evo w w'" using saneD(1) [OF s0] by simp
  then show ?thesis unfolding dispatch_def using goals by (simp split del: if_split) (auto split: if_split)
qed

subsection \<open>The invariant of the server\<close>

text \<open>The players that the threads reference, and what a thread knows about its client.\<close>

definition thread_plays :: "service list \<Rightarrow> nat multiset" where
  "thread_plays ts = (\<Sum>t \<in># mset ts. holding (svc_player t))"

definition thread_ok :: "world \<Rightarrow> service \<Rightarrow> bool" where
  "thread_ok w t \<longleftrightarrow> (\<exists>v. clients w (svc_client t) = Some v \<and> c_fd v = svc_fd t \<and>
     (svc_player t \<noteq> None \<longrightarrow> c_player v = svc_player t))"

definition server_ok :: "nat \<Rightarrow> world \<times> service list \<Rightarrow> bool" where
  "server_ok k s \<longleftrightarrow> (case s of (w, ts) \<Rightarrow>
     sane k (thread_plays ts) {#} w \<and> creg_holds w = mset (map (\<lambda>t. Unref_Client (svc_client t)) ts) \<and>
     distinct (map svc_client ts) \<and> (\<forall>t \<in> set ts. thread_ok w t))"

lemma server_okD:
  assumes "server_ok k (w, ts)"
  shows "sane k (thread_plays ts) {#} w" and "creg_holds w = mset (map (\<lambda>t. Unref_Client (svc_client t)) ts)"
    and "distinct (map svc_client ts)" and "t \<in> set ts \<Longrightarrow> thread_ok w t"
    and "registered w c \<longleftrightarrow> c \<in> svc_client ` set ts"
  using assms by (auto simp: server_ok_def registered_anchored)

lemma server_ok_mono: "server_ok k s \<Longrightarrow> j \<le> k \<Longrightarrow> server_ok j s"
  using sane_mono unfolding server_ok_def by (cases s) blast

lemma thread_plays_simps [simp]:
  "thread_plays [] = {#}" "thread_plays (xs @ t # ys) = holding (svc_player t) + thread_plays (xs @ ys)"
  by (simp_all add: thread_plays_def ac_simps)

lemma thread_ok_steady:
  assumes "thread_ok w t" and "steady w w'" and "registered w' (svc_client t)" and "world_ok k L w'"
  shows "thread_ok w' t"
proof -
  obtain v' where v': "clients w' (svc_client t) = Some v'" by (rule registered_live [OF assms(4,3)])
  then obtain v where "clients w (svc_client t) = Some v" "c_fd v' = c_fd v" "c_player v \<noteq> None \<longrightarrow> c_player v' = c_player v"
    using assms(2) unfolding steady_def by blast
  with v' assms(1) show ?thesis by (auto simp: thread_ok_def)
qed

text \<open>A thread that goes on replaces its own entry.\<close>

lemma server_ok_step:
  assumes S: "server_ok j (w, xs @ t # ys)" and st: "steady w w'"
    and sane': "sane k (holding np + thread_plays (xs @ ys)) {#} w'"
    and pl: "\<forall>a. np = Some a \<longrightarrow> player_of w' (svc_client t) = Some a"
  shows "server_ok k (w', xs @ t\<lparr>svc_player := np\<rparr> # ys)"
proof -
  note s = server_okD [OF S]
  have cr: "creg w' = creg w" using st by (simp add: steady_def)
  have reg: "registered w' c = registered w c" for c by (rule registered_cong [OF cr])
  have W: "world_ok k {#} w'" by (rule saneD(1) [OF sane'])
  have "thread_ok w' u" if "u \<in> set (xs @ t # ys)" for u
    using thread_ok_steady [OF s(4) [OF that] st _ W] that s(5) reg by blast
  moreover obtain v where "clients w' (svc_client t) = Some v" "c_fd v = svc_fd t"
    using calculation [of t] by (auto simp: thread_ok_def)
  then have "thread_ok w' (t\<lparr>svc_player := np\<rparr>)" using pl by (auto simp: thread_ok_def player_of_def)
  ultimately show ?thesis
    using sane' s(2,3) creg_holds_cong [OF cr] by (auto simp: server_ok_def)
qed

lemma server_ok_finish:
  assumes S: "server_ok j (w, xs @ t # ys)" and "undisturbed (svc_client t) w w'"
    and sane': "sane k (thread_plays (xs @ ys)) {#} w'"
    and hold: "creg_holds w = add_mset (Unref_Client (svc_client t)) (creg_holds w')"
  shows "server_ok k (w', xs @ ys)"
proof -
  note s = server_okD [OF S]
  have ch: "creg_holds w' = mset (map (\<lambda>t. Unref_Client (svc_client t)) (xs @ ys))" using hold s(2) by simp
  have "thread_ok w' u" if u: "u \<in> set (xs @ ys)" for u
  proof -
    have "svc_client t \<notin> svc_client ` set (xs @ ys)" using s(3) by auto
    then have ne: "svc_client u \<noteq> svc_client t" using u by (metis imageI)
    have "Unref_Client (svc_client u) \<in># creg_holds w'" using ch u by auto
    then have "registered w' (svc_client u)" by (simp add: registered_anchored)
    then obtain v' where v': "clients w' (svc_client u) = Some v'" by (rule registered_live [OF saneD(1) [OF sane']])
    then obtain v where v: "clients w (svc_client u) = Some v" "c_fd v' = c_fd v" "c_player v \<noteq> None \<longrightarrow> c_player v' = c_player v"
      using assms(2) ne unfolding undisturbed_def by blast
    then show ?thesis using v' s(4) [of u] u by (auto simp: thread_ok_def)
  qed
  then show ?thesis using sane' s(3) ch by (auto simp: server_ok_def)
qed

subsection \<open>One iteration of a thread\<close>

text \<open>The measure of the remaining input of the threads.\<close>

definition pending_input :: "world \<Rightarrow> service list \<Rightarrow> nat" where
  "pending_input w ts = (\<Sum>t \<leftarrow> ts. Suc (length (inbox (os w) (svc_fd t))))"

lemma pending_input_took:
  assumes "took fd n (os w) o2"
  shows "(\<Sum>t \<leftarrow> ts. Suc (length (inbox o2 (svc_fd t)))) \<le> pending_input w ts"
  unfolding pending_input_def using assms by (intro sum_list_mono) (simp add: took_def)

lemma pending_input_cong: "inbox (os w') = inbox (os w) \<Longrightarrow> pending_input w' ts = pending_input w ts"
  by (simp add: pending_input_def)

abbreviation next_of :: "service option \<Rightarrow> service list" where
  "next_of r \<equiv> (case r of None \<Rightarrow> [] | Some t \<Rightarrow> [t])"

lemma iteration_safe:
  assumes S: "server_ok (k + 8) (w, xs @ t # ys)" and k: "MAX_CLIENTS \<le> k"
  shows "(\<exists>r w'. service_iteration t w = Some (r, w') \<and> server_ok k (w', xs @ next_of r @ ys) \<and>
      pending_input w' (xs @ next_of r @ ys) < pending_input w (xs @ t # ys) \<and>
      shut_fds (os w') = shut_fds (os w) \<and> (\<forall>t'. r = Some t' \<longrightarrow> svc_fd t' = svc_fd t)) \<or>
    service_iteration t w = None \<and> waits_for_input (svc_fd t) (os w)"
proof -
  note s = server_okD [OF S]
  let ?c = "svc_client t" and ?M = "thread_plays (xs @ ys)" and ?ts = "xs @ t # ys"
  have S0: "sane (k + 8) (holding (svc_player t) + ?M) {#} w" using s(1) by simp
  have tok: "thread_ok w t" by (rule s(4)) simp
  have reg: "registered w ?c" using s(5) by simp
  have one: "count (creg_holds w) (Unref_Client ?c) = 1"
    unfolding s(2) using s(3) by (auto simp: count_eq_zero_iff)
  have step: "server_ok (k + 8) (w\<lparr>os := o2\<rparr>, ?ts)" "sane (k + 8) (holding (svc_player t) + ?M) {#} (w\<lparr>os := o2\<rparr>)"
      "registered (w\<lparr>os := o2\<rparr>) ?c" "thread_ok (w\<lparr>os := o2\<rparr>) t" "creg_holds (w\<lparr>os := o2\<rparr>) = creg_holds w"
    if "mem o2 = []" for o2
  proof -
    show "sane (k + 8) (holding (svc_player t) + ?M) {#} (w\<lparr>os := o2\<rparr>)" by (rule recv_sane [OF S0 that])
    then have "sane (k + 8) (thread_plays ?ts) {#} (w\<lparr>os := o2\<rparr>)" by simp
    moreover show "registered (w\<lparr>os := o2\<rparr>) ?c" using reg registered_cong [of "w\<lparr>os := o2\<rparr>" w] by simp
    moreover show ch: "creg_holds (w\<lparr>os := o2\<rparr>) = creg_holds w" by (rule creg_holds_cong) simp
    moreover show "thread_ok (w\<lparr>os := o2\<rparr>) t" using tok by (simp add: thread_ok_def)
    moreover have "\<forall>u \<in> set ?ts. thread_ok (w\<lparr>os := o2\<rparr>) u" using s(4) by (auto simp: thread_ok_def)
    ultimately show "server_ok (k + 8) (w\<lparr>os := o2\<rparr>, ?ts)" using s(2,3) unfolding server_ok_def by simp
  qed
  have pl: "svc_player t = None \<or> player_of (w\<lparr>os := o2\<rparr>) ?c = svc_player t" for o2
    using tok by (auto simp: thread_ok_def player_of_def)
  show ?thesis
  proof (cases rule: recv_result [OF saneD(9) [OF S0], where fd = "svc_fd t", case_names closed packet waits])
    case (closed o2 jph payloadp n)
    let ?w = "w\<lparr>os := o2\<rparr>"
    have e8: "k + 8 = Suc (Suc (k + 6))" by simp
    have S1: "sane (Suc (Suc (k + 6))) (holding (svc_player t) + ?M) {#} ?w"
      by (rule step(2) [OF closed(3), unfolded e8])
    obtain w' where w': "service_end t ?w = Some w'" "sane (Suc (Suc (k + 6))) ?M {#} w'" "undisturbed ?c ?w w'"
        "creg_holds ?w = add_mset (Unref_Client ?c) (creg_holds w')"
      using service_end_safe [OF S1 step(3) [OF closed(3)] _ pl] step(5) [OF closed(3)] one by auto
    have "sane k ?M {#} w'" using sane_mono [OF w'(2), of k ?M] by simp
    then have "server_ok k (w', xs @ ys)" by (rule server_ok_finish [OF step(1) [OF closed(3)] w'(3) _ w'(4)])
    moreover have "service_iteration t w = Some (None, w')" using closed(1) w'(1) by (simp add: service_iteration_def)
    moreover have "pending_input w' (xs @ ys) < pending_input w ?ts"
    proof -
      have "pending_input w' (xs @ ys) = pending_input ?w (xs @ ys)"
        using w'(3) by (intro pending_input_cong) (simp add: undisturbed_def)
      also have "\<dots> \<le> pending_input w (xs @ ys)"
        using pending_input_took [OF closed(2), of "xs @ ys"] by (simp add: pending_input_def)
      finally show ?thesis by (simp add: pending_input_def)
    qed
    moreover have "shut_fds (os w') = shut_fds (os w)"
      using w'(3) took_frame(2) [OF closed(2)] by (simp add: undisturbed_def)
    ultimately show ?thesis by (intro disjI1 exI [of _ None] exI [of _ w']) simp
  next
    case (packet o2 jph payloadp n)
    let ?w = "w\<lparr>os := o2\<rparr>"
    have S1: "sane (k + 8) (holding (svc_player t) + ?M) {#} ?w" and R: "registered ?w ?c"
      using step(2,3) [OF packet(6)] by simp_all
    have less: "pending_input w' (xs @ t' # ys) < pending_input w ?ts"
      if "inbox (os w') = inbox (os ?w)" "svc_fd t' = svc_fd t" for w' t'
    proof -
      have "pending_input w' (xs @ t' # ys) = pending_input ?w ?ts" using that by (simp add: pending_input_def)
      moreover have "pending_input ?w xs \<le> pending_input w xs" "pending_input ?w ys \<le> pending_input w ys"
        using pending_input_took [OF packet(3)] by (simp_all add: pending_input_def)
      moreover have "length (inbox (os ?w) (svc_fd t)) < length (inbox (os w) (svc_fd t))"
        using packet(3-5) by (simp add: took_def HEADER_SIZE_def)
      ultimately show ?thesis by (simp add: pending_input_def)
    qed
    have finish: ?thesis
      if "service_iteration t w = Some (Some (t\<lparr>svc_player := np\<rparr>), w')" "steady ?w w'"
        "sane k (holding np + ?M) {#} w'" "\<forall>a. np = Some a \<longrightarrow> player_of w' ?c = Some a" for np w'
    proof -
      have "server_ok k (w', xs @ t\<lparr>svc_player := np\<rparr> # ys)"
        by (rule server_ok_step [OF step(1) [OF packet(6)] that(2-4)])
      moreover have "pending_input w' (xs @ t\<lparr>svc_player := np\<rparr> # ys) < pending_input w ?ts"
        using that(2) by (intro less) (simp_all add: steady_def)
      moreover have "shut_fds (os w') = shut_fds (os w)"
        using that(2) took_frame(2) [OF packet(3)] by (simp add: steady_def)
      ultimately show ?thesis
        using that(1) by (intro disjI1 exI [of _ "Some (t\<lparr>svc_player := np\<rparr>)"] exI [of _ w']) simp
    qed
    have same: "t\<lparr>svc_player := svc_player t\<rparr> = t" by simp
    have nack: ?thesis if "service_iteration t w = (do { (_, w) \<leftarrow> client_send_nack (Some ?c) ?w; Some (Some t, w) })"
    proof -
      obtain st w' where w': "client_send_nack (Some ?c) ?w = Some (st, w')" "sane (k + 8) (holding (svc_player t) + ?M) {#} w'"
          "steady ?w w'" "player_of w' ?c = player_of ?w ?c"
        using answer_sane(1) [OF S1 R] by blast
      have "sane k (holding (svc_player t) + ?M) {#} w'" using sane_mono [OF w'(2)] by simp
      then show ?thesis using finish [of "svc_player t" w'] that w'(1,3,4) pl [of o2] same by auto
    qed
    show ?thesis
    proof (cases "pkt_type jph = pkt_code JEUX_LOGIN_PKT")
      case login: True
      show ?thesis
      proof (cases "svc_player t")
        case None
        have e8: "k + 8 = k + 5 + 3" by simp
        have "sane (k + 8) ?M {#} ?w" using S1 None by simp
        then have "sane (k + 5 + 3) ?M {#} ?w" by (simp only: e8)
        then obtain np w' where w': "login_handler ?c payloadp jph ?w = Some (np, w')" "sane (k + 5) (holding np + ?M) {#} w'"
            "steady ?w w'" "\<forall>a. np = Some a \<longrightarrow> player_of w' ?c = Some a"
          using login_handler_safe [OF _ R packet(2)] by blast
        have "sane k (holding np + ?M) {#} w'" using sane_mono [OF w'(2), of k] by simp
        moreover have "service_iteration t w = Some (Some (t\<lparr>svc_player := np\<rparr>), w')"
          using packet(1) login None w'(1) by (simp add: service_iteration_def)
        ultimately show ?thesis using finish w'(3,4) by blast
      next
        case (Some a)
        then show ?thesis using packet(1) login by (intro nack) (simp add: service_iteration_def)
      qed
    next
      case other: False
      show ?thesis
      proof (cases "svc_player t")
        case None
        then show ?thesis using packet(1) other by (intro nack) (simp add: service_iteration_def)
      next
        case (Some a)
        have P: "player_of ?w ?c \<noteq> None" using pl [of o2] Some by auto
        obtain w' where w': "dispatch ?c jph payloadp ?w = Some w'" "world_ok k {#} w'" "evo ?w w'"
          using dispatch_safe [OF S1 R P packet(2) k] by blast
        have sane': "sane k (holding (svc_player t) + ?M) {#} w'" by (rule sane_evo [OF S1 w'(3,2)]) simp
        obtain v' where v': "clients w' ?c = Some v'" by (rule session_client [OF S1 R w'(3,2)])
        obtain v where "clients ?w ?c = Some v" "client_keeps v v'" by (rule evo_client [OF w'(3) v'])
        then have "player_of w' ?c = player_of ?w ?c" using v' by (simp add: player_of_def client_keeps_def)
        then have "\<forall>b. svc_player t = Some b \<longrightarrow> player_of w' ?c = Some b" using pl [of o2] by auto
        moreover have "service_iteration t w = Some (Some t, w')"
          using packet(1) other Some w'(1) by (simp add: service_iteration_def)
        ultimately show ?thesis using finish [of "svc_player t" w'] evo_steady [OF w'(3)] sane' same by simp
      qed
    qed
  next
    case waits
    then show ?thesis by (simp add: service_iteration_def)
  qed
qed

subsection \<open>The steps of the server\<close>

lemma step_ok:
  assumes "serial_step s s'" and "server_ok (k + 8) s" and "MAX_CLIENTS \<le> k"
  shows "server_ok k s'"
  using assms
proof (cases rule: serial_step.cases)
  case (connect fd w t w' ts)
  have S: "server_ok (k + 8) (w, ts)" using assms(2) connect by simp
  note s = server_okD [OF S]
  have "sane (Suc k) (thread_plays ts) {#} w" using sane_mono [OF s(1)] by simp
  from service_start_safe [OF this, of fd] connect(3) have
    t: "t = \<lparr>svc_fd = fd, svc_client = next_addr w, svc_player = None\<rparr>" "sane k (thread_plays ts) {#} w'"
      "creg_holds w' = add_mset (Unref_Client (next_addr w)) (creg_holds w)" "\<not> registered w (next_addr w)"
      "clients w' = (clients w)(next_addr w := Some (new_client fd))" by auto
  have fr: "next_addr w \<notin> svc_client ` set ts" using t(4) s(5) by simp
  have "thread_ok w' u" if "u \<in> set ts" for u
  proof -
    have "svc_client u \<noteq> next_addr w" using fr that by (metis imageI)
    then show ?thesis using s(4) [OF that] t(5) by (simp add: thread_ok_def)
  qed
  moreover have "thread_ok w' t" using t(1,5) by (simp add: thread_ok_def new_client_def)
  moreover have "thread_plays (ts @ [t]) = thread_plays ts" using t(1) thread_plays_simps(2) [of ts t "[]"] by simp
  ultimately show ?thesis using connect(2) t(2,3) s(2,3) fr t(1) by (auto simp: server_ok_def)
next
  case (refuse fd w w' ts)
  have S: "server_ok (k + 8) (w, ts)" using assms(2) refuse by simp
  have "sane (Suc k) (thread_plays ts) {#} w" using sane_mono [OF server_okD(1) [OF S]] by simp
  then have "w' = w" using service_start_safe [of k "thread_plays ts" w fd] refuse(3) by auto
  then show ?thesis using refuse server_ok_mono [OF assms(2), of k] by simp
next
  case (serve i ts w t w')
  let ?xs = "take i ts" and ?ys = "drop (Suc i) ts"
  have ts: "ts = ?xs @ ts ! i # ?ys" using serve(3) by (rule id_take_nth_drop)
  then have "server_ok (k + 8) (w, ?xs @ ts ! i # ?ys)" using assms(2) serve(1) by simp
  from iteration_safe [OF this assms(3)] serve(4) have "server_ok k (w', ?xs @ t # ?ys)" by auto
  moreover have "ts[i := t] = ?xs @ t # ?ys" using serve(3) by (rule upd_conv_take_nth_drop)
  ultimately show ?thesis using serve(2) by simp
next
  case (finish i ts w w')
  let ?xs = "take i ts" and ?ys = "drop (Suc i) ts"
  have ts: "ts = ?xs @ ts ! i # ?ys" using finish(3) by (rule id_take_nth_drop)
  then have "server_ok (k + 8) (w, ?xs @ ts ! i # ?ys)" using assms(2) finish(1) by simp
  from iteration_safe [OF this assms(3)] finish(4) have "server_ok k (w', ?xs @ ?ys)" by auto
  then show ?thesis using finish(2) by simp
qed

text \<open>The states after \<open>n\<close> steps.\<close>

inductive serial_run :: "nat \<Rightarrow> world \<times> service list \<Rightarrow> world \<times> service list \<Rightarrow> bool" where
  run_here: "serial_run 0 s s"
| run_step: "serial_run n s s1 \<Longrightarrow> serial_step s1 s2 \<Longrightarrow> serial_run (Suc n) s s2"

lemma run_ok:
  assumes "serial_run n s s'" and "server_ok k s" and "8 * n + MAX_CLIENTS \<le> k"
  shows "server_ok (k - 8 * n) s'"
  using assms
proof (induction rule: serial_run.induct)
  case (run_step n s s1 s2)
  obtain j where j: "k = 8 * Suc n + MAX_CLIENTS + j" using run_step.prems(2) by (metis le_Suc_ex)
  have "server_ok (k - 8 * n) s1" using run_step.IH [OF run_step.prems(1)] j by simp
  moreover have "k - 8 * n = (MAX_CLIENTS + j) + 8" "k - 8 * Suc n = MAX_CLIENTS + j" using j by simp_all
  ultimately show ?case using step_ok [OF run_step.hyps(2), of "MAX_CLIENTS + j"] by simp
qed simp

text \<open>The state in which \<open>main\<close> starts to accept connections.\<close>

definition start_world :: "os_state \<Rightarrow> world" where
  "start_world o0 = \<lparr>games = (\<lambda>_. None), players = (\<lambda>_. None), clients = (\<lambda>_. None), invs = (\<lambda>_. None),
     next_addr = 0, player_counter = 0,
     creg = \<lparr>creg_arr = replicate MAX_CLIENTS None, creg_len = 0, creg_cap = MAX_CLIENTS, count_sem = 1\<rparr>,
     preg = \<lparr>preg_arr = replicate MAX_CLIENTS None, preg_len = 0, preg_cap = MAX_CLIENTS\<rparr>, os = o0\<rparr>"

lemma main_init_start: "mem o0 = [] \<Longrightarrow> main_init o0 = Some (start_world o0)"
  by (cases o0) (simp add: main_init_def creg_init_def preg_init_def start_world_def)

lemma start_frame [simp]:
  "games (start_world o0) a = None" "players (start_world o0) a = None" "clients (start_world o0) a = None"
  "invs (start_world o0) a = None" "os (start_world o0) = o0"
  by (simp_all add: start_world_def)

lemma start_creg: "creg_slots (start_world o0) = replicate MAX_CLIENTS None" "creg_holds (start_world o0) = {#}"
  by (simp_all add: creg_holds_def creg_slots_def start_world_def filter_empty_conv)

lemma start_ok:
  assumes "mem o0 = []" and "k < 2 ^ 64"
  shows "server_ok k (start_world o0, [])"
proof -
  let ?w = "start_world o0"
  have dom0: "dom (clients ?w) = {}" "dom (invs ?w) = {}" by auto
  have pp: "preg_plays ?w = {#}" by (simp add: preg_plays_def start_world_def filter_empty_conv)
  have hl: "held ?w = {#}" using dom0 by (simp add: held_def start_creg)
  have po: "player_of ?w c = None" for c by (simp add: player_of_def)
  have "stored ?w y = None" for y by (cases y) simp_all
  then have "counts_ok {#} ?w" using dom0 by (simp add: counts_ok_def hl)
  moreover have "shape_ok ?w" using assms(1) by (simp add: shape_ok_def fresh_from_def players_ok_def po)
  ultimately have "world_ok k {#} ?w" using assms(2) by (simp add: world_ok_def hl)
  moreover have "counted k {#} ?w"
    using assms(2) dom0 by (simp add: counted_def plays_def map_sum_def pp refs_def)
  moreover have "preg_ok ?w" by (auto simp: preg_ok_def in_preg_def start_world_def MAX_CLIENTS_def)
  moreover have "creg_ok (creg ?w)" "creg_cap (creg ?w) = MAX_CLIENTS"
    by (simp_all add: creg_ok_def start_world_def MAX_CLIENTS_def)
  moreover have "names_unique ?w" "parties_in ?w" by (simp_all add: names_unique_def parties_in_def logged_as_def)
  ultimately show ?thesis by (simp add: server_ok_def sane_def start_creg)
qed

lemma run_from_start:
  assumes "main_init o0 = Some w0" and "mem o0 = []" and "serial_run n (w0, []) s" and "8 * n + MAX_CLIENTS + 8 < 2 ^ 64"
  shows "server_ok (2 ^ 64 - 1 - 8 * n) s"
proof -
  have "w0 = start_world o0" using assms(1) main_init_start [OF assms(2)] by simp
  then have "server_ok (2 ^ 64 - 1) (w0, [])" using start_ok [OF assms(2)] by simp
  then show ?thesis by (rule run_ok [OF assms(3)]) (use assms(4) in simp)
qed

end
