(* ===== verification/Server_Properties.thy ===== *)
theory Server_Properties
  imports Server_Safety
begin

text \<open>
  The properties of the running server, from its start to its end, when requests are handled one at a
  time: what every reachable state satisfies, that every request is finished, and that the threads end
  once their sockets are shut down.
  A run is bounded only because reference counts have 64 bits: the theorems hold for the first
  \<open>2 ^ 61 - 10\<close> steps.
\<close>

subsection \<open>Consequences of the invariant\<close>

lemma thread_count:
  assumes "server_ok k (w, ts)"
  shows "creg_len (creg w) = length ts" and "length ts \<le> MAX_CLIENTS"
    and "count_sem (creg w) = (if ts = [] then 1 else 0)"
proof -
  note s = server_okD [OF assms] and d = saneD [OF server_okD(1) [OF assms]]
  have "size (creg_holds w) = occupied (creg_arr (creg w))"
    unfolding creg_holds_def creg_slots_ok [OF d(4)] occupied_def by (simp only: size_mset length_map)
  then have "occupied (creg_arr (creg w)) = length ts" unfolding s(2) by simp
  then show len: "creg_len (creg w) = length ts" using d(4) by (simp add: creg_ok_def)
  show "length ts \<le> MAX_CLIENTS"
    using \<open>occupied (creg_arr (creg w)) = length ts\<close> occupied_le [of "creg_arr (creg w)"] d(4,11)
    by (simp add: creg_ok_def)
  show "count_sem (creg w) = (if ts = [] then 1 else 0)" using d(4) len by (simp add: creg_ok_def)
qed

lemma no_dangling:
  assumes "server_ok k (w, ts)"
  shows "registered w c \<Longrightarrow> clients w c \<noteq> None"
    and "clients w c = Some v \<Longrightarrow> Some i \<in> set (invs_lst v) \<Longrightarrow> invs w i \<noteq> None"
    and "invs w i = Some u \<Longrightarrow> clients w (inv_src u) \<noteq> None \<and> clients w (inv_target u) \<noteq> None"
    and "invs w i = Some u \<Longrightarrow> inv_game u = Some g \<Longrightarrow> games w g \<noteq> None"
    and "clients w c = Some v \<Longrightarrow> c_player v = Some a \<Longrightarrow> players w a \<noteq> None"
    and "in_preg w a \<Longrightarrow> players w a \<noteq> None"
    and "t \<in> set ts \<Longrightarrow> svc_player t = Some a \<Longrightarrow> players w a \<noteq> None"
proof -
  note s = server_okD [OF assms] and d = saneD [OF server_okD(1) [OF assms]]
  note c = world_okD(1) [OF d(1)]
  show "clients w c \<noteq> None" if "registered w c"
    by (rule registered_live [OF d(1) that]) simp
  show "invs w i \<noteq> None" if "clients w c = Some v" "Some i \<in> set (invs_lst v)"
    by (rule slot_live [OF d(1) that]) simp
  show "clients w (inv_src u) \<noteq> None \<and> clients w (inv_target u) \<noteq> None" if "invs w i = Some u"
    by (rule parties_live [OF c that]) simp
  show "games w g \<noteq> None" if "invs w i = Some u" "inv_game u = Some g"
    by (rule inv_game_live [OF c that]) simp
  have pl: "players w a \<noteq> None" if "player_of w c = Some a" for c using d(10) that unfolding players_ok_def by blast
  show "players w a \<noteq> None" if "clients w c = Some v" "c_player v = Some a"
    using pl [of c] that by (simp add: player_of_def)
  show "players w a \<noteq> None" if "in_preg w a"
    using preg_okD(2) [OF d(3) that] by (auto simp: named_def)
  show "players w a \<noteq> None" if "t \<in> set ts" "svc_player t = Some a"
    using s(4) [OF that(1)] that(2) pl [of "svc_client t"] by (auto simp: thread_ok_def player_of_def)
qed

lemma iterations_total:
  assumes "server_ok (k + 8) (w, ts)" and "MAX_CLIENTS \<le> k" and "i < length ts"
  shows "(\<exists>r w'. service_iteration (ts ! i) w = Some (r, w')) \<or> waits_for_input (svc_fd (ts ! i)) (os w)"
proof -
  have "ts = take i ts @ ts ! i # drop (Suc i) ts" using assms(3) by (rule id_take_nth_drop)
  then have "server_ok (k + 8) (w, take i ts @ ts ! i # drop (Suc i) ts)" using assms(1) by simp
  from iteration_safe [OF this assms(2)] show ?thesis by blast
qed

text \<open>A new connection gets a client while fewer than 64 threads run, and is refused otherwise.\<close>

lemma start_result:
  assumes "server_ok (k + 8) (w, ts)"
  shows "length ts < MAX_CLIENTS \<Longrightarrow> \<exists>c w'. service_start fd w = Some (Some \<lparr>svc_fd = fd, svc_client = c, svc_player = None\<rparr>, w')"
    and "length ts = MAX_CLIENTS \<Longrightarrow> service_start fd w = Some (None, w)"
proof -
  note d = saneD [OF server_okD(1) [OF assms]]
  have "creg_len (creg w) = occupied (creg_arr (creg w))" "length (creg_arr (creg w)) = MAX_CLIENTS"
    using d(4,11) by (simp_all add: creg_ok_def)
  then have full: "None \<notin> set (creg_arr (creg w)) \<longleftrightarrow> length ts = MAX_CLIENTS"
    using thread_count(1) [OF assms] occupied_full_iff [of "creg_arr (creg w)"] by simp
  show "\<exists>c w'. service_start fd w = Some (Some \<lparr>svc_fd = fd, svc_client = c, svc_player = None\<rparr>, w')"
    if less: "length ts < MAX_CLIENTS"
  proof -
    obtain j where "find_idx (\<lambda>x. x = None) (creg_arr (creg w)) = Some j"
      using find_idx_member [of None "creg_arr (creg w)"] full less by auto
    from register_entered [OF d(4) this d(9)] show ?thesis by (simp add: service_start_def)
  qed
  show "service_start fd w = Some (None, w)" if "length ts = MAX_CLIENTS"
    using register_full [OF d(4)] full that by (simp add: service_start_def)
qed

text \<open>The state of \<open>server_ok\<close> after a run of \<open>n\<close> steps, with room for another step.\<close>

lemma run_room:
  assumes "main_init o0 = Some w0" and "mem o0 = []" and "serial_run n (w0, []) s" and "8 * n + 80 < 2 ^ 64"
  obtains k where "server_ok (k + 8) s" and "MAX_CLIENTS \<le> k" and "k + 8 = 2 ^ 64 - 1 - 8 * n"
proof -
  have "server_ok (2 ^ 64 - 1 - 8 * n) s"
    by (rule run_from_start [OF assms(1-3)]) (use assms(4) in \<open>simp add: MAX_CLIENTS_def\<close>)
  moreover have "2 ^ 64 - 1 - 8 * n = (2 ^ 64 - 9 - 8 * n) + 8" "MAX_CLIENTS \<le> 2 ^ 64 - 9 - 8 * n"
    using assms(4) by (simp_all add: MAX_CLIENTS_def)
  ultimately show thesis using that [of "2 ^ 64 - 9 - 8 * n"] by metis
qed

subsection \<open>Sample runs for the witnesses\<close>

lemma idle_mem [simp]: "mem idle_os = []"
  by (simp add: idle_os_def)

lemma first_slot: "0 < n \<Longrightarrow> find_idx (\<lambda>x. x = None) (replicate n None) = Some 0"
  by (cases n) simp_all

lemma sample_start:
  assumes "mem o0 = []"
  shows "service_start 5 (start_world o0) = Some (Some \<lparr>svc_fd = 5, svc_client = 0, svc_player = None\<rparr>, entered 5 0 (start_world o0))"
proof -
  have "creg_ok (creg (start_world o0))" by (simp add: start_world_def creg_ok_def MAX_CLIENTS_def)
  moreover have "find_idx (\<lambda>x. x = None) (creg_arr (creg (start_world o0))) = Some 0"
    by (simp add: start_world_def first_slot MAX_CLIENTS_def)
  ultimately have "creg_register 5 (start_world o0) =
      Some (Some (next_addr (start_world o0)), entered 5 0 (start_world o0))"
    by (rule register_entered) (simp add: assms)
  then show ?thesis by (simp add: service_start_def start_world_def)
qed

lemma sample_run:
  assumes "mem o0 = []"
  shows "serial_run 1 (start_world o0, []) (entered 5 0 (start_world o0), [\<lparr>svc_fd = 5, svc_client = 0, svc_player = None\<rparr>])"
proof -
  have "serial_step (start_world o0, []) (entered 5 0 (start_world o0), [] @ [\<lparr>svc_fd = 5, svc_client = 0, svc_player = None\<rparr>])"
    by (rule serial_step.connect [OF sample_start [OF assms]])
  then show ?thesis using serial_run.run_step [OF serial_run.run_here] by simp
qed

subsection \<open>Draining the server\<close>

text \<open>All sockets of the threads are shut down, so that no thread waits for input. A step of a thread
then uses up input or ends the thread.\<close>

definition all_shut :: "world \<times> service list \<Rightarrow> bool" where
  "all_shut s \<longleftrightarrow> (case s of (w, ts) \<Rightarrow> \<forall>t \<in> set ts. svc_fd t \<in> set (shut_fds (os w)))"

lemma shut_iteration:
  assumes "server_ok (k + 8) (w, xs @ t # ys)" and "MAX_CLIENTS \<le> k" and "all_shut (w, xs @ t # ys)"
  shows "\<exists>r w1. service_iteration t w = Some (r, w1) \<and> server_ok k (w1, xs @ next_of r @ ys) \<and>
    pending_input w1 (xs @ next_of r @ ys) < pending_input w (xs @ t # ys) \<and> all_shut (w1, xs @ next_of r @ ys)"
proof -
  have "\<not> waits_for_input (svc_fd t) (os w)"
    using assms(3) by (simp add: all_shut_def waits_for_input_def read_ends_def)
  then obtain r w1 where r: "service_iteration t w = Some (r, w1)" "server_ok k (w1, xs @ next_of r @ ys)"
      "pending_input w1 (xs @ next_of r @ ys) < pending_input w (xs @ t # ys)"
      "shut_fds (os w1) = shut_fds (os w)" "\<forall>t'. r = Some t' \<longrightarrow> svc_fd t' = svc_fd t"
    using iteration_safe [OF assms(1,2)] by blast
  moreover have "all_shut (w1, xs @ next_of r @ ys)"
    using assms(3) r(4,5) by (auto simp: all_shut_def split: option.splits)
  ultimately show ?thesis by blast
qed

text \<open>The runs in which only the threads make steps.\<close>

inductive thread_step :: "world \<times> service list \<Rightarrow> world \<times> service list \<Rightarrow> bool" where
  work: "service_iteration t w = Some (r, w') \<Longrightarrow> thread_step (w, xs @ t # ys) (w', xs @ next_of r @ ys)"

inductive_cases thread_stepE: "thread_step s s'"

inductive thread_run :: "nat \<Rightarrow> world \<times> service list \<Rightarrow> world \<times> service list \<Rightarrow> bool" where
  work_none: "thread_run 0 s s"
| work_more: "thread_run n s s1 \<Longrightarrow> thread_step s1 s2 \<Longrightarrow> thread_run (Suc n) s s2"

lemma work_step:
  assumes "service_iteration t w = Some (r, w')"
  shows "serial_step (w, xs @ t # ys) (w', xs @ (case r of None \<Rightarrow> [] | Some t \<Rightarrow> [t]) @ ys)"
proof (cases r)
  case None
  then show ?thesis using serial_step.finish [of "length xs" "xs @ t # ys" w w'] assms by simp
next
  case (Some u)
  then show ?thesis using serial_step.serve [of "length xs" "xs @ t # ys" w u w'] assms by simp
qed

lemma thread_step_serial: "thread_step s s' \<Longrightarrow> serial_step s s'"
  by (elim thread_stepE) (simp add: work_step)

text \<open>Every such run is at most as long as there is input.\<close>

definition draining :: "nat \<Rightarrow> nat \<Rightarrow> world \<times> service list \<Rightarrow> bool" where
  "draining m j s \<longleftrightarrow> server_ok (8 * (m - j) + MAX_CLIENTS + 8) s \<and> pending_input (fst s) (snd s) + j \<le> m \<and> all_shut s"

lemma draining_step:
  assumes "thread_step s s'" and "draining m j s"
  shows "draining m (Suc j) s'"
  using assms(1)
proof (rule thread_stepE)
  fix t w r w1 xs ys
  assume e: "s = (w, xs @ t # ys)" "s' = (w1, xs @ next_of r @ ys)" "service_iteration t w = Some (r, w1)"
  have "server_ok ((8 * (m - j) + MAX_CLIENTS) + 8) (w, xs @ t # ys)"
    using assms(2) unfolding draining_def e(1) by blast
  moreover have "all_shut (w, xs @ t # ys)" "pending_input w (xs @ t # ys) + j \<le> m"
    using assms(2) by (simp_all add: draining_def e(1))
  ultimately have 1: "server_ok (8 * (m - j) + MAX_CLIENTS) s'" "pending_input (fst s') (snd s') + Suc j \<le> m" "all_shut s'"
    using shut_iteration [of "8 * (m - j) + MAX_CLIENTS" w xs t ys] e by auto
  have "8 * (m - Suc j) + MAX_CLIENTS + 8 = 8 * (m - j) + MAX_CLIENTS" using 1(2) by simp
  then show ?thesis using 1 unfolding draining_def by presburger
qed

lemma draining_run: "thread_run i s s' \<Longrightarrow> draining m j s \<Longrightarrow> draining m (j + i) s'"
proof (induction rule: thread_run.induct)
  case (work_more n s s1 s2)
  then show ?case using draining_step [OF work_more.hyps(2)] by simp
qed simp

text \<open>The first thread is served until it ends, then the next. \<open>P\<close> is what holds of the state after \<open>n\<close>
steps, in any system in which the threads can make their iterations.\<close>

lemma drains:
  assumes "server_ok (8 * m + MAX_CLIENTS) (w, ts)" and "pending_input w ts \<le> m" and "all_shut (w, ts)" and "P n (w, ts)"
    and step: "\<And>n w t ts r w1. P n (w, t # ts) \<Longrightarrow> service_iteration t w = Some (r, w1) \<Longrightarrow> P (Suc n) (w1, next_of r @ ts)"
  shows "\<exists>j w'. j \<le> m \<and> P (n + j) (w', []) \<and> server_ok MAX_CLIENTS (w', [])"
  using assms(1-4)
proof (induction m arbitrary: w ts n)
  case 0
  then have "ts = []" by (cases ts) (simp_all add: pending_input_def)
  then show ?case using 0 by auto
next
  case (Suc m)
  show ?case
  proof (cases ts)
    case Nil
    then show ?thesis using Suc.prems server_ok_mono by (intro exI [of _ 0] exI [of _ w]) fastforce
  next
    case (Cons t us)
    have S: "server_ok ((8 * m + MAX_CLIENTS) + 8) (w, [] @ t # us)" using Suc.prems(1) Cons by (simp add: add_ac)
    have "MAX_CLIENTS \<le> 8 * m + MAX_CLIENTS" "all_shut (w, [] @ t # us)" using Suc.prems(3) Cons by simp_all
    from shut_iteration [OF S this] obtain r w1 where r: "service_iteration t w = Some (r, w1)"
      "server_ok (8 * m + MAX_CLIENTS) (w1, next_of r @ us)" "pending_input w1 (next_of r @ us) < pending_input w (t # us)"
      "all_shut (w1, next_of r @ us)"
      by auto
    have "P (Suc n) (w1, next_of r @ us)" using step [of n w t us] Suc.prems(4) Cons r(1) by simp
    then obtain j w' where "j \<le> m" "P (Suc n + j) (w', [])" "server_ok MAX_CLIENTS (w', [])"
      using Suc.IH [OF r(2) _ r(4)] r(3) Suc.prems(2) Cons by fastforce
    then show ?thesis by (intro exI [of _ "Suc j"] exI [of _ w']) simp
  qed
qed

subsection \<open>Shutting down the connections\<close>

lemma server_ok_mem: "server_ok k (w, ts) \<Longrightarrow> mem (os w) = []"
  using saneD(9) [OF server_okD(1)] .

lemma server_ok_os: "server_ok k (w, ts) \<Longrightarrow> mem o1 = [] \<Longrightarrow> server_ok k (w\<lparr>os := o1\<rparr>, ts)"
  using recv_sane [of k "thread_plays ts" w o1] creg_holds_cong [of "w\<lparr>os := o1\<rparr>" w]
  by (auto simp: server_ok_def thread_ok_def)

definition slot_fds :: "nat option list \<Rightarrow> world \<Rightarrow> int list" where
  "slot_fds xs w = map (\<lambda>x. c_fd (the (clients w (the x)))) (filter (\<lambda>x. x \<noteq> None) xs)"

lemma shutdown_slots_result:
  assumes "\<forall>c. Some c \<in> set xs \<longrightarrow> clients w c \<noteq> None"
  shows "shutdown_slots xs w = Some (w\<lparr>os := (os w)\<lparr>shut_fds := shut_fds (os w) @ slot_fds xs w\<rparr>\<rparr>)"
  using assms
proof (induction xs arbitrary: w)
  case (Cons x xs)
  show ?case
  proof (cases x)
    case None
    then show ?thesis using Cons by (simp add: slot_fds_def)
  next
    case (Some c)
    then obtain v where v: "clients w c = Some v" using Cons.prems by auto
    have "slot_fds xs (os_shutdown (c_fd v) w) = slot_fds xs w" by (simp add: slot_fds_def os_shutdown_def)
    then show ?thesis using Cons.IH [of "os_shutdown (c_fd v) w"] Cons.prems Some v
      by (simp add: client_get_fd_def slot_fds_def os_shutdown_def)
  qed
qed (simp add: slot_fds_def)

lemma shutdown_all_result:
  assumes "server_ok k (w, ts)"
  shows "creg_shutdown_all w = Some (w\<lparr>os := (os w)\<lparr>shut_fds := shut_fds (os w) @ slot_fds (creg_arr (creg w)) w\<rparr>\<rparr>)"
    and "mset (slot_fds (creg_arr (creg w)) w) = mset (map svc_fd ts)"
proof -
  note s = server_okD [OF assms] and d = saneD [OF server_okD(1) [OF assms]]
  let ?xs = "creg_arr (creg w)"
  have xs: "creg_slots w = ?xs" by (rule creg_slots_ok [OF d(4)])
  have holds: "mset (map (\<lambda>x. Unref_Client (the x)) (filter (\<lambda>x. x \<noteq> None) ?xs)) = mset (map (\<lambda>t. Unref_Client (svc_client t)) ts)"
    using s(2) by (simp add: creg_holds_def xs)
  have "clients w c \<noteq> None" if "Some c \<in> set ?xs" for c
    using no_dangling(1) [OF assms] that by (simp add: registered_def xs)
  then show "creg_shutdown_all w = Some (w\<lparr>os := (os w)\<lparr>shut_fds := shut_fds (os w) @ slot_fds ?xs w\<rparr>\<rparr>)"
    using shutdown_slots_result [of ?xs w] by (simp add: creg_shutdown_all_def xs)
  define f where "f y = (case y of Unref_Client c \<Rightarrow> c_fd (the (clients w c)) | _ \<Rightarrow> 0)" for y
  have "mset (slot_fds ?xs w) = image_mset f (mset (map (\<lambda>x. Unref_Client (the x)) (filter (\<lambda>x. x \<noteq> None) ?xs)))"
    by (simp add: slot_fds_def f_def image_mset.compositionality o_def)
  also have "\<dots> = mset (map (\<lambda>t. c_fd (the (clients w (svc_client t)))) ts)"
    unfolding holds by (simp add: f_def image_mset.compositionality o_def)
  also have "map (\<lambda>t. c_fd (the (clients w (svc_client t)))) ts = map svc_fd ts"
  proof (rule map_cong [OF refl])
    fix t
    assume "t \<in> set ts"
    from s(4) [OF this] show "c_fd (the (clients w (svc_client t))) = svc_fd t" by (auto simp: thread_ok_def)
  qed
  finally show "mset (slot_fds ?xs w) = mset (map svc_fd ts)" .
qed

lemma shutdown_drains:
  assumes "server_ok (8 * m + MAX_CLIENTS + 8) (w, ts)" and "pending_input w ts \<le> m"
  obtains w1 where "creg_shutdown_all w = Some w1" and "draining m 0 (w1, ts)"
proof -
  note r = shutdown_all_result [OF assms(1)]
  let ?o = "(os w)\<lparr>shut_fds := shut_fds (os w) @ slot_fds (creg_arr (creg w)) w\<rparr>"
  have "set (slot_fds (creg_arr (creg w)) w) = svc_fd ` set ts"
    using arg_cong [OF r(2), of set_mset] by simp
  moreover have "server_ok (8 * m + MAX_CLIENTS + 8) (w\<lparr>os := ?o\<rparr>, ts)"
    by (rule server_ok_os [OF assms(1)]) (use server_ok_mem [OF assms(1)] in simp)
  ultimately have "draining m 0 (w\<lparr>os := ?o\<rparr>, ts)"
    using assms(2) by (simp add: draining_def all_shut_def pending_input_def)
  then show thesis using that r(1) by blast
qed

text \<open>The end of \<open>terminate\<close>: the registry is empty, and every player loses the registry's reference.\<close>

lemma unref_players_total:
  assumes "\<forall>a. count (mset (map (\<lambda>x. the x) (filter (\<lambda>x. x \<noteq> None) xs))) a \<le> refs w a"
  shows "\<exists>w'. unref_players xs w = Some w'"
  using assms
proof (induction xs arbitrary: w)
  case (Cons x xs)
  show ?case
  proof (cases x)
    case None
    then show ?thesis using Cons by simp
  next
    case (Some a)
    have "0 < refs w a" using Cons.prems [rule_format, of a] Some by simp
    then obtain p where p: "players w a = Some p" "p_ref_count p \<noteq> 0"
      by (auto simp: refs_def unat_gt_0 split: option.splits)
    let ?w = "w\<lparr>players := (players w)(a := unreffed p)\<rparr>"
    have "refs ?w b = (if b = a then refs w a - 1 else refs w b)" for b
      using p unat_size_dec [of "p_ref_count p"] by (simp add: refs_def unreffed_def)
    then have "\<forall>b. count (mset (map (\<lambda>x. the x) (filter (\<lambda>x. x \<noteq> None) xs))) b \<le> refs ?w b"
      using Cons.prems Some by (auto split: if_splits) (metis Suc_le_mono Suc_pred \<open>0 < refs w a\<close>)+
    from Cons.IH [OF this] show ?thesis using Some player_unref_eq [OF p(1)] by simp
  qed
qed simp

lemma wait_result:
  assumes "server_ok k (w, ts)"
  shows "creg_wait_for_empty w = (if ts = [] then Some w else None)"
  using thread_count(3) [OF assms] by (simp add: creg_wait_for_empty_def sem_wait_def sem_post_def)

lemma preg_fini_total:
  assumes "server_ok k (w, ts)"
  shows "\<exists>w'. preg_fini w = Some w'"
proof -
  note d = saneD [OF server_okD(1) [OF assms]]
  have "count (preg_plays w) a \<le> refs w a" for a
    using d(2) unfolding counted_def plays_def by (metis add_leD2 count_union le_add1 order_trans)
  then have "\<exists>w'. unref_players (preg_arr (preg w)) w = Some w'"
    by (intro unref_players_total) (simp add: preg_plays_def)
  then show ?thesis using preg_okD(1) [OF d(3)] by (auto simp: preg_fini_def)
qed

text \<open>A server with one client that has just connected.\<close>

definition joined :: "os_state \<Rightarrow> world" where
  "joined o0 = entered 5 0 (start_world o0)"

lemma joined_sane:
  assumes "mem o0 = []" and "k + 1 < 2 ^ 64"
  shows "sane k {#} {#} (joined o0)" and "registered (joined o0) 0" and "clients (joined o0) 0 = Some (new_client 5)"
    and "os (joined o0) = o0" and "player_of (joined o0) 0 = None" and "\<not> logged_as (joined o0) x nm"
proof -
  have "server_ok (Suc k) (start_world o0, [])" by (rule start_ok [OF assms(1)]) (use assms(2) in simp)
  then have S: "sane (Suc k) {#} {#} (start_world o0)" using server_okD(1) [of "Suc k" "start_world o0" "[]"] by simp
  have j: "find_idx (\<lambda>x. x = None) (creg_arr (creg (start_world o0))) = Some 0"
    by (simp add: start_world_def first_slot MAX_CLIENTS_def)
  show "sane k {#} {#} (joined o0)" unfolding joined_def by (rule entered_sane(1) [OF S j])
  show "registered (joined o0) 0"
    unfolding registered_anchored joined_def entered_sane(2) [OF S j] by (simp add: start_world_def)
  have cl: "clients (joined o0) x = (if x = 0 then Some (new_client 5) else None)" for x
    unfolding joined_def entered_def by (simp add: start_world_def)
  show "clients (joined o0) 0 = Some (new_client 5)" unfolding cl by simp
  show "os (joined o0) = o0" unfolding joined_def entered_def by simp
  show "player_of (joined o0) 0 = None" unfolding player_of_def cl by (simp add: new_client_def)
  show "\<not> logged_as (joined o0) x nm" unfolding logged_as_def cl by (simp add: new_client_def)
qed

text \<open>The same with a header waiting to be read.\<close>

definition asking :: "packet_header \<Rightarrow> os_state" where
  "asking h = idle_os\<lparr>inbox := (\<lambda>_. [])(5 := header_bytes h)\<rparr>"

lemma asking_recv:
  assumes "pkt_size h = 0"
  shows "proto_recv_packet 5 (asking h) = Some ((0, h, None), (asking h)\<lparr>inbox := (\<lambda>_. [])\<rparr>)"
proof -
  have ne: "header_bytes h \<noteq> []" by (metis length_header_bytes HEADER_SIZE_def list.size(3) zero_neq_numeral)
  have "fd_op False (read_op 5) 0 HEADER_SIZE ([], asking h) =
      fd_op False (read_op 5) HEADER_SIZE 0 (header_bytes h, (asking h)\<lparr>inbox := (\<lambda>_. [])\<rparr>)"
    by (subst fd_op.simps)
       (simp add: read_op_def os_read_def asking_def idle_os_def HEADER_SIZE_def fun_upd_idem Let_def ne)
  then have "fd_op False (read_op 5) 0 HEADER_SIZE ([], asking h) = Some (1, (header_bytes h, (asking h)\<lparr>inbox := (\<lambda>_. [])\<rparr>))"
    by (simp add: fd_op.simps)
  then show ?thesis using assms by (simp add: proto_recv_packet_def ntohs_def)
qed

text \<open>Without any input the thread waits.\<close>

lemma joined_waits: "service_iteration \<lparr>svc_fd = 5, svc_client = 0, svc_player = None\<rparr> (joined idle_os) = None"
proof -
  have "fd_op False (read_op 5) 0 HEADER_SIZE ([], idle_os) = None"
    by (subst fd_op.simps) (simp add: read_op_def os_read_def read_ends_def idle_os_def HEADER_SIZE_def)
  then show ?thesis
    using joined_sane(4) [OF idle_mem, of 0] by (simp add: service_iteration_def proto_recv_packet_def)
qed

subsection \<open>The gate of a session\<close>

lemma nack_sent:
  assumes "clients w c = Some v"
  shows "\<exists>st o1. client_send_nack (Some c) w = Some (st, w\<lparr>os := o1\<rparr>) \<and>
    sent (c_fd v) JEUX_NACK_PKT 0 NULL_ROLE 0 None st (os w) o1"
  unfolding send_nack_pkt by (rule send_pkt_sent [OF assms]) simp

lemma nack_only:
  assumes "clients w (svc_client t) = Some v"
  shows "\<exists>st o3. do { (_, w) \<leftarrow> client_send_nack (Some (svc_client t)) (w\<lparr>os := o2\<rparr>); Some (Some t, w) } =
      Some (Some t, w\<lparr>os := o3\<rparr>) \<and> sent (c_fd v) JEUX_NACK_PKT 0 NULL_ROLE 0 None st o2 o3"
proof -
  have "clients (w\<lparr>os := o2\<rparr>) (svc_client t) = Some v" using assms by simp
  from nack_sent [OF this] obtain st o1 where
    "client_send_nack (Some (svc_client t)) (w\<lparr>os := o2\<rparr>) = Some (st, w\<lparr>os := o1\<rparr>)"
    "sent (c_fd v) JEUX_NACK_PKT 0 NULL_ROLE 0 None st o2 o1" by auto
  then show ?thesis by (intro exI [of _ st] exI [of _ o1]) simp
qed

definition request_codes :: "8 word set" where
  "request_codes = {pkt_code JEUX_USERS_PKT, pkt_code JEUX_INVITE_PKT, pkt_code JEUX_REVOKE_PKT, pkt_code JEUX_DECLINE_PKT,
     pkt_code JEUX_ACCEPT_PKT, pkt_code JEUX_MOVE_PKT, pkt_code JEUX_RESIGN_PKT}"

lemma unknown_ignored: "pkt_type jph \<notin> request_codes \<Longrightarrow> dispatch c jph payloadp w = Some w"
  by (simp add: request_codes_def dispatch_def)

subsection \<open>A login whose answer is lost\<close>

lemma broken_send:
  assumes "net (os w) = Broken # r" and "clients w c = Some v"
  shows "\<exists>o1. send_pkt (Some c) t ident role sz datap w = Some (-1, w\<lparr>os := o1\<rparr>)"
proof -
  obtain jph where jph: "pack_header t (word_of_int ident) (word_of_int (role_code role)) (of_nat sz) (os w) =
      (jph, (os w)\<lparr>ticks := Suc (ticks (os w))\<rparr>)"
    by (cases "clock (os w) (ticks (os w))") (simp add: pack_header_def clock_gettime_def Let_def)
  let ?o = "(os w)\<lparr>ticks := Suc (ticks (os w))\<rparr>"
  have "fd_op True (write_op (c_fd v) (header_bytes jph)) 0 HEADER_SIZE ?o = Some (-1, ?o\<lparr>net := r\<rparr>)"
    using assms(1) by (subst fd_op.simps) (simp add: write_op_def os_write_def HEADER_SIZE_def)
  then have "proto_send_packet (c_fd v) jph datap ?o = Some (-1, ?o\<lparr>net := r\<rparr>)"
    by (simp add: proto_send_packet_def)
  then have "send_pkt (Some c) t ident role sz datap w = Some (-1, w\<lparr>os := ?o\<lparr>net := r\<rparr>\<rparr>)"
    using jph assms(2) by (simp add: send_pkt_def w_pack_header_def client_send_packet_def client_get_fd_def)
  then show ?thesis by blast
qed

lemma login_ack_lost_result:
  assumes S: "sane (k + 3) M {#} w" and R: "registered w c" and "player_of w c = None"
    and "payload_string (Some d) (unat (pkt_size (unpack_header jph))) = Some nm"
    and "\<forall>x. registered w x \<longrightarrow> \<not> logged_as w x nm" and "net (os w) = Broken # r"
  shows "\<exists>a w'. login_handler c (Some d) jph w = Some (None, w') \<and> player_of w' c = Some a \<and> logged_as w' c nm"
proof -
  have "sane (Suc (Suc (Suc k))) M {#} w" using S by (simp add: eval_nat_numeral)
  then obtain a w1 where 1: "preg_register nm w = Some (Some a, w1)" "sane (Suc k) (add_mset a M) {#} w1" "steady w w1"
      "named w1 a nm" "clients w1 = clients w" "os w1 = os w" "\<And>x n. logged_as w1 x n = logged_as w x n"
    using register_sane by blast
  obtain v where v: "clients w c = Some v" by (rule registered_live [OF saneD(1) [OF S] R])
  have none: "c_player v = None" using assms(3) v by (simp add: player_of_def)
  have v1: "clients w1 c = Some v" using v 1(5) by simp
  obtain p where p: "players w1 a = Some p" "p_name p = Some nm" using 1(4) by (auto simp: named_def)
  have free: "\<not> logged_as w1 x nm" if "registered w1 x" for x
    using assms(5) that steady_registered [OF 1(3)] 1(7) by blast
  have R1: "registered w1 c" using R steady_registered [OF 1(3)] by simp
  obtain w2 where 2: "client_login (Some c) (Some a) w1 = Some (0, w2)" "w2 = login_state c a w1"
  proof (rule lookup_cases [of w1 nm])
    show "client_live w1 d" if "registered w1 d" for d by (rule sane_live [OF 1(2) that])
    show thesis if "creg_lookup nm w1 = Some (None, w1)"
      using client_login_free [OF v1 none p that] by (rule \<open>\<And>w2. _ \<Longrightarrow> _ \<Longrightarrow> thesis\<close>) simp
  qed (use free in blast)
  have pl: "player_of w2 c = Some a" and sn: "sane k (add_mset a M) {#} w2"
    using login_sane [OF 1(2) R1 v1 none p] free unfolding 2(2) by blast+
  have os2: "os w2 = os w" using 1(6) by (simp add: 2(2) login_state_def)
  obtain v2 where v2: "clients w2 c = Some v2" using pl by (auto simp: player_of_def bind_eq_Some_conv)
  have "net (os w2) = Broken # r" using assms(6) os2 by simp
  then obtain o3 where 3: "client_send_ack (Some c) None 0 w2 = Some (-1, w2\<lparr>os := o3\<rparr>)"
    using broken_send [OF _ v2] unfolding send_ack_pkt by blast
  have "login_handler c (Some d) jph w = Some (None, w2\<lparr>os := o3\<rparr>)"
    using assms(4) saneD(9) [OF S] 1(1) 2(1) 3 by (simp add: login_handler_def Let_def)
  moreover have "player_of (w2\<lparr>os := o3\<rparr>) c = Some a" using pl by (simp add: player_of_def)
  moreover have "logged_as (w2\<lparr>os := o3\<rparr>) c nm"
    using login_state_logged_as [OF v1 p, of c nm] by (simp add: 2(2) logged_as_def)
  ultimately show ?thesis by blast
qed

subsection \<open>Properties of the server\<close>

text \<open>C1: the invariant of the server when the requests are handled one at a time, that is, when no other
thread makes a step inside a request. In every state that such a run reaches, with memory available,
the reference counts of clients, invitations and games are exactly the references that the structures
hold, and the count of a player is at least the number of references to it in the clients, the player
registry and the threads; the registered clients are the clients of the running threads, each of one
thread only; at most 64 threads run; the semaphore of the registry is free exactly while no thread runs;
the clients that are logged in have different names; and the player registry is well formed. Two
requests that interleave can break these facts.\<close>

theorem server_invariant:
  assumes "main_init o0 = Some w0" and "mem o0 = []" and "serial_run n (w0, []) (w, ts)" and "8 * n + 80 < 2 ^ 64"
  shows "counts_ok {#} w \<and> (\<forall>a. count (plays w + thread_plays ts) a \<le> refs w a) \<and>
    (\<forall>c. registered w c \<longleftrightarrow> c \<in> svc_client ` set ts) \<and> distinct (map svc_client ts) \<and>
    (\<forall>t \<in> set ts. \<exists>v. clients w (svc_client t) = Some v \<and> c_fd v = svc_fd t) \<and>
    length ts \<le> 64 \<and> creg_len (creg w) = length ts \<and> count_sem (creg w) = (if ts = [] then 1 else 0) \<and>
    names_unique w \<and> preg_ok w"
proof -
  obtain k where k: "server_ok (k + 8) (w, ts)" by (rule run_room [OF assms])
  note s = server_okD [OF k] and d = saneD [OF server_okD(1) [OF k]] and c = thread_count [OF k]
  have "\<exists>v. clients w (svc_client t) = Some v \<and> c_fd v = svc_fd t" if "t \<in> set ts" for t
    using s(4) [OF that] unfolding thread_ok_def by blast
  moreover have "length ts \<le> 64" using c(2) by (simp add: MAX_CLIENTS_def)
  moreover have "\<forall>a. count (plays w + thread_plays ts) a \<le> refs w a" using d(2) unfolding counted_def by blast
  ultimately show ?thesis using s(3,5) d(3,5) world_okD(1) [OF d(1)] c(1,3) by blast
qed

theorem server_invariant_witness:
  "\<exists>w t. serial_run 1 (start_world idle_os, []) (w, [t]) \<and> creg_len (creg w) = 1 \<and> registered w (svc_client t)"
proof -
  let ?w = "entered 5 0 (start_world idle_os)" and ?t = "\<lparr>svc_fd = 5, svc_client = 0, svc_player = None\<rparr>"
  have "creg_len (creg ?w) = length [?t]" "registered ?w 0 \<longleftrightarrow> 0 \<in> svc_client ` set [?t]"
    using server_invariant [OF main_init_start [OF idle_mem] idle_mem sample_run [OF idle_mem]] by simp_all
  then show ?thesis using sample_run [OF idle_mem] by (intro exI [of _ ?w] exI [of _ ?t]) simp
qed

text \<open>C2: every request is finished when the requests are handled one at a time. In every state that such
a run reaches, with memory available, the next iteration of every thread returns, whatever bytes the
client has sent: no statement that it executes is undefined (a pointer that is \<open>NULL\<close> or to a freed
structure, an access outside an array, a count that overflows). The only exception is a thread that
waits for its client: the client has sent no complete packet, the connection is open, and the socket
was not shut down. A new connection gets a client while fewer than 64
threads run, and is refused otherwise. The theorem does not speak about
interleavings inside a request, nor about the mutexes that a request takes and releases.\<close>

theorem server_progress:
  assumes "main_init o0 = Some w0" and "mem o0 = []" and "serial_run n (w0, []) (w, ts)" and "8 * n + 80 < 2 ^ 64"
  shows "(\<forall>t \<in> set ts. (\<exists>r w'. service_iteration t w = Some (r, w')) \<or> waits_for_input (svc_fd t) (os w)) \<and>
    (\<forall>fd. (length ts < MAX_CLIENTS \<longrightarrow>
         (\<exists>c w'. service_start fd w = Some (Some \<lparr>svc_fd = fd, svc_client = c, svc_player = None\<rparr>, w'))) \<and>
       (length ts = MAX_CLIENTS \<longrightarrow> service_start fd w = Some (None, w)))"
proof -
  obtain k where k: "server_ok (k + 8) (w, ts)" "MAX_CLIENTS \<le> k" by (rule run_room [OF assms])
  have "\<forall>t \<in> set ts. (\<exists>r w'. service_iteration t w = Some (r, w')) \<or> waits_for_input (svc_fd t) (os w)"
    using iterations_total [OF k] by (metis in_set_conv_nth)
  then show ?thesis using start_result [OF k(1)] by blast
qed

theorem server_progress_witness:
  "\<exists>r w'. service_iteration \<lparr>svc_fd = 5, svc_client = 0, svc_player = None\<rparr> (joined (asking zero_header)) = Some (r, w')"
proof -
  have m: "mem (asking zero_header) = []" by (simp add: asking_def idle_os_def)
  have "take HEADER_SIZE (header_bytes zero_header) = header_bytes zero_header" by simp
  then have "packet_ready (inbox (asking zero_header) 5)"
    by (simp add: packet_ready_def asking_def payload_size_def ntohs_def zero_header_def)
  then have "\<not> waits_for_input 5 (os (joined (asking zero_header)))"
    using joined_sane(4) [OF m, of 0] by (simp add: waits_for_input_def)
  then show ?thesis
    using server_progress [OF main_init_start [OF m] m sample_run [OF m, folded joined_def]] by simp
qed

text \<open>C3: the heap is well typed: in every state that the server reaches when the requests are handled one
at a time, every pointer that is not
\<open>NULL\<close> refers to a live structure of its type. This covers the slots of the client registry and of the
player registry, the tables of the clients, the parties and the game of an invitation, and the players
of clients and threads.\<close>

theorem server_heap_typed:
  assumes "main_init o0 = Some w0" and "mem o0 = []" and "serial_run n (w0, []) (w, ts)" and "8 * n + 80 < 2 ^ 64"
  shows "(\<forall>c. registered w c \<longrightarrow> clients w c \<noteq> None) \<and> (\<forall>a. in_preg w a \<longrightarrow> players w a \<noteq> None) \<and>
    (\<forall>c v. clients w c = Some v \<longrightarrow> (\<forall>i. Some i \<in> set (invs_lst v) \<longrightarrow> invs w i \<noteq> None) \<and>
       (\<forall>a. c_player v = Some a \<longrightarrow> players w a \<noteq> None)) \<and>
    (\<forall>i u. invs w i = Some u \<longrightarrow> clients w (inv_src u) \<noteq> None \<and> clients w (inv_target u) \<noteq> None \<and>
       (\<forall>g. inv_game u = Some g \<longrightarrow> games w g \<noteq> None)) \<and>
    (\<forall>t \<in> set ts. clients w (svc_client t) \<noteq> None \<and> (\<forall>a. svc_player t = Some a \<longrightarrow> players w a \<noteq> None))"
proof -
  obtain k where k: "server_ok (k + 8) (w, ts)" by (rule run_room [OF assms])
  have "clients w (svc_client t) \<noteq> None" if "t \<in> set ts" for t
    using no_dangling(1) [OF k] server_okD(5) [OF k] that by blast
  then show ?thesis using no_dangling [OF k] by meson
qed

theorem server_heap_typed_witness:
  "clients (entered 5 0 (start_world idle_os)) 0 \<noteq> None"
  using server_heap_typed [OF main_init_start [OF idle_mem] idle_mem sample_run [OF idle_mem]] by simp



text \<open>C23: the gate of a session. A client that is not logged in gets a \<open>NACK\<close> for every packet that is not
a \<open>LOGIN\<close>, and one that is logged in gets a \<open>NACK\<close> for a further \<open>LOGIN\<close>; a packet of an unknown type
is ignored. In all three cases the shared state does not change and nothing else is sent.\<close>

theorem session_gate:
  assumes "proto_recv_packet (svc_fd t) (os w) = Some ((0, jph, payloadp), o2)"
    and "clients w (svc_client t) = Some v"
  shows "((svc_player t = None) = (pkt_type jph \<noteq> pkt_code JEUX_LOGIN_PKT) \<longrightarrow>
      (\<exists>st o3. service_iteration t w = Some (Some t, w\<lparr>os := o3\<rparr>) \<and>
        sent (c_fd v) JEUX_NACK_PKT 0 NULL_ROLE 0 None st o2 o3)) \<and>
    (svc_player t \<noteq> None \<and> pkt_type jph \<noteq> pkt_code JEUX_LOGIN_PKT \<and> pkt_type jph \<notin> request_codes \<longrightarrow>
      service_iteration t w = Some (Some t, w\<lparr>os := o2\<rparr>))"
proof (intro conjI impI)
  assume "(svc_player t = None) = (pkt_type jph \<noteq> pkt_code JEUX_LOGIN_PKT)"
  then have "service_iteration t w =
      do { (_, w) \<leftarrow> client_send_nack (Some (svc_client t)) (w\<lparr>os := o2\<rparr>); Some (Some t, w) }"
    using assms(1) by (cases "svc_player t = None") (simp_all add: service_iteration_def)
  then show "\<exists>st o3. service_iteration t w = Some (Some t, w\<lparr>os := o3\<rparr>) \<and>
      sent (c_fd v) JEUX_NACK_PKT 0 NULL_ROLE 0 None st o2 o3"
    using nack_only [OF assms(2), of o2] by simp
next
  assume a: "svc_player t \<noteq> None \<and> pkt_type jph \<noteq> pkt_code JEUX_LOGIN_PKT \<and> pkt_type jph \<notin> request_codes"
  then show "service_iteration t w = Some (Some t, w\<lparr>os := o2\<rparr>)"
    using assms(1) unknown_ignored [of jph] by (auto simp: service_iteration_def)
qed

theorem session_gate_witness:
  "\<exists>st o3. service_iteration \<lparr>svc_fd = 5, svc_client = 0, svc_player = None\<rparr> (joined (asking zero_header)) =
      Some (Some \<lparr>svc_fd = 5, svc_client = 0, svc_player = None\<rparr>, (joined (asking zero_header))\<lparr>os := o3\<rparr>) \<and>
    sent 5 JEUX_NACK_PKT 0 NULL_ROLE 0 None st ((asking zero_header)\<lparr>inbox := (\<lambda>_. [])\<rparr>) o3"
proof -
  have m: "mem (asking zero_header) = []" by (simp add: asking_def idle_os_def)
  note j = joined_sane [OF m, of 0]
  have "pkt_type zero_header \<noteq> pkt_code JEUX_LOGIN_PKT" "pkt_size zero_header = 0" by (simp_all add: zero_header_def)
  then show ?thesis
    using session_gate [of "\<lparr>svc_fd = 5, svc_client = 0, svc_player = None\<rparr>" "joined (asking zero_header)" zero_header None
        "(asking zero_header)\<lparr>inbox := (\<lambda>_. [])\<rparr>" "new_client 5"] asking_recv [of zero_header] j(3,4)
    by (simp add: new_client_def)
qed

text \<open>C24: a user list is the lines of the registered clients that are logged in, in the order of the
client registry: the name, a tab, the rating, a newline. It is sent in one \<open>ACK\<close>; the references to the
players that were taken for it are given back, so that nothing but the connection changes.\<close>

theorem user_list_correct:
  assumes "sane k M {#} w" and "MAX_CLIENTS \<le> k" and "registered w c"
  shows "\<exists>v st o1. clients w c = Some v \<and> user_handler c w = Some (w\<lparr>os := o1\<rparr>) \<and>
    sent (c_fd v) JEUX_ACK_PKT 0 NULL_ROLE (length (user_list w)) (Some (bytes_of (user_list w))) st (os w) o1"
proof -
  obtain v where v: "clients w c = Some v" by (rule registered_live [OF saneD(1) [OF assms(1)] assms(3)])
  have fits: "case Some (bytes_of (user_list w)) of None \<Rightarrow> True | Some b \<Rightarrow> length (user_list w) \<le> length b"
    by (simp add: bytes_of_def)
  obtain st o1 where "send_pkt (Some c) JEUX_ACK_PKT 0 NULL_ROLE (length (user_list w)) (Some (bytes_of (user_list w))) w =
      Some (st, w\<lparr>os := o1\<rparr>)"
      "sent (c_fd v) JEUX_ACK_PKT 0 NULL_ROLE (length (user_list w)) (Some (bytes_of (user_list w))) st (os w) o1"
    using send_pkt_sent [OF v fits] by blast
  then show ?thesis using v user_handler_result [OF assms(1,2), of c] by auto
qed

text \<open>C31: when the answer to a successful \<open>LOGIN\<close> cannot be sent, \<open>login_handler\<close> returns \<open>NULL\<close> as for a
failed login, although the client is logged in under the name from now on: its thread will refuse every
request and log nobody out.\<close>

theorem login_ack_lost:
  assumes "sane (k + 3) M {#} w" and "registered w c" and "player_of w c = None"
    and "payload_string (Some d) (unat (pkt_size (unpack_header jph))) = Some nm"
    and "\<forall>x. registered w x \<longrightarrow> \<not> logged_as w x nm" and "net (os w) = Broken # r"
  shows "\<exists>w'. login_handler c (Some d) jph w = Some (None, w') \<and> logged_as w' c nm"
  using login_ack_lost_result [OF assms] by blast

theorem login_ack_lost_witness:
  "\<exists>w'. login_handler 0 (Some [97]) (zero_header\<lparr>pkt_size := htons 1\<rparr>) (joined (idle_os\<lparr>net := [Broken]\<rparr>)) = Some (None, w') \<and>
    logged_as w' 0 ''a''"
proof (rule login_ack_lost [where k = 0 and M = "{#}" and nm = "''a''" and r = "[]"])
  have m: "mem (idle_os\<lparr>net := [Broken]\<rparr>) = []" by (simp add: idle_os_def)
  note j = joined_sane [OF m]
  show "sane (0 + 3) {#} {#} (joined (idle_os\<lparr>net := [Broken]\<rparr>))" using j(1) [of 3] by simp
  show "registered (joined (idle_os\<lparr>net := [Broken]\<rparr>)) 0" using j(2) [of 0] by simp
  show "player_of (joined (idle_os\<lparr>net := [Broken]\<rparr>)) 0 = None" using j(5) [of 0] by simp
  show "payload_string (Some [97]) (unat (pkt_size (unpack_header (zero_header\<lparr>pkt_size := htons 1\<rparr>)))) = Some ''a''"
    by (simp add: payload_string_def unpack_header_def cstr_def char_of_def bit_iff_odd)
  show "\<forall>x. registered (joined (idle_os\<lparr>net := [Broken]\<rparr>)) x \<longrightarrow> \<not> logged_as (joined (idle_os\<lparr>net := [Broken]\<rparr>)) x ''a''"
    using j(6) [of 0] by simp
  show "net (os (joined (idle_os\<lparr>net := [Broken]\<rparr>))) = Broken # []" using j(4) [of 0] by simp
qed

theorem user_list_correct_witness:
  "\<exists>st o1. user_handler 0 (joined idle_os) = Some ((joined idle_os)\<lparr>os := o1\<rparr>) \<and>
    sent 5 JEUX_ACK_PKT 0 NULL_ROLE 0 (Some []) st idle_os o1"
proof -
  note j = joined_sane [OF idle_mem, of 64]
  have "player_of (joined idle_os) c = None" for c
    by (simp add: player_of_def joined_def entered_def start_world_def new_client_def)
  then have "set (lobby xs (joined idle_os)) = {}" for xs
    unfolding set_eq_iff lobby_member by simp
  then have "lobby xs (joined idle_os) = []" for xs by simp
  then have "user_list (joined idle_os) = []" by (simp add: user_list_def)
  moreover have "c_fd (new_client 5) = 5" by (simp add: new_client_def)
  ultimately show ?thesis
    using user_list_correct [OF j(1) _ j(2)] j(3,4) by (auto simp: bytes_of_def MAX_CLIENTS_def)
qed

end
