(* ===== verification/Process_Safety.thy ===== *)
theory Process_Safety
  imports Server_Properties
begin

text \<open>
  The whole process, with the main thread, \<open>SIGHUP\<close>, and the shutdown: the invariant of the server
  holds until the player registry is freed; the main thread blocks only in \<open>accept\<close>, and in
  \<open>creg_wait_for_empty\<close> while clients are served. A shutdown is clean when every thread that was
  created has registered its client; otherwise the registry can be freed under a starting thread.
\<close>

subsection \<open>The invariant of the process\<close>

definition process_ok :: "nat \<Rightarrow> process \<Rightarrow> bool" where
  "process_ok k p \<longleftrightarrow> (\<not> exited p \<longrightarrow> server_ok k (shared p, running p)) \<and>
     (creg_live p \<longleftrightarrow> (case phase p of Preg_Fini _ \<Rightarrow> False | Exited _ \<Rightarrow> False | _ \<Rightarrow> True))"

lemma process_ok_mono: "process_ok k p \<Longrightarrow> j \<le> k \<Longrightarrow> process_ok j p"
  using server_ok_mono unfolding process_ok_def by blast

lemma process_okI:
  "server_ok k (shared p, running p) \<Longrightarrow> creg_live p \<Longrightarrow> (case phase p of Preg_Fini _ \<Rightarrow> False | Exited _ \<Rightarrow> False | _ \<Rightarrow> True) \<Longrightarrow>
    process_ok k p"
  by (simp add: process_ok_def)

lemma process_ok_live:
  assumes "process_ok k p" and "creg_live p"
  shows "server_ok k (shared p, running p)" and "\<not> exited p"
    and "case phase p of Preg_Fini _ \<Rightarrow> False | Exited _ \<Rightarrow> False | _ \<Rightarrow> True"
  using assms by (auto simp: process_ok_def exited_def split: main_phase.splits)

lemma server_ok_close: "server_ok k (w, ts) \<Longrightarrow> server_ok k (os_close fd w, ts)"
  unfolding os_close_def by (rule server_ok_os) (simp_all add: server_ok_mem)

lemma sighup_ok: "process_ok k p \<Longrightarrow> process_ok k (sighup_handler b p)"
  by (auto simp: process_ok_def sighup_handler_def Let_def exited_def server_ok_close)

lemma live_phase: "process_ok k p \<Longrightarrow> \<not> exited p \<Longrightarrow> server_ok k (shared p, running p)"
  by (simp add: process_ok_def)

lemma loop_top_ok:
  assumes "process_ok k p" and "phase p = Loop_Top"
  shows "process_ok k (loop_top p)"
    and "loop_top p = p\<lparr>phase := (if terminate_flag p then Shutdown_All EXIT_SUCCESS else Accepting)\<rparr>"
proof -
  have S: "server_ok k (shared p, running p)" and L: "creg_live p"
    using assms by (simp_all add: process_ok_def exited_def)
  have "mem (os (shared p)) = []" using saneD(9) [OF server_okD(1) [OF S]] .
  then have m: "w_malloc (shared p) = (True, shared p)" by (simp add: w_malloc_def os_malloc_def)
  then show eq: "loop_top p = p\<lparr>phase := (if terminate_flag p then Shutdown_All EXIT_SUCCESS else Accepting)\<rparr>"
    by (simp add: loop_top_def)
  show "process_ok k (loop_top p)" unfolding eq using S L by (simp add: process_ok_def)
qed

lemma accepted_ok:
  assumes "process_ok k p" and "phase p = Accepting"
  shows "process_ok k (accepted fd c p)"
  using assms by (auto simp: process_ok_def exited_def accepted_def Let_def server_ok_close)

text \<open>The calls of \<open>terminate\<close>.\<close>

lemma terminate_result:
  assumes "process_ok k p"
  shows "phase p = Shutdown_All st \<Longrightarrow> \<exists>o1. terminate_step p = Some (p\<lparr>shared := (shared p)\<lparr>os := o1\<rparr>, phase := Wait_For_Empty st\<rparr>) \<and>
      mem o1 = [] \<and> inbox o1 = inbox (os (shared p)) \<and> (\<exists>fds. shut_fds o1 = shut_fds (os (shared p)) @ fds \<and> mset fds = mset (map svc_fd (running p)))"
    and "phase p = Wait_For_Empty st \<Longrightarrow>
      terminate_step p = (if running p = [] then Some (p\<lparr>phase := Creg_Fini st\<rparr>) else None)"
    and "phase p = Creg_Fini st \<Longrightarrow> terminate_step p = Some (p\<lparr>creg_live := False, phase := Preg_Fini st\<rparr>)"
    and "phase p = Preg_Fini st \<Longrightarrow> \<exists>w. terminate_step p = Some (p\<lparr>shared := w, phase := Exited st\<rparr>)"
proof -
  have S: "server_ok k (shared p, running p)" if "\<not> exited p" using assms that by (simp add: process_ok_def)
  show "\<exists>o1. terminate_step p = Some (p\<lparr>shared := (shared p)\<lparr>os := o1\<rparr>, phase := Wait_For_Empty st\<rparr>) \<and>
      mem o1 = [] \<and> inbox o1 = inbox (os (shared p)) \<and> (\<exists>fds. shut_fds o1 = shut_fds (os (shared p)) @ fds \<and> mset fds = mset (map svc_fd (running p)))"
    if "phase p = Shutdown_All st"
  proof -
    have "server_ok k (shared p, running p)" using S that by (simp add: exited_def)
    note r = shutdown_all_result [OF this] server_ok_mem [OF this]
    show ?thesis
      by (intro exI [of _ "(os (shared p))\<lparr>shut_fds := shut_fds (os (shared p)) @ slot_fds (creg_arr (creg (shared p))) (shared p)\<rparr>"])
        (use r that in \<open>auto simp: terminate_step_def\<close>)
  qed
  show "terminate_step p = (if running p = [] then Some (p\<lparr>phase := Creg_Fini st\<rparr>) else None)"
    if "phase p = Wait_For_Empty st"
    using wait_result [OF S] that by (simp add: terminate_step_def exited_def)
  show "terminate_step p = Some (p\<lparr>creg_live := False, phase := Preg_Fini st\<rparr>)" if "phase p = Creg_Fini st"
    using that by (simp add: terminate_step_def creg_fini_def)
  show "\<exists>w. terminate_step p = Some (p\<lparr>shared := w, phase := Exited st\<rparr>)" if "phase p = Preg_Fini st"
    using preg_fini_total [OF S] that by (auto simp: terminate_step_def exited_def)
qed

lemma terminate_ok:
  assumes P: "process_ok k p" and "terminate_step p = Some q"
  shows "process_ok k q"
proof (cases "phase p")
  case (Shutdown_All st)
  then have S: "server_ok k (shared p, running p)" "creg_live p" using P by (simp_all add: process_ok_def exited_def)
  obtain o1 where "q = p\<lparr>shared := (shared p)\<lparr>os := o1\<rparr>, phase := Wait_For_Empty st\<rparr>" "mem o1 = []"
    using terminate_result(1) [OF P Shutdown_All] assms(2) by auto
  then show ?thesis using S server_ok_os [OF S(1)] by (simp add: process_ok_def)
next
  case (Wait_For_Empty st)
  then show ?thesis using terminate_result(2) [OF P] P assms(2) by (auto simp: process_ok_def exited_def split: if_splits)
next
  case (Creg_Fini st)
  then show ?thesis using terminate_result(3) [OF P] P assms(2) by (auto simp: process_ok_def exited_def)
next
  case (Preg_Fini st)
  then obtain w where "q = p\<lparr>shared := w, phase := Exited st\<rparr>" using terminate_result(4) [OF P] assms(2) by auto
  then show ?thesis using P Preg_Fini by (simp add: process_ok_def exited_def)
qed (use assms(2) in \<open>simp_all add: terminate_step_def\<close>)

text \<open>The steps of the service threads are steps of the server.\<close>

lemma start_step: "service_start fd w = Some (t, w') \<Longrightarrow>
    serial_step (w, ts) (w', ts @ (case t of None \<Rightarrow> [] | Some t \<Rightarrow> [t]))"
  by (auto intro: serial_step.intros split: option.splits)

lemma jeux_step_ok:
  assumes "jeux_step p q" and P: "process_ok (k + 8) p" and "MAX_CLIENTS \<le> k"
  shows "process_ok k q"
  using assms(1)
proof (cases rule: jeux_step.cases)
  case (signal in_main)
  then show ?thesis using process_ok_mono [OF sighup_ok [OF P], of k] by simp
next
  case resent
  have "process_ok (k + 8) (p\<lparr>hup_pending := False\<rparr>)" using P by (simp add: process_ok_def exited_def)
  then show ?thesis using process_ok_mono [OF sighup_ok, of "k + 8" _ k] resent(1) by simp
next
  case top
  then show ?thesis using process_ok_mono [OF loop_top_ok(1) [OF P], of k] by simp
next
  case (accept newfd created)
  then show ?thesis using process_ok_mono [OF accepted_ok [OF P], of k] by simp
next
  case finalize
  then show ?thesis using process_ok_mono [OF terminate_ok [OF P], of q k] by simp
next
  case (thread_start xs fd ys t w)
  note l = process_ok_live [OF P thread_start(2)]
  have "server_ok k (w, running p @ (case t of None \<Rightarrow> [] | Some t \<Rightarrow> [t]))"
    by (rule step_ok [OF start_step [OF thread_start(4)] l(1) assms(3)])
  with l(3) thread_start(2) show ?thesis unfolding thread_start(1) by (simp add: process_okI)
next
  case (thread_work xs t ys r w)
  note l = process_ok_live [OF P thread_work(2)]
  have "server_ok k (w, xs @ (case r of None \<Rightarrow> [] | Some t \<Rightarrow> [t]) @ ys)"
    by (rule step_ok [OF work_step [OF thread_work(4)] _ assms(3)]) (use l(1) thread_work(3) in simp)
  with l(3) thread_work(2) show ?thesis unfolding thread_work(1) by (simp add: process_okI)
qed

inductive jeux_run :: "nat \<Rightarrow> process \<Rightarrow> process \<Rightarrow> bool" where
  jeux_here: "jeux_run 0 p p"
| jeux_next: "jeux_run n p q \<Longrightarrow> jeux_step q r \<Longrightarrow> jeux_run (Suc n) p r"

lemma jeux_run_ok:
  assumes "jeux_run n p q" and "process_ok k p" and "8 * n + MAX_CLIENTS \<le> k"
  shows "process_ok (k - 8 * n) q"
  using assms
proof (induction rule: jeux_run.induct)
  case (jeux_next n p q r)
  obtain j where j: "k = 8 * Suc n + MAX_CLIENTS + j" using jeux_next.prems(2) by (metis le_Suc_ex)
  have "process_ok (k - 8 * n) q" using jeux_next.IH [OF jeux_next.prems(1)] j by simp
  moreover have "k - 8 * n = (MAX_CLIENTS + j) + 8" "k - 8 * Suc n = MAX_CLIENTS + j" using j by simp_all
  ultimately show ?case using jeux_step_ok [OF jeux_next.hyps(2), of "MAX_CLIENTS + j"] by simp
qed simp

text \<open>The process that \<open>main\<close> starts.\<close>

lemma bind_first_mem: "bind_first ps s = (r, s') \<Longrightarrow> mem s' = mem s"
  by (induction ps arbitrary: s) (auto simp: close_fd_def split: if_splits)

lemma open_listenfd_mem: "open_listenfd a l s = (fd, s') \<Longrightarrow> mem s' = mem s"
  by (auto simp: open_listenfd_def close_fd_def dest: bind_first_mem split: option.splits prod.splits bind_result.splits if_splits)

lemma main_start:
  assumes "main argv gai listens o0 = Some (Inr p)" and "mem o0 = []" and "k < 2 ^ 64"
  obtains fd o1 where "p = \<lparr>shared = start_world o1, running = [], starting = [],
      phase = (if fd < 0 then Shutdown_All EXIT_FAILURE else Loop_Top), terminate_flag = False, hup_pending = False,
      listenfd = fd, creg_live = True\<rparr>" and "mem o1 = []" and "process_ok k p"
proof -
  obtain port where "p = run_server (gai port) listens (start_world o0)"
    using assms(1) main_init_start [OF assms(2)] by (auto simp: main_def bind_eq_Some_conv split: option.splits)
  moreover obtain fd o1 where o1: "open_listenfd (gai port) listens o0 = (fd, o1)" by fastforce
  moreover have m: "mem o1 = []" using open_listenfd_mem [OF o1] assms(2) by simp
  moreover have "(start_world o0)\<lparr>os := o1\<rparr> = start_world o1" by (simp add: start_world_def)
  ultimately have p: "p = \<lparr>shared = start_world o1, running = [], starting = [],
      phase = (if fd < 0 then Shutdown_All EXIT_FAILURE else Loop_Top), terminate_flag = False, hup_pending = False,
      listenfd = fd, creg_live = True\<rparr>"
    by (simp add: run_server_def)
  show thesis by (rule that [OF p m]) (use start_ok [OF m assms(3)] in \<open>simp add: p process_ok_def\<close>)
qed

lemma jeux_room:
  assumes "main argv gai listens o0 = Some (Inr p0)" and "mem o0 = []" and "jeux_run n p0 p" and "8 * n + 80 < 2 ^ 64"
  obtains k where "process_ok (k + 8) p" and "MAX_CLIENTS \<le> k" and "k + 8 = 2 ^ 64 - 1 - 8 * n"
proof -
  have "process_ok (2 ^ 64 - 1) p0" by (rule main_start [OF assms(1,2), of "2 ^ 64 - 1"]) simp_all
  then have "process_ok (2 ^ 64 - 1 - 8 * n) p"
    by (rule jeux_run_ok [OF assms(3)]) (use assms(4) in \<open>simp add: MAX_CLIENTS_def\<close>)
  moreover have "2 ^ 64 - 1 - 8 * n = (2 ^ 64 - 9 - 8 * n) + 8" "MAX_CLIENTS \<le> 2 ^ 64 - 9 - 8 * n"
    using assms(4) by (simp_all add: MAX_CLIENTS_def)
  ultimately show thesis using that [of "2 ^ 64 - 9 - 8 * n"] by metis
qed

end
