(* ===== verification/Process_Properties.thy ===== *)
theory Process_Properties
  imports Process_Safety
begin

text \<open>
  The properties of the process: progress, the clean shutdown, and the race between a shutdown and a
  thread that starts.
\<close>

subsection \<open>After the last registration\<close>

text \<open>The main thread is in \<open>terminate(st)\<close>, and every thread that was created has registered its client;
the threads have at most \<open>m\<close> steps to make.\<close>

definition ending :: "nat \<Rightarrow> int \<Rightarrow> process \<Rightarrow> bool" where
  "ending m st p \<longleftrightarrow> starting p = [] \<and>
     (case phase p of
        Loop_Top \<Rightarrow> False | Accepting \<Rightarrow> False
      | Shutdown_All s \<Rightarrow> s = st \<and> pending_input (shared p) (running p) \<le> m
      | Wait_For_Empty s \<Rightarrow> s = st \<and> pending_input (shared p) (running p) \<le> m \<and> all_shut (shared p, running p)
      | Creg_Fini s \<Rightarrow> s = st \<and> running p = []
      | Preg_Fini s \<Rightarrow> s = st \<and> running p = []
      | Exited s \<Rightarrow> s = st \<and> running p = [])"

lemma ending_terminate:
  assumes P: "process_ok k p" and E: "ending m st p" and T: "terminate_step p = Some q"
  shows "ending m st q"
proof (cases "phase p")
  case (Shutdown_All s)
  obtain o1 fds where o1: "q = p\<lparr>shared := (shared p)\<lparr>os := o1\<rparr>, phase := Wait_For_Empty s\<rparr>" "inbox o1 = inbox (os (shared p))"
      "shut_fds o1 = shut_fds (os (shared p)) @ fds" "mset fds = mset (map svc_fd (running p))"
    using terminate_result(1) [OF P Shutdown_All] T by auto
  have "set fds = svc_fd ` set (running p)" using arg_cong [OF o1(4), of set_mset] by simp
  then show ?thesis
    using E Shutdown_All o1(2,3) by (simp add: o1(1) ending_def pending_input_def all_shut_def)
next
  case (Wait_For_Empty s)
  then show ?thesis using terminate_result(2) [OF P] E T by (auto simp: ending_def split: if_splits)
next
  case (Creg_Fini s)
  then show ?thesis using terminate_result(3) [OF P] E T by (auto simp: ending_def)
next
  case (Preg_Fini s)
  then show ?thesis using terminate_result(4) [OF P] E T by (auto simp: ending_def)
qed (use T in \<open>simp_all add: terminate_step_def\<close>)

lemma ending_work:
  assumes P: "process_ok (k + 8) p" and "MAX_CLIENTS \<le> k" and E: "ending m st p" and L: "creg_live p"
    and r: "running p = xs @ t # ys" and i: "service_iteration t (shared p) = Some (r, w)"
  shows "ending m st (p\<lparr>shared := w, running := xs @ next_of r @ ys\<rparr>)"
proof -
  have "server_ok (k + 8) (shared p, xs @ t # ys)" using process_ok_live(1) [OF P L] unfolding r .
  from iteration_safe [OF this assms(2)] have
    1: "pending_input w (xs @ next_of r @ ys) < pending_input (shared p) (running p)"
      "shut_fds (os w) = shut_fds (os (shared p))" "\<forall>t'. r = Some t' \<longrightarrow> svc_fd t' = svc_fd t"
    unfolding i r by blast+
  have 2: "all_shut (w, xs @ next_of r @ ys)" if "all_shut (shared p, running p)"
    using that 1(2,3) unfolding r by (auto simp: all_shut_def split: option.splits)
  have 3: "pending_input w (xs @ next_of r @ ys) \<le> m" if "pending_input (shared p) (running p) \<le> m"
    by (rule less_imp_le [OF less_le_trans [OF 1(1) that]])
  have ne: "running p \<noteq> []" unfolding r by simp
  show ?thesis
  proof (cases "phase p")
    case (Shutdown_All s)
    then show ?thesis using E 3 by (simp add: ending_def)
  next
    case (Wait_For_Empty s)
    then show ?thesis using E 2 3 by (simp add: ending_def)
  qed (use E ne in \<open>simp_all add: ending_def\<close>)
qed

lemma ending_step:
  assumes "jeux_step p q" and P: "process_ok (k + 8) p" and "MAX_CLIENTS \<le> k" and E: "ending m st p"
  shows "ending m st q"
  using assms(1)
proof (cases rule: jeux_step.cases)
  case finalize
  then show ?thesis by (rule ending_terminate [OF P E])
next
  case (thread_work xs t ys r w)
  then show ?thesis using ending_work [OF P assms(3) E] by simp
qed (use E in \<open>auto simp: ending_def sighup_handler_def Let_def os_close_def pending_input_def all_shut_def split: main_phase.splits\<close>)

lemma ending_run:
  assumes "jeux_run j p q" and "process_ok k p" and "8 * j + MAX_CLIENTS \<le> k" and "ending m st p"
  shows "ending m st q"
  using assms
proof (induction rule: jeux_run.induct)
  case (jeux_next n p q r)
  obtain i where i: "k = 8 * Suc n + MAX_CLIENTS + i" using jeux_next.prems(2) by (metis le_Suc_ex)
  have "process_ok (k - 8 * n) q" by (rule jeux_run_ok [OF jeux_next.hyps(1) jeux_next.prems(1)]) (use i in simp)
  moreover have "k - 8 * n = (MAX_CLIENTS + i) + 8" using i by simp
  moreover have "ending m st q" using jeux_next.IH [OF jeux_next.prems(1) _ jeux_next.prems(3)] i by simp
  ultimately show ?case using ending_step [OF jeux_next.hyps(2), of "MAX_CLIENTS + i"] by simp
qed

text \<open>The exit can be reached in \<open>n\<close> steps.\<close>

definition exits :: "nat \<Rightarrow> int \<Rightarrow> process \<Rightarrow> bool" where
  "exits n st p \<longleftrightarrow> (\<exists>i r. i \<le> n \<and> jeux_run i p r \<and> phase r = Exited st \<and> running r = [])"

lemma jeux_run_trans: "jeux_run n q r \<Longrightarrow> jeux_run m p q \<Longrightarrow> jeux_run (m + n) p r"
  by (induction rule: jeux_run.induct) (auto intro: jeux_run.intros)

lemma exits_mono: "exits n st p \<Longrightarrow> n \<le> m \<Longrightarrow> exits m st p"
  unfolding exits_def using order_trans by blast

lemma exits_run:
  assumes "jeux_run j p q" and "exits n st q"
  shows "exits (j + n) st p"
proof -
  obtain i r where "i \<le> n" "jeux_run i q r" "phase r = Exited st" "running r = []" using assms(2) by (auto simp: exits_def)
  then show ?thesis using jeux_run_trans [OF _ assms(1)] unfolding exits_def
    by (intro exI [of _ "j + i"] exI [of _ r]) simp
qed

lemma exits_terminate: "terminate_step p = Some q \<Longrightarrow> exits n st q \<Longrightarrow> exits (Suc n) st p"
  using exits_run [OF jeux_next [OF jeux_here finalize]] by simp

lemma finalized_exits:
  assumes P: "process_ok k p" and E: "ending m st p" and ph: "phase p = Preg_Fini st \<or> phase p = Creg_Fini st \<or> phase p = Exited st"
  shows "exits 2 st p"
proof -
  have ex: "exits 1 st q" if q: "process_ok k q" "phase q = Preg_Fini st" "running q = []" for q
  proof -
    obtain w where w: "terminate_step q = Some (q\<lparr>shared := w, phase := Exited st\<rparr>)"
      using terminate_result(4) [OF q(1,2)] by blast
    have "exits 0 st (q\<lparr>shared := w, phase := Exited st\<rparr>)" using q(3) jeux_here unfolding exits_def by fastforce
    then show ?thesis using exits_terminate [OF w] by simp
  qed
  have run: "running p = []" using E ph by (auto simp: ending_def)
  from ph show ?thesis
  proof (elim disjE)
    assume "phase p = Preg_Fini st"
    then show ?thesis using exits_mono [OF ex [OF P _ run], of 2] by simp
  next
    assume c: "phase p = Creg_Fini st"
    note t = terminate_result(3) [OF P c]
    have "exits 1 st (p\<lparr>creg_live := False, phase := Preg_Fini st\<rparr>)" by (rule ex [OF terminate_ok [OF P t]]) (simp_all add: run)
    then show ?thesis using exits_terminate [OF t, of 1] by (simp add: numeral_2_eq_2)
  next
    assume "phase p = Exited st"
    then show ?thesis using run jeux_here unfolding exits_def by fastforce
  qed
qed

lemma waiting_exits:
  assumes P: "process_ok (8 * m + MAX_CLIENTS) p" and E: "ending m st p" and ph: "phase p = Wait_For_Empty st"
  shows "exits (m + 3) st p"
proof -
  have live: "creg_live p" and S: "server_ok (8 * m + MAX_CLIENTS) (shared p, running p)"
    using P ph by (simp_all add: process_ok_def exited_def)
  define R where "R i s = (case s of (w, ts) \<Rightarrow> jeux_run i p (p\<lparr>shared := w, running := ts\<rparr>))" for i s
  have "R 0 (shared p, running p)" by (simp add: R_def jeux_here)
  moreover have "R (Suc i) (w1, next_of r @ ts)" if "R i (w, t # ts)" "service_iteration t w = Some (r, w1)" for i w t ts r w1
  proof -
    let ?p = "p\<lparr>shared := w, running := t # ts\<rparr>"
    have "jeux_step ?p (?p\<lparr>shared := w1, running := [] @ next_of r @ ts\<rparr>)"
      by (rule thread_work [where t = t and xs = "[]"]) (use live that(2) in simp_all)
    from jeux_next [OF that(1) [unfolded R_def, simplified] this] show ?thesis by (simp add: R_def)
  qed
  moreover have "pending_input (shared p) (running p) \<le> m" "all_shut (shared p, running p)"
    using E ph by (simp_all add: ending_def)
  ultimately obtain j w where j: "j \<le> m" "R (0 + j) (w, [])" "server_ok MAX_CLIENTS (w, [])"
    using drains [OF S, of R 0] by blast
  let ?p = "p\<lparr>shared := w, running := []\<rparr>"
  have P': "process_ok MAX_CLIENTS ?p" using j(3) live ph by (simp add: process_ok_def)
  have t: "terminate_step ?p = Some (?p\<lparr>phase := Creg_Fini st\<rparr>)" using terminate_result(2) [OF P', of st] ph by simp
  have "ending m st (?p\<lparr>phase := Creg_Fini st\<rparr>)" using E by (simp add: ending_def)
  then have "exits 2 st (?p\<lparr>phase := Creg_Fini st\<rparr>)" by (intro finalized_exits [OF terminate_ok [OF P' t]]) simp_all
  from exits_run [OF _ exits_terminate [OF t this]] j(1,2) show ?thesis
    using exits_mono [of "j + Suc 2" st p "m + 3"] by (simp add: R_def)
qed

lemma ending_exits:
  assumes P: "process_ok (8 * m + MAX_CLIENTS) p" and E: "ending m st p"
  shows "exits (m + 4) st p"
proof (cases "phase p")
  case (Shutdown_All s)
  then have s: "phase p = Shutdown_All st" using E by (simp add: ending_def)
  obtain o1 where o1: "terminate_step p = Some (p\<lparr>shared := (shared p)\<lparr>os := o1\<rparr>, phase := Wait_For_Empty st\<rparr>)"
    using terminate_result(1) [OF P s] by blast
  from exits_terminate [OF o1 waiting_exits [OF terminate_ok [OF P o1] ending_terminate [OF P E o1]]] show ?thesis by (simp add: add.commute)
next
  case (Wait_For_Empty s)
  then have "phase p = Wait_For_Empty st" using E by (simp add: ending_def)
  then show ?thesis using exits_mono [OF waiting_exits [OF P E], of "m + 4"] by simp
qed (use E exits_mono [OF finalized_exits [OF P E]] in \<open>auto simp: ending_def\<close>)

subsection \<open>Sample runs\<close>

definition listening :: "world \<Rightarrow> process" where
  "listening w = \<lparr>shared = w, running = [], starting = [], phase = Loop_Top, terminate_flag = False,
     hup_pending = False, listenfd = 3, creg_live = True\<rparr>"

lemma listening_main: "main [''jeux'', ''-p'', ''7''] (\<lambda>_. Some [\<lparr>cand_socket = 3, cand_bound = True, cand_close = True\<rparr>]) True idle_os =
    Some (Inr (listening (start_world idle_os)))"
proof -
  have "main_port [''jeux'', ''-p'', ''7''] = Some (Some ''7'')"
    by (simp add: main_port_def char_to_port_num_def)
  then show ?thesis
    by (simp add: main_def main_init_start run_server_def open_listenfd_def listening_def)
qed

text \<open>A connection is accepted.\<close>

lemma accept_run:
  assumes "phase p = Loop_Top" and "\<not> terminate_flag p" and "process_ok k p"
  shows "jeux_run 2 p (p\<lparr>starting := starting p @ [fd]\<rparr>)"
proof -
  have 1: "jeux_run 1 p (p\<lparr>phase := Accepting\<rparr>)"
    using jeux_next [OF jeux_here top [OF assms(1)]] loop_top_ok(2) [OF assms(3,1)] assms(2) by simp
  have "accepted fd True (p\<lparr>phase := Accepting\<rparr>) = p\<lparr>starting := starting p @ [fd]\<rparr>"
    using assms(1,2) by (simp add: accepted_def)
  then show ?thesis using jeux_next [OF 1 accept [of _ fd True]] by (simp add: numeral_2_eq_2)
qed

text \<open>A thread registers its client, then \<open>SIGHUP\<close> ends the loop.\<close>

definition hung_up :: process where
  "hung_up = (listening (entered 5 0 (start_world idle_os)))\<lparr>running := [\<lparr>svc_fd = 5, svc_client = 0, svc_player = None\<rparr>],
     phase := Shutdown_All EXIT_SUCCESS, terminate_flag := True, hup_pending := True\<rparr>"

lemma hangup_run:
  assumes "phase p = Loop_Top" and "process_ok k p"
  shows "jeux_run 2 p (p\<lparr>terminate_flag := True, hup_pending := True, phase := Shutdown_All EXIT_SUCCESS\<rparr>)"
proof -
  have 1: "jeux_run 1 p (p\<lparr>terminate_flag := True, hup_pending := True\<rparr>)"
    using jeux_next [OF jeux_here signal [of p False]] assms(1) by (simp add: exited_def sighup_handler_def)
  have "process_ok k (p\<lparr>terminate_flag := True, hup_pending := True\<rparr>)"
    using assms(2) by (simp add: process_ok_def exited_def)
  from loop_top_ok(2) [OF this] show ?thesis using jeux_next [OF 1 top] assms(1) by (simp add: numeral_2_eq_2)
qed

lemma listening_ok: "process_ok 100 (listening (start_world idle_os))"
  using start_ok [of idle_os 100] by (simp add: process_ok_def listening_def)

lemma hung_up_run: "jeux_run 5 (listening (start_world idle_os)) hung_up"
proof -
  let ?p = "listening (start_world idle_os)" and ?t = "\<lparr>svc_fd = 5, svc_client = 0, svc_player = None\<rparr>"
  have 1: "jeux_run 2 ?p (?p\<lparr>starting := [5]\<rparr>)"
    using accept_run [OF _ _ listening_ok, of 5] by (simp add: listening_def)
  let ?q = "?p\<lparr>shared := entered 5 0 (start_world idle_os), running := [?t]\<rparr>"
  have "jeux_step (?p\<lparr>starting := [5]\<rparr>) ?q"
    using thread_start [of "?p\<lparr>starting := [5]\<rparr>" "[]" 5 "[]"] sample_start [OF idle_mem] by (simp add: listening_def)
  from jeux_next [OF 1 this] have 3: "jeux_run 3 ?p ?q" by (simp add: numeral_3_eq_3 numeral_2_eq_2)
  have "process_ok 76 ?q"
    using jeux_run_ok [OF 3 listening_ok] by (simp add: MAX_CLIENTS_def)
  then have "jeux_run 2 ?q (?q\<lparr>terminate_flag := True, hup_pending := True, phase := Shutdown_All EXIT_SUCCESS\<rparr>)"
    by (rule hangup_run [rotated]) (simp add: listening_def)
  from jeux_run_trans [OF this 3] show ?thesis by (simp add: listening_def hung_up_def)
qed

text \<open>A client whose thread registers it after \<open>creg_shutdown_all\<close>, and before the registry is found empty,
is not shut down: as long as it neither sends anything nor closes its connection, its thread waits for
it, and \<open>terminate\<close> waits for the thread.\<close>

lemma late_client_blocks_exit:
  "\<exists>q t. jeux_run 6 (listening (start_world idle_os)) q \<and> phase q = Wait_For_Empty EXIT_SUCCESS \<and> running q = [t] \<and>
     starting q = [] \<and> terminate_step q = None \<and> service_iteration t (shared q) = None"
proof -
  let ?p = "listening (start_world idle_os)" and ?t = "\<lparr>svc_fd = 5, svc_client = 0, svc_player = None\<rparr>"
  let ?a = "?p\<lparr>starting := [5]\<rparr>"
  have 1: "jeux_run 2 ?p ?a" using accept_run [OF _ _ listening_ok, of 5] by (simp add: listening_def)
  have ok: "process_ok 84 ?a" using jeux_run_ok [OF 1 listening_ok] by (simp add: MAX_CLIENTS_def)
  let ?h = "?a\<lparr>terminate_flag := True, hup_pending := True, phase := Shutdown_All EXIT_SUCCESS\<rparr>"
  have 2: "jeux_run 4 ?p ?h" using jeux_run_trans [OF hangup_run [OF _ ok] 1] by (simp add: listening_def)
  have S: "server_ok 100 (start_world idle_os, [])" using listening_ok by (simp add: process_ok_def listening_def exited_def)
  have "slot_fds (creg_arr (creg (start_world idle_os))) (start_world idle_os) = []"
    using shutdown_all_result(2) [OF S] by simp
  then have "creg_shutdown_all (start_world idle_os) = Some (start_world idle_os)"
    using shutdown_all_result(1) [OF S] by simp
  then have "terminate_step ?h = Some (?h\<lparr>phase := Wait_For_Empty EXIT_SUCCESS\<rparr>)"
    by (simp add: terminate_step_def listening_def)
  from jeux_next [OF 2 finalize [OF this]] have 3: "jeux_run 5 ?p (?h\<lparr>phase := Wait_For_Empty EXIT_SUCCESS\<rparr>)" by simp
  let ?q = "?h\<lparr>phase := Wait_For_Empty EXIT_SUCCESS, shared := joined idle_os, running := [?t], starting := []\<rparr>"
  have "jeux_step (?h\<lparr>phase := Wait_For_Empty EXIT_SUCCESS\<rparr>) ?q"
    using thread_start [of "?h\<lparr>phase := Wait_For_Empty EXIT_SUCCESS\<rparr>" "[]" 5 "[]"] sample_start [OF idle_mem]
    by (simp add: listening_def joined_def)
  from jeux_next [OF 3 this] have 4: "jeux_run 6 ?p ?q" by simp
  have "creg_wait_for_empty (joined idle_os) = None"
    by (simp add: creg_wait_for_empty_def sem_wait_def sem_post_def joined_def entered_def)
  then have "terminate_step ?q = None" by (simp add: terminate_step_def)
  then show ?thesis using 4 joined_waits by (intro exI [of _ ?q] exI [of _ ?t]) simp
qed

text \<open>After \<open>creg_shutdown_all\<close> no thread waits for its client.\<close>

lemma shutdown_wakes:
  assumes P: "process_ok (k + 8) p" and "MAX_CLIENTS \<le> k" and ph: "phase p = Shutdown_All st"
  obtains w where "terminate_step p = Some (p\<lparr>shared := w, phase := Wait_For_Empty st\<rparr>)"
    and "\<forall>t \<in> set (running p). \<exists>r w'. service_iteration t w = Some (r, w')"
proof -
  obtain o1 fds where o1: "terminate_step p = Some (p\<lparr>shared := (shared p)\<lparr>os := o1\<rparr>, phase := Wait_For_Empty st\<rparr>)" "mem o1 = []"
      "shut_fds o1 = shut_fds (os (shared p)) @ fds" "mset fds = mset (map svc_fd (running p))"
    using terminate_result(1) [OF P ph] by blast
  have "server_ok (k + 8) (shared p, running p)" using P ph by (simp add: process_ok_def exited_def)
  then have S: "server_ok (k + 8) ((shared p)\<lparr>os := o1\<rparr>, running p)" by (rule server_ok_os [OF _ o1(2)])
  have "set fds = svc_fd ` set (running p)" using arg_cong [OF o1(4), of set_mset] by simp
  then have A: "all_shut ((shared p)\<lparr>os := o1\<rparr>, running p)" using o1(3) by (simp add: all_shut_def)
  have "\<exists>r w'. service_iteration t ((shared p)\<lparr>os := o1\<rparr>) = Some (r, w')" if t: "t \<in> set (running p)" for t
  proof -
    obtain xs ys where e: "running p = xs @ t # ys" using split_list [OF t] by blast
    from shut_iteration [OF S [unfolded e] assms(2) A [unfolded e]] show ?thesis by blast
  qed
  then show thesis using that o1(1) by blast
qed

subsection \<open>Properties\<close>





text \<open>C28: the race of a shutdown with a connection. When \<open>SIGHUP\<close> arrives after a thread was created and
before it has called \<open>creg_register\<close>, then \<open>terminate\<close> can free the client registry while the thread is
still to register its client there.\<close>

theorem shutdown_race:
  assumes "main argv gai listens o0 = Some (Inr p0)" and "mem o0 = []" and "phase p0 = Loop_Top"
  shows "\<exists>p. jeux_run 7 p0 p \<and> starting p = [fd] \<and> \<not> creg_live p \<and> \<not> exited p"
proof -
  obtain l o1 where p0: "p0 = \<lparr>shared = start_world o1, running = [], starting = [], phase = Loop_Top, terminate_flag = False,
      hup_pending = False, listenfd = l, creg_live = True\<rparr>" and P: "process_ok 200 p0"
    by (rule main_start [OF assms(1,2), of 200]) (use assms(3) in \<open>auto split: if_splits\<close>)
  have 1: "jeux_run 2 p0 (p0\<lparr>starting := [fd]\<rparr>)" using accept_run [OF _ _ P, of fd] p0 by simp
  have P1: "process_ok 200 (p0\<lparr>starting := [fd]\<rparr>)" using P by (simp add: process_ok_def exited_def)
  let ?p = "p0\<lparr>starting := [fd], terminate_flag := True, hup_pending := True, phase := Shutdown_All EXIT_SUCCESS\<rparr>"
  have 2: "jeux_run 4 p0 ?p" using jeux_run_trans [OF hangup_run [OF _ P1] 1] p0 by simp
  have P2: "process_ok 200 ?p" using P p0 by (simp add: process_ok_def exited_def)
  obtain o2 where o2: "terminate_step ?p = Some (?p\<lparr>shared := (shared p0)\<lparr>os := o2\<rparr>, phase := Wait_For_Empty EXIT_SUCCESS\<rparr>)"
    using terminate_result(1) [OF P2] by auto
  let ?q = "?p\<lparr>shared := (shared p0)\<lparr>os := o2\<rparr>, phase := Wait_For_Empty EXIT_SUCCESS\<rparr>"
  have P3: "process_ok 200 ?q" by (rule terminate_ok [OF P2 o2])
  have 3: "jeux_run 5 p0 ?q" using jeux_next [OF 2 finalize [OF o2]] by simp
  have "terminate_step ?q = Some (?q\<lparr>phase := Creg_Fini EXIT_SUCCESS\<rparr>)" using terminate_result(2) [OF P3] p0 by simp
  from jeux_next [OF 3 finalize [OF this]] have 4: "jeux_run 6 p0 (?q\<lparr>phase := Creg_Fini EXIT_SUCCESS\<rparr>)" by simp
  let ?r = "?q\<lparr>phase := Creg_Fini EXIT_SUCCESS, creg_live := False, phase := Preg_Fini EXIT_SUCCESS\<rparr>"
  have "terminate_step (?q\<lparr>phase := Creg_Fini EXIT_SUCCESS\<rparr>) = Some ?r"
    by (simp add: terminate_step_def creg_fini_def)
  from jeux_next [OF 4 finalize [OF this]] have "jeux_run 7 p0 ?r" by simp
  then show ?thesis by (intro exI [of _ ?r]) (simp add: exited_def)
qed

theorem shutdown_race_witness:
  "\<exists>p. jeux_run 7 (listening (start_world idle_os)) p \<and> starting p = [9] \<and> \<not> creg_live p \<and> \<not> exited p"
  by (rule shutdown_race [OF listening_main idle_mem]) (simp add: listening_def)

end
