(* ===== verification/Client_Effects.thy ===== *)
theory Client_Effects
  imports Play_Safety
begin

text \<open>
  The exact effect of the operations of \<open>client.c\<close> on the whole state, where \<open>Client_Safety\<close>,
  \<open>Play_Safety\<close> and \<open>Move_Safety\<close> show that they are safe: which entries of the two tables change, which
  structures are freed, what happens to the game, and which packet goes to which client. The operations
  are taken at an invitation that both parties have in their tables, and that nobody else refers to.
\<close>

subsection \<open>An invitation in the tables of its two parties\<close>

definition in_table :: "world \<Rightarrow> nat \<Rightarrow> client \<Rightarrow> nat \<Rightarrow> nat \<Rightarrow> bool" where
  "in_table w c v i k \<longleftrightarrow> clients w c = Some v \<and> table_ok v \<and> 1 < c_ref_count v \<and>
     find_idx (\<lambda>x. x = Some i) (invs_lst v) = Some k"

definition linked :: "world \<Rightarrow> nat \<Rightarrow> invitation \<Rightarrow> nat \<Rightarrow> client \<Rightarrow> nat \<Rightarrow> nat \<Rightarrow> client \<Rightarrow> nat \<Rightarrow> bool" where
  "linked w i u c v k t tv j \<longleftrightarrow> invs w i = Some u \<and> \<not> state_locked u \<and> i_ref_count u = 2 \<and> c \<noteq> t \<and>
     in_table w c v i k \<and> in_table w t tv i j"

text \<open>The two ends: \<open>c\<close> is the source and \<open>t\<close> the target, or the other way round.\<close>

definition ends :: "invitation \<Rightarrow> nat \<Rightarrow> nat \<Rightarrow> bool" where
  "ends u c t \<longleftrightarrow> inv_src u = c \<and> inv_target u = t \<or> inv_src u = t \<and> inv_target u = c"

definition cleared_slot :: "nat \<Rightarrow> client \<Rightarrow> client" where
  "cleared_slot k v = (set_slot k None v)\<lparr>invs_len := invs_len v - 1\<rparr>"

definition unlinked :: "nat \<Rightarrow> client \<Rightarrow> client" where
  "unlinked k v = (cleared_slot k v)\<lparr>c_ref_count := c_ref_count v - 1\<rparr>"

text \<open>The state without the invitation \<open>i\<close>.\<close>

definition without :: "nat \<Rightarrow> nat \<Rightarrow> client \<Rightarrow> nat \<Rightarrow> nat \<Rightarrow> client \<Rightarrow> nat \<Rightarrow> world \<Rightarrow> world" where
  "without i c v k t tv j w = w\<lparr>invs := (invs w)(i := None),
     clients := (clients w)(c := Some (unlinked k v), t := Some (unlinked j tv))\<rparr>"

lemma cleared_slot_frame [simp]:
  "c_fd (cleared_slot k v) = c_fd v" "c_player (cleared_slot k v) = c_player v"
  "c_ref_count (cleared_slot k v) = c_ref_count v"
  by (simp_all add: cleared_slot_def set_slot_def)

lemma cleared_slot_same_count [simp]: "(cleared_slot k v)\<lparr>c_ref_count := c_ref_count v\<rparr> = cleared_slot k v"
  by (cases v) (simp add: cleared_slot_def set_slot_def)

lemma unlinked_frame [simp]:
  "c_fd (unlinked k v) = c_fd v" "c_player (unlinked k v) = c_player v"
  by (simp_all add: unlinked_def)

definition listed :: "world \<Rightarrow> nat \<Rightarrow> client \<Rightarrow> nat \<Rightarrow> nat \<Rightarrow> bool" where
  "listed w c v i k \<longleftrightarrow> clients w c = Some v \<and> table_ok v \<and> find_idx (\<lambda>x. x = Some i) (invs_lst v) = Some k"

lemma in_table_listed: "in_table w c v i k \<Longrightarrow> listed w c v i k"
  by (simp add: in_table_def listed_def)

lemma listed_slot:
  assumes "listed w c v i k"
  shows "read_slot c k w = Some (Some i)" and "search_inv_lst_safe (Some c) (Some i) w = Some (int k)"
proof -
  have k: "k < length (invs_lst v)" "invs_lst v ! k = Some i"
    using assms find_idx_SomeD [of "\<lambda>x. x = Some i" "invs_lst v" k] by (simp_all add: listed_def)
  then show "read_slot c k w = Some (Some i)" using assms by (simp add: listed_def read_slot_def table_ok_def)
  show "search_inv_lst_safe (Some c) (Some i) w = Some (int k)"
    using assms search_result [of w c v i] by (simp add: listed_def)
qed

lemmas linked_slot = listed_slot [OF in_table_listed]

lemma removed:
  assumes "clients w c = Some v" and "table_ok v" and "find_idx (\<lambda>x. x = Some i) (invs_lst v) = Some k"
    and "invs w i = Some u" and "i_ref_count u \<noteq> 1"
  shows "client_remove_invitation (Some c) (Some i) w = Some (int k, w\<lparr>
      invs := (invs w)(i := Some (u\<lparr>i_ref_count := size_dec (i_ref_count u)\<rparr>)),
      clients := (clients w)(c := Some (cleared_slot k v))\<rparr>)"
  using remove_found(1) [OF assms(1,2,4,5,3)] by (simp add: client_remove_invitation_def cleared_slot_def)

lemma cleared_slot_count: "cleared_slot k (v\<lparr>c_ref_count := n\<rparr>) = (cleared_slot k v)\<lparr>c_ref_count := n\<rparr>"
  by (simp add: cleared_slot_def set_slot_def)

text \<open>The statements that take the invitation out of both tables.\<close>

definition unlinking :: "nat \<Rightarrow> invitation \<Rightarrow> nat \<Rightarrow> client \<Rightarrow> nat \<Rightarrow> nat \<Rightarrow> client \<Rightarrow> nat \<Rightarrow> world \<Rightarrow> world" where
  "unlinking i u c v k t tv j w = w\<lparr>invs := (invs w)(i := Some (u\<lparr>i_ref_count := 1\<rparr>)),
     clients := (clients w)(c := Some (cleared_slot k v),
       t := Some ((cleared_slot j tv)\<lparr>c_ref_count := c_ref_count tv + 1\<rparr>))\<rparr>"

lemma unlink:
  assumes "in_table w c v i k" and "in_table w t tv i j" and "c \<noteq> t"
    and "invs w i = Some u" and "i_ref_count u = 3"
  shows "\<exists>w2 w3. client_remove_invitation (Some c) (Some i) w = Some (int k, w2) \<and>
    client_ref (Some t) w2 = Some (Some t, w3) \<and>
    client_remove_invitation (Some t) (Some i) w3 = Some (int j, unlinking i u c v k t tv j w) \<and>
    invs w2 i = Some (u\<lparr>i_ref_count := 2\<rparr>)"
proof -
  let ?tv = "tv\<lparr>c_ref_count := c_ref_count tv + 1\<rparr>" and ?u = "u\<lparr>i_ref_count := 2\<rparr>"
  let ?w2 = "w\<lparr>invs := (invs w)(i := Some ?u), clients := (clients w)(c := Some (cleared_slot k v))\<rparr>"
  let ?w3 = "?w2\<lparr>clients := (clients ?w2)(t := Some ?tv)\<rparr>"
  have 2: "client_remove_invitation (Some c) (Some i) w = Some (int k, ?w2)"
    using removed [of w c v i k u] assms by (simp add: in_table_def size_dec_def)
  have tv: "clients ?w2 t = Some tv" using assms(2,3) by (simp add: in_table_def)
  then have 3: "client_ref (Some t) ?w2 = Some (Some t, ?w3)" by (simp add: size_inc_def)
  have f: "find_idx (\<lambda>x. x = Some i) (invs_lst ?tv) = Some j" and tok: "table_ok ?tv"
    using assms(2) by (simp_all add: in_table_def)
  have "client_remove_invitation (Some t) (Some i) ?w3 = Some (int j, unlinking i u c v k t tv j w)"
    using removed [OF _ tok f, of ?w3 t ?u] by (simp add: size_dec_def unlinking_def cleared_slot_count)
  with 2 3 show ?thesis by auto
qed

subsection \<open>The last reference to an invitation\<close>

text \<open>The games when the reference of an invitation to its game is dropped.\<close>

definition game_there :: "invitation \<Rightarrow> world \<Rightarrow> bool" where
  "game_there u w \<longleftrightarrow> (case inv_game u of None \<Rightarrow> True | Some g \<Rightarrow> games w g \<noteq> None)"

definition games_without :: "invitation \<Rightarrow> world \<Rightarrow> nat \<Rightarrow> game option" where
  "games_without u w = (case inv_game u of None \<Rightarrow> games w | Some g \<Rightarrow> (games w)(g := game_unref (games w g)))"

lemma inv_unref_last:
  assumes "invs w i = Some u" and "i_ref_count u = 1" and "ends u c t" and "c \<noteq> t"
    and "clients w c = Some v" and "c_ref_count v \<noteq> 1" and "clients w t = Some tv" and "c_ref_count tv \<noteq> 1"
    and "game_there u w"
  shows "inv_unref (Some i) w = Some (w\<lparr>invs := (invs w)(i := None), games := games_without u w,
    clients := (clients w)(c := Some (v\<lparr>c_ref_count := c_ref_count v - 1\<rparr>),
      t := Some (tv\<lparr>c_ref_count := c_ref_count tv - 1\<rparr>))\<rparr>)"
proof -
  have 1: "inv_unref_step i w = Some ([Unref_Client (inv_src u), Unref_Client (inv_target u)] @
      (case inv_game u of None \<Rightarrow> [] | Some g \<Rightarrow> [Unref_Game g]), w\<lparr>invs := (invs w)(i := None)\<rparr>)"
    using assms(1,2) by (simp add: inv_unref_step_def size_dec_def)
  show ?thesis
    using assms
    by (auto simp: inv_unref_def release_Inv 1 release_Client client_unref_step_def size_dec_def ends_def
        game_there_def games_without_def release_Game w_game_unref_def fun_upd_twist
        split: option.splits)
qed

text \<open>Dropping the reference that was taken for the duration of an operation.\<close>

lemma inv_ref_unref:
  assumes "invs w i = Some u" and "i_ref_count u \<noteq> 0"
  shows "inv_unref (Some i) (w\<lparr>invs := (invs w)(i := Some (u\<lparr>i_ref_count := i_ref_count u + 1\<rparr>))\<rparr>) = Some w"
proof -
  let ?u = "u\<lparr>i_ref_count := i_ref_count u + 1\<rparr>"
  have n: "i_ref_count u + 1 \<noteq> 1" "size_dec (i_ref_count u + 1) = i_ref_count u"
    using assms(2) by (simp_all add: size_dec_def)
  have same: "u\<lparr>i_ref_count := i_ref_count u\<rparr> = u" "w\<lparr>invs := (invs w)(i := Some u)\<rparr> = w"
    using assms(1) by (simp_all add: fun_upd_idem)
  have "inv_unref (Some i) (w\<lparr>invs := (invs w)(i := Some ?u)\<rparr>) = Some (w\<lparr>invs := (invs w)(i := Some (u\<lparr>i_ref_count := i_ref_count u\<rparr>))\<rparr>)"
    using inv_unref_count [of "w\<lparr>invs := (invs w)(i := Some ?u)\<rparr>" i ?u] n by (simp del: add_diff_cancel_right')
  then show ?thesis unfolding same .
qed

subsection \<open>Revoking and declining\<close>

lemma in_table_frame:
  "clients w' c = clients w c \<Longrightarrow> in_table w' c v i k = in_table w c v i k"
  by (simp add: in_table_def)

lemma withdraw_result:
  assumes L: "linked w i u c v k t tv j" and E: "ends u c t" and "inv_state u = INV_OPEN_STATE" and "inv_game u = None"
    and get: "\<And>w' u'. invs w' i = Some u' \<Longrightarrow> inv_keeps u u' \<Longrightarrow> get (Some i) w' = Some (Some t)"
  shows "\<exists>st o1. withdraw get typ c (Some i) (w\<lparr>invs := (invs w)(i := Some (u\<lparr>i_ref_count := 3\<rparr>))\<rparr>) =
      Some (st, (without i c v k t tv j w)\<lparr>os := o1\<rparr>) \<and> sent (c_fd tv) typ (int j) NULL_ROLE 0 None st (os w) o1"
proof -
  let ?u = "u\<lparr>i_ref_count := 3, inv_state := INV_CLOSED_STATE\<rparr>"
  let ?w0 = "w\<lparr>invs := (invs w)(i := Some (u\<lparr>i_ref_count := 3\<rparr>))\<rparr>" and ?w1 = "w\<lparr>invs := (invs w)(i := Some ?u)\<rparr>"
  have c: "in_table w c v i k" "in_table w t tv i j" "c \<noteq> t" using L by (simp_all add: linked_def)
  have 1: "inv_close (Some i) NULL_ROLE ?w0 = Some (0, ?w1)"
    using inv_close_result [of ?w0 i "u\<lparr>i_ref_count := 3\<rparr>" undefined NULL_ROLE] L assms(3,4)
    by (simp add: linked_def Let_def)
  have c1: "in_table ?w1 c v i k" "in_table ?w1 t tv i j" using c by (simp_all add: in_table_def)
  let ?w4 = "unlinking i ?u c v k t tv j ?w1"
  obtain w2 w3 where 2: "client_remove_invitation (Some c) (Some i) ?w1 = Some (int k, w2)"
      "client_ref (Some t) w2 = Some (Some t, w3)" "client_remove_invitation (Some t) (Some i) w3 = Some (int j, ?w4)"
      "invs w2 i = Some (?u\<lparr>i_ref_count := 2\<rparr>)"
    using unlink [OF c1 c(3), of ?u] by auto
  have g: "get (Some i) w2 = Some (Some t)" by (rule get [OF 2(4)]) (use assms(4) in \<open>simp add: inv_keeps_def\<close>)
  let ?t = "(cleared_slot j tv)\<lparr>c_ref_count := c_ref_count tv + 1\<rparr>"
  let ?w5 = "w\<lparr>invs := (invs w)(i := None), clients := (clients w)(c := Some (unlinked k v), t := Some (cleared_slot j tv))\<rparr>"
  have cnt: "c_ref_count v \<noteq> 1" "c_ref_count tv \<noteq> 1" "c_ref_count tv \<noteq> 0" using c by (auto simp: in_table_def)
  have "inv_unref (Some i) ?w4 = Some (?w4\<lparr>invs := (invs ?w4)(i := None), games := games_without (?u\<lparr>i_ref_count := 1\<rparr>) ?w4,
      clients := (clients ?w4)(c := Some ((cleared_slot k v)\<lparr>c_ref_count := c_ref_count (cleared_slot k v) - 1\<rparr>),
        t := Some (?t\<lparr>c_ref_count := c_ref_count ?t - 1\<rparr>))\<rparr>)"
    by (rule inv_unref_last) (use E c(3) cnt assms(4) in \<open>simp_all add: unlinking_def ends_def game_there_def\<close>)
  also have "\<dots> = Some ?w5"
    using assms(4) c(3) by (simp add: unlinking_def games_without_def unlinked_def fun_upd_twist)
  finally have 5: "inv_unref (Some i) ?w4 = Some ?w5" .
  have tv5: "clients ?w5 t = Some (cleared_slot j tv)" by simp
  obtain st o1 where 6: "send_pkt (Some t) typ (int j) NULL_ROLE 0 None ?w5 = Some (st, ?w5\<lparr>os := o1\<rparr>)"
      "sent (c_fd tv) typ (int j) NULL_ROLE 0 None st (os w) o1"
    using send_pkt_sent [OF tv5, of 0 None "typ" "int j" NULL_ROLE] by auto
  have "client_unref (Some t) (?w5\<lparr>os := o1\<rparr>) = Some ((without i c v k t tv j w)\<lparr>os := o1\<rparr>)"
    using client_unref_count [of "?w5\<lparr>os := o1\<rparr>" t "cleared_slot j tv"] cnt
    by (simp add: without_def size_dec_def unlinked_def)
  then have "withdraw get typ c (Some i) ?w0 = Some (st, (without i c v k t tv j w)\<lparr>os := o1\<rparr>)"
    using 1 2(1-3) g 5 6(1) by (simp add: withdraw_def)
  with 6(2) show ?thesis by blast
qed

lemma close_refused:
  assumes "invs w i = Some u" and "\<not> state_locked u" and "inv_ok u" and "inv_state u \<noteq> INV_OPEN_STATE"
    and "\<forall>g. inv_game u = Some g \<longrightarrow> games w g \<noteq> None"
  shows "inv_close (Some i) NULL_ROLE w = Some (-1, w)"
proof (cases "inv_game u")
  case None
  then have "inv_state u = INV_CLOSED_STATE" using assms(3,4) by (cases "inv_state u") (auto simp: inv_ok_def)
  then show ?thesis using inv_close_result [OF assms(1,2), of undefined NULL_ROLE] None by (simp add: Let_def)
next
  case (Some g)
  then obtain x where "games w g = Some x" using assms(5) by auto
  then show ?thesis using inv_close_result [OF assms(1,2), of x NULL_ROLE] Some by (simp add: Let_def)
qed

text \<open>C11: \<open>client_revoke_invitation\<close> and \<open>client_decline_invitation\<close>. Only the source can revoke, only the
target can decline, and only while the invitation is open: otherwise the state does not change. An open
invitation disappears: it is taken out of both tables and freed, and each party loses one reference.
The other party is told, by its own identifier of the invitation; the status is that of this packet.\<close>

theorem revoke_decline_correct:
  assumes L: "linked w i u c v k t tv j" and E: "ends u c t" and ok: "inv_ok u"
    and G: "\<forall>g. inv_game u = Some g \<longrightarrow> games w g \<noteq> None"
  shows "(inv_src u \<noteq> c \<or> inv_state u \<noteq> INV_OPEN_STATE \<longrightarrow> client_revoke_invitation (Some c) k w = Some (-1, w)) \<and>
    (inv_target u \<noteq> c \<or> inv_state u \<noteq> INV_OPEN_STATE \<longrightarrow> client_decline_invitation (Some c) k w = Some (-1, w)) \<and>
    (inv_src u = c \<and> inv_state u = INV_OPEN_STATE \<longrightarrow>
      (\<exists>st o1. client_revoke_invitation (Some c) k w = Some (st, (without i c v k t tv j w)\<lparr>os := o1\<rparr>) \<and>
        sent (c_fd tv) JEUX_REVOKED_PKT (int j) NULL_ROLE 0 None st (os w) o1)) \<and>
    (inv_target u = c \<and> inv_state u = INV_OPEN_STATE \<longrightarrow>
      (\<exists>st o1. client_decline_invitation (Some c) k w = Some (st, (without i c v k t tv j w)\<lparr>os := o1\<rparr>) \<and>
        sent (c_fd tv) JEUX_DECLINED_PKT (int j) NULL_ROLE 0 None st (os w) o1))"
proof -
  have u: "invs w i = Some u" "\<not> state_locked u" "i_ref_count u = 2" "c \<noteq> t" and T: "in_table w c v i k"
    using L by (simp_all add: linked_def)
  let ?u = "u\<lparr>i_ref_count := 3\<rparr>" and ?w = "w\<lparr>invs := (invs w)(i := Some (u\<lparr>i_ref_count := 3\<rparr>))\<rparr>"
  have r: "inv_ref (Some i) w = Some (Some i, ?w)" using u(1,3) by (simp add: size_inc_def)
  have x: "inv_unref (Some i) ?w = Some w" using inv_ref_unref [OF u(1)] u(3) by simp
  have no: "inv_close (Some i) NULL_ROLE ?w = Some (-1, ?w)" if "inv_state u \<noteq> INV_OPEN_STATE"
    using close_refused [of ?w i ?u] u(2) ok G that by (simp add: inv_ok_def)
  have ng: "inv_game u = None" if "inv_state u = INV_OPEN_STATE" using ok that by (simp add: inv_ok_def)
  have src: "inv_get_target (Some i) w' = Some (Some t)" if "invs w' i = Some u'" "inv_keeps u u'" "inv_src u = c" for w' u'
    using that E u(4) by (auto simp: inv_keeps_def ends_def)
  have tgt: "inv_get_source (Some i) w' = Some (Some t)" if "invs w' i = Some u'" "inv_keeps u u'" "inv_target u = c" for w' u'
    using that E u(4) by (auto simp: inv_keeps_def ends_def)
  note eqs = linked_slot(1) [OF T] r x no
  show ?thesis
  proof (intro conjI impI)
    show "client_revoke_invitation (Some c) k w = Some (-1, w)" if "inv_src u \<noteq> c \<or> inv_state u \<noteq> INV_OPEN_STATE"
      using that eqs by (cases "inv_src u = c") (auto simp: revoke_withdraw withdraw_def)
    show "client_decline_invitation (Some c) k w = Some (-1, w)" if "inv_target u \<noteq> c \<or> inv_state u \<noteq> INV_OPEN_STATE"
      using that eqs by (cases "inv_target u = c") (auto simp: decline_withdraw withdraw_def)
    show "\<exists>st o1. client_revoke_invitation (Some c) k w = Some (st, (without i c v k t tv j w)\<lparr>os := o1\<rparr>) \<and>
        sent (c_fd tv) JEUX_REVOKED_PKT (int j) NULL_ROLE 0 None st (os w) o1"
      if "inv_src u = c \<and> inv_state u = INV_OPEN_STATE"
      using withdraw_result [OF L E _ ng, of inv_get_target JEUX_REVOKED_PKT] src that eqs by (auto simp: revoke_withdraw)
    show "\<exists>st o1. client_decline_invitation (Some c) k w = Some (st, (without i c v k t tv j w)\<lparr>os := o1\<rparr>) \<and>
        sent (c_fd tv) JEUX_DECLINED_PKT (int j) NULL_ROLE 0 None st (os w) o1"
      if "inv_target u = c \<and> inv_state u = INV_OPEN_STATE"
      using withdraw_result [OF L E _ ng, of inv_get_source JEUX_DECLINED_PKT] tgt that eqs by (auto simp: decline_withdraw)
  qed
qed

text \<open>Two clients that are logged in, at the addresses 1 and 2, with an invitation between them at 3 in the
second slot of both tables.\<close>

definition party :: "int \<Rightarrow> nat \<Rightarrow> client" where
  "party fd a = (sample_client fd)\<lparr>c_player := Some a, invs_lst := [None, Some 3, None, None], invs_len := 1,
     c_ref_count := 2\<rparr>"

definition paired :: "INVITATION_STATE \<Rightarrow> nat option \<Rightarrow> world" where
  "paired s g = (duo_world s g)\<lparr>clients := [1 \<mapsto> party 5 7, 2 \<mapsto> party 6 8],
     players := [7 \<mapsto> ann, 8 \<mapsto> ann\<lparr>p_name := Some ''bob''\<rparr>]\<rparr>"

lemma paired_linked:
  "linked (paired s g) 3 (sample_inv s g) 1 (party 5 7) 1 2 (party 6 8) 1"
  "linked (paired s g) 3 (sample_inv s g) 2 (party 6 8) 1 1 (party 5 7) 1"
  "ends (sample_inv s g) 1 2" "ends (sample_inv s g) 2 1"
  by (simp_all add: linked_def in_table_def paired_def duo_world_def party_def sample_client_def sample_inv_def
      table_ok_def ends_def)

lemma party_frame [simp]: "c_fd (party fd a) = fd" "c_player (party fd a) = Some a"
  by (simp_all add: party_def sample_client_def)

theorem revoke_decline_correct_witness:
  "\<exists>st o1. client_revoke_invitation (Some 1) 1 (paired INV_OPEN_STATE None) =
      Some (st, (without 3 1 (party 5 7) 1 2 (party 6 8) 1 (paired INV_OPEN_STATE None))\<lparr>os := o1\<rparr>) \<and>
    sent 6 JEUX_REVOKED_PKT 1 NULL_ROLE 0 None st (os (paired INV_OPEN_STATE None)) o1"
proof -
  have "inv_ok (sample_inv INV_OPEN_STATE None)" "inv_game (sample_inv INV_OPEN_STATE None) = None"
    "inv_src (sample_inv INV_OPEN_STATE None) = 1" "inv_state (sample_inv INV_OPEN_STATE None) = INV_OPEN_STATE"
    by (simp_all add: inv_ok_def sample_inv_def)
  then show ?thesis using revoke_decline_correct [OF paired_linked(1,3), of INV_OPEN_STATE None] by simp
qed

subsection \<open>Accepting\<close>

definition state_text :: "game \<Rightarrow> string" where
  "state_text g = concat (board g) @ [role_char (get_game_move g)] @ '' to move'' @ [CHR 0x0A]"

lemma unparse_text:
  "games w g = Some x \<Longrightarrow> mem (os w) = [] \<Longrightarrow> w_game_unparse_state (Some g) w = Some (Some (state_text x), w)"
  by (simp add: w_game_unparse_state_def game_unparse_state_def state_text_def)

lemma client_ref_unref:
  assumes "clients w c = Some v" and "c_ref_count v \<noteq> 0"
  shows "client_unref (Some c) (w\<lparr>clients := (clients w)(c := Some (v\<lparr>c_ref_count := c_ref_count v + 1\<rparr>))\<rparr>) = Some w"
proof -
  let ?v = "v\<lparr>c_ref_count := c_ref_count v + 1\<rparr>"
  have n: "c_ref_count v + 1 \<noteq> 1" "size_dec (c_ref_count v + 1) = c_ref_count v"
    using assms(2) by (simp_all add: size_dec_def)
  have same: "v\<lparr>c_ref_count := c_ref_count v\<rparr> = v" "w\<lparr>clients := (clients w)(c := Some v)\<rparr> = w"
    using assms(1) by (simp_all add: fun_upd_idem)
  have "client_unref (Some c) (w\<lparr>clients := (clients w)(c := Some ?v)\<rparr>) =
      Some (w\<lparr>clients := (clients w)(c := Some (v\<lparr>c_ref_count := c_ref_count v\<rparr>))\<rparr>)"
    using client_unref_count [of "w\<lparr>clients := (clients w)(c := Some ?v)\<rparr>" c ?v] n by (simp del: add_diff_cancel_right')
  then show ?thesis unfolding same .
qed

lemma game_ref_value: "games w g = Some x \<Longrightarrow> w_game_ref (Some g) w =
    Some (Some g, w\<lparr>games := (games w)(g := Some (x\<lparr>g_ref_count := g_ref_count x + 1\<rparr>))\<rparr>)"
  by (simp add: w_game_ref_def game_ref_def size_inc_def)

lemma game_ref_unref:
  assumes "games w g = Some x" and "g_ref_count x \<noteq> 0"
  shows "w_game_unref (Some g) (w\<lparr>games := (games w)(g := Some (x\<lparr>g_ref_count := g_ref_count x + 1\<rparr>))\<rparr>) = Some w"
proof -
  have n: "size_dec (g_ref_count x + 1) = g_ref_count x" using assms(2) by (simp add: size_dec_def)
  have "x\<lparr>g_ref_count := g_ref_count x\<rparr> = x" "w\<lparr>games := (games w)(g := Some x)\<rparr> = w"
    using assms(1) by (simp_all add: fun_upd_idem)
  then show ?thesis using n assms(2) by (simp add: w_game_unref_def game_unref_def)
qed

text \<open>The state with the invitation accepted.\<close>

definition accepted_state :: "nat \<Rightarrow> invitation \<Rightarrow> world \<Rightarrow> world" where
  "accepted_state i u w = w\<lparr>games := (games w)(next_addr w := Some new_game), next_addr := Suc (next_addr w),
     invs := (invs w)(i := Some (u\<lparr>inv_game := Some (next_addr w), inv_state := INV_ACCEPTED_STATE\<rparr>))\<rparr>"

lemma accept_refused:
  assumes "linked w i u c v k t tv j" and "inv_target u \<noteq> c \<or> inv_state u \<noteq> INV_OPEN_STATE" and "mem (os w) = []"
  shows "client_accept_invitation (Some c) k w = Some ((-1, None), w)"
proof -
  have u: "invs w i = Some u" "\<not> state_locked u" "i_ref_count u = 2" and T: "in_table w c v i k"
    using assms(1) by (simp_all add: linked_def)
  let ?w = "w\<lparr>invs := (invs w)(i := Some (u\<lparr>i_ref_count := 3\<rparr>))\<rparr>"
  have r: "inv_ref (Some i) w = Some (Some i, ?w)" using u(1,3) by (simp add: size_inc_def)
  have x: "inv_unref (Some i) ?w = Some w" using inv_ref_unref [OF u(1)] u(3) by simp
  have "inv_accept (Some i) ?w = Some (-1, ?w)" if "inv_state u \<noteq> INV_OPEN_STATE"
    using inv_accept_result [of ?w i "u\<lparr>i_ref_count := 3\<rparr>"] u(2) assms(3) that by simp
  then show ?thesis using assms(2) linked_slot(1) [OF T] r x
    by (cases "inv_target u = c") (auto simp: client_accept_invitation_def)
qed

lemma accept_done:
  assumes L: "linked w i u c v k t tv j" and E: "ends u c t" and "inv_target u = c" and "inv_state u = INV_OPEN_STATE"
    and m: "mem (os w) = []"
    and d: "data = (if src_role u = FIRST_PLAYER_ROLE then Some (bytes_of (state_text new_game)) else None)"
    and n: "len = (if src_role u = FIRST_PLAYER_ROLE then length (state_text new_game) else 0)"
  shows "\<exists>st o1. client_accept_invitation (Some c) k w =
      Some ((st, if src_role u = FIRST_PLAYER_ROLE then None else Some (state_text new_game)), (accepted_state i u w)\<lparr>os := o1\<rparr>) \<and>
    sent (c_fd tv) JEUX_ACCEPTED_PKT (int j) (src_role u) len data st (os w) o1"
proof -
  have u: "invs w i = Some u" "\<not> state_locked u" "i_ref_count u = 2" "c \<noteq> t" and T: "in_table w c v i k" and T': "in_table w t tv i j"
    using L by (simp_all add: linked_def)
  have src: "inv_src u = t" using E assms(3) u(4) by (auto simp: ends_def)
  let ?g = "next_addr w" and ?w0 = "w\<lparr>invs := (invs w)(i := Some (u\<lparr>i_ref_count := 3\<rparr>))\<rparr>"
  let ?w1 = "accepted_state i (u\<lparr>i_ref_count := 3\<rparr>) ?w0" and ?tv = "tv\<lparr>c_ref_count := c_ref_count tv + 1\<rparr>"
  let ?w2 = "?w1\<lparr>clients := (clients ?w1)(t := Some ?tv)\<rparr>"
  let ?w3 = "?w2\<lparr>games := (games ?w2)(?g := Some (new_game\<lparr>g_ref_count := g_ref_count new_game + 1\<rparr>))\<rparr>"
  let ?u = "u\<lparr>inv_game := Some ?g, inv_state := INV_ACCEPTED_STATE\<rparr>"
  let ?f = "accepted_state i u w"
  have 0: "inv_ref (Some i) w = Some (Some i, ?w0)" using u(1,3) by (simp add: size_inc_def)
  have 1: "inv_accept (Some i) ?w0 = Some (0, ?w1)"
    using inv_accept_result [of ?w0 i "u\<lparr>i_ref_count := 3\<rparr>"] u(2) m assms(4) by (simp add: accepted_state_def)
  have i1: "invs ?w1 i = Some (?u\<lparr>i_ref_count := 3\<rparr>)" "clients ?w1 t = Some tv" "games ?w1 ?g = Some new_game"
    using T' by (simp_all add: accepted_state_def in_table_def)
  have 2: "client_ref (Some t) ?w1 = Some (Some t, ?w2)" using i1(2) by (simp add: size_inc_def)
  have i2: "invs ?w2 i = Some (?u\<lparr>i_ref_count := 3\<rparr>)" "games ?w2 ?g = Some new_game" using i1 by simp_all
  have 3: "w_game_ref (Some ?g) ?w2 = Some (Some ?g, ?w3)" by (rule game_ref_value [OF i2(2)])
  have "mem (os ?w3) = []" using m by (simp add: accepted_state_def)
  then have 4: "w_game_unparse_state (Some ?g) ?w3 = Some (Some (state_text new_game), ?w3)"
    using unparse_text [of ?w3 ?g "new_game\<lparr>g_ref_count := g_ref_count new_game + 1\<rparr>"] by (simp add: state_text_def get_game_move_def)
  have 5: "w_game_unref (Some ?g) ?w3 = Some ?w2" by (rule game_ref_unref [OF i2(2)]) (simp add: new_game_def)
  have 6: "search_inv_lst_safe (Some t) (Some i) ?w2 = Some (int j)"
    using search_result [of ?w2 t ?tv i] T' by (simp add: in_table_def)
  let ?w4 = "?f\<lparr>clients := (clients ?f)(t := Some ?tv)\<rparr>"
  have same: "?u\<lparr>i_ref_count := 2\<rparr> = ?u" using u(3) by (cases u) simp
  have "inv_unref (Some i) ?w2 = Some (?w2\<lparr>invs := (invs ?w2)(i := Some (?u\<lparr>i_ref_count := 2\<rparr>))\<rparr>)"
    using inv_unref_count [OF i2(1)] by (simp add: size_dec_def)
  also have "\<dots> = Some ?w4" unfolding same by (simp add: accepted_state_def)
  finally have 7: "inv_unref (Some i) ?w2 = Some ?w4" .
  have tv4: "clients ?w4 t = Some ?tv" by simp
  have fits: "case data of None \<Rightarrow> True | Some b \<Rightarrow> len \<le> length b" using d n by (simp add: bytes_of_def)
  obtain st o1 where 8: "send_pkt (Some t) JEUX_ACCEPTED_PKT (int j) (src_role u) len data ?w4 = Some (st, ?w4\<lparr>os := o1\<rparr>)"
      "sent (c_fd ?tv) JEUX_ACCEPTED_PKT (int j) (src_role u) len data st (os ?w4) o1"
    using send_pkt_sent [OF tv4 fits] by blast
  have "clients (?f\<lparr>os := o1\<rparr>) t = Some tv" using T' by (simp add: accepted_state_def in_table_def)
  then have "client_unref (Some t) (?f\<lparr>os := o1, clients := (clients (?f\<lparr>os := o1\<rparr>))(t := Some ?tv)\<rparr>) = Some (?f\<lparr>os := o1\<rparr>)"
    by (rule client_ref_unref) (use T' in \<open>auto simp: in_table_def\<close>)
  moreover have "?f\<lparr>os := o1, clients := (clients (?f\<lparr>os := o1\<rparr>))(t := Some ?tv)\<rparr> = ?w4\<lparr>os := o1\<rparr>" by simp
  ultimately have 9: "client_unref (Some t) (?w4\<lparr>os := o1\<rparr>) = Some (?f\<lparr>os := o1\<rparr>)" by (simp only:)
  have "client_accept_invitation (Some c) k w =
      Some ((st, if src_role u = FIRST_PLAYER_ROLE then None else Some (state_text new_game)), ?f\<lparr>os := o1\<rparr>)"
    using linked_slot(1) [OF T] 0 1 i1(1) 2 3 4 5 6 7 8(1) 9 i2(1) assms(3) src d n u(3)
    by (cases "src_role u = FIRST_PLAYER_ROLE") (simp_all add: client_accept_invitation_def)
  moreover have "os ?w4 = os w" "c_fd ?tv = c_fd tv" by (simp_all add: accepted_state_def)
  then have "sent (c_fd tv) JEUX_ACCEPTED_PKT (int j) (src_role u) len data st (os w) o1" using 8(2) by (simp only:)
  ultimately show ?thesis by blast
qed

text \<open>C9: \<open>client_accept_invitation\<close>. Only the target can accept, and only while the invitation is open:
otherwise the state does not change. When it is open, a new game starts, in which nobody has moved, and
the invitation keeps it and both tables keep the invitation. The source is told, by its own identifier
and with its role; the player who moves first gets the board: the source in this packet, the target as
the result. The status is that of the packet.\<close>

theorem accept_correct:
  assumes "linked w i u c v k t tv j" and "ends u c t" and "mem (os w) = []"
  shows "(inv_target u \<noteq> c \<or> inv_state u \<noteq> INV_OPEN_STATE \<longrightarrow>
      client_accept_invitation (Some c) k w = Some ((-1, None), w)) \<and>
    (inv_target u = c \<and> inv_state u = INV_OPEN_STATE \<and> src_role u = FIRST_PLAYER_ROLE \<longrightarrow>
      (\<exists>st o1. client_accept_invitation (Some c) k w = Some ((st, None), (accepted_state i u w)\<lparr>os := o1\<rparr>) \<and>
        sent (c_fd tv) JEUX_ACCEPTED_PKT (int j) (src_role u) (length (state_text new_game))
          (Some (bytes_of (state_text new_game))) st (os w) o1)) \<and>
    (inv_target u = c \<and> inv_state u = INV_OPEN_STATE \<and> src_role u \<noteq> FIRST_PLAYER_ROLE \<longrightarrow>
      (\<exists>st o1. client_accept_invitation (Some c) k w =
          Some ((st, Some (state_text new_game)), (accepted_state i u w)\<lparr>os := o1\<rparr>) \<and>
        sent (c_fd tv) JEUX_ACCEPTED_PKT (int j) (src_role u) 0 None st (os w) o1))"
proof (intro conjI impI)
  show "client_accept_invitation (Some c) k w = Some ((-1, None), w)" if "inv_target u \<noteq> c \<or> inv_state u \<noteq> INV_OPEN_STATE"
    using accept_refused [OF assms(1) that assms(3)] .
  note d = accept_done [OF assms(1,2) _ _ assms(3) refl refl]
  show "\<exists>st o1. client_accept_invitation (Some c) k w = Some ((st, None), (accepted_state i u w)\<lparr>os := o1\<rparr>) \<and>
        sent (c_fd tv) JEUX_ACCEPTED_PKT (int j) (src_role u) (length (state_text new_game))
          (Some (bytes_of (state_text new_game))) st (os w) o1"
    if "inv_target u = c \<and> inv_state u = INV_OPEN_STATE \<and> src_role u = FIRST_PLAYER_ROLE"
    using d that by simp
  show "\<exists>st o1. client_accept_invitation (Some c) k w =
          Some ((st, Some (state_text new_game)), (accepted_state i u w)\<lparr>os := o1\<rparr>) \<and>
        sent (c_fd tv) JEUX_ACCEPTED_PKT (int j) (src_role u) 0 None st (os w) o1"
    if "inv_target u = c \<and> inv_state u = INV_OPEN_STATE \<and> src_role u \<noteq> FIRST_PLAYER_ROLE"
    using d that by simp
qed

theorem accept_correct_witness:
  "\<exists>st o1. client_accept_invitation (Some 2) 1 (paired INV_OPEN_STATE None) =
      Some ((st, None), (accepted_state 3 (sample_inv INV_OPEN_STATE None) (paired INV_OPEN_STATE None))\<lparr>os := o1\<rparr>) \<and>
    sent 5 JEUX_ACCEPTED_PKT 1 FIRST_PLAYER_ROLE (length (state_text new_game)) (Some (bytes_of (state_text new_game))) st
      (os (paired INV_OPEN_STATE None)) o1"
proof -
  have "mem (os (paired INV_OPEN_STATE None)) = []"
    by (simp add: paired_def duo_world_def blank_world_def idle_os_def)
  moreover have "inv_target (sample_inv INV_OPEN_STATE None) = 2" "inv_state (sample_inv INV_OPEN_STATE None) = INV_OPEN_STATE"
    "src_role (sample_inv INV_OPEN_STATE None) = FIRST_PLAYER_ROLE" by (simp_all add: sample_inv_def)
  ultimately show ?thesis using accept_correct [OF paired_linked(2,4), of INV_OPEN_STATE None] by simp
qed

subsection \<open>Resigning\<close>

text \<open>The role of a party, and the players after a result was posted for the game of \<open>a\<close>, who plays
\<open>role\<close>, against \<open>b\<close>.\<close>

definition role_in :: "invitation \<Rightarrow> nat \<Rightarrow> GAME_ROLE" where
  "role_in u c = (if inv_src u = c then src_role u else target_role u)"

definition scored :: "GAME_ROLE \<Rightarrow> nat \<Rightarrow> nat \<Rightarrow> GAME_ROLE \<Rightarrow> world \<Rightarrow> nat \<Rightarrow> player option" where
  "scored role a b win w =
    (let (p1, p2) = (if role = FIRST_PLAYER_ROLE then (a, b) else (b, a));
         (x1, x2) = post_result (the (players w p1)) (the (players w p2)) (role_code win)
     in (players w)(p1 := Some x1, p2 := Some x2))"

lemma post_scored:
  assumes "players w a \<noteq> None" and "players w b \<noteq> None" and "a \<noteq> b"
  shows "w_player_post_result (if role = FIRST_PLAYER_ROLE then Some a else Some b)
      (if role = FIRST_PLAYER_ROLE then Some b else Some a) (role_code win) w =
    Some (w\<lparr>players := scored role a b win w\<rparr>)"
  using assms by (auto simp: w_player_post_result_def scored_def Let_def split: prod.splits)

text \<open>Both parties play, each as a player of its own.\<close>

definition opponents :: "client \<Rightarrow> nat \<Rightarrow> client \<Rightarrow> nat \<Rightarrow> world \<Rightarrow> bool" where
  "opponents v a tv b w \<longleftrightarrow> c_player v = Some a \<and> c_player tv = Some b \<and> a \<noteq> b \<and>
     players w a \<noteq> None \<and> players w b \<noteq> None"

text \<open>The three packets of a resignation.\<close>

definition resign_packets :: "int \<Rightarrow> nat \<Rightarrow> int \<Rightarrow> nat \<Rightarrow> GAME_ROLE \<Rightarrow> int \<Rightarrow> os_state \<Rightarrow> os_state \<Rightarrow> bool" where
  "resign_packets fd k tfd j win st o1 o4 \<longleftrightarrow> (\<exists>s1 s2 o2 o3.
     sent tfd JEUX_RESIGNED_PKT (int j) NULL_ROLE 0 None s1 o1 o2 \<and>
     sent fd JEUX_ENDED_PKT (int k) win 0 None s2 o2 o3 \<and>
     sent tfd JEUX_ENDED_PKT (int j) win 0 None st o3 o4)"

lemma resign_tail_result:
  assumes u: "invs w i = Some u" "i_ref_count u = 1" "inv_game u = Some g" "games w g = Some x" "g_ref_count x = 1"
    and c: "clients w c = Some v" "c_ref_count v \<noteq> 1" and t: "clients w t = Some tv" "c_ref_count tv \<noteq> 1" "c_ref_count tv \<noteq> 2"
    and E: "ends u c t" "c \<noteq> t" and P: "opponents v a tv b w"
  shows "\<exists>st o4. resign_tail c k (Some i) role (Some t) (int j) w = Some (st, w\<lparr>os := o4, players := scored role a b (winner x) w,
      clients := (clients w)(c := Some (v\<lparr>c_ref_count := c_ref_count v - 1\<rparr>), t := Some (tv\<lparr>c_ref_count := c_ref_count tv - 1 - 1\<rparr>)),
      invs := (invs w)(i := None), games := (games w)(g := None)\<rparr>) \<and>
    resign_packets (c_fd v) k (c_fd tv) j (winner x) st (os w) o4"
proof -
  let ?win = "winner x"
  obtain s1 o2 where 1: "send_pkt (Some t) JEUX_RESIGNED_PKT (int j) NULL_ROLE 0 None w = Some (s1, w\<lparr>os := o2\<rparr>)"
      "sent (c_fd tv) JEUX_RESIGNED_PKT (int j) NULL_ROLE 0 None s1 (os w) o2"
    using send_pkt_sent [OF t(1), of 0 None JEUX_RESIGNED_PKT "int j" NULL_ROLE] by auto
  let ?w1 = "w\<lparr>os := o2\<rparr>"
  obtain s2 o3 where 2: "send_pkt (Some c) JEUX_ENDED_PKT (int k) ?win 0 None ?w1 = Some (s2, ?w1\<lparr>os := o3\<rparr>)"
      "sent (c_fd v) JEUX_ENDED_PKT (int k) ?win 0 None s2 o2 o3"
    using send_pkt_sent [of ?w1 c v 0 None JEUX_ENDED_PKT "int k" ?win] c(1) by auto
  let ?w2 = "?w1\<lparr>os := o3\<rparr>"
  obtain st o4 where 3: "send_pkt (Some t) JEUX_ENDED_PKT (int j) ?win 0 None ?w2 = Some (st, ?w2\<lparr>os := o4\<rparr>)"
      "sent (c_fd tv) JEUX_ENDED_PKT (int j) ?win 0 None st o3 o4"
    using send_pkt_sent [of ?w2 t tv 0 None JEUX_ENDED_PKT "int j" ?win] t(1) by auto
  let ?w3 = "w\<lparr>os := o4\<rparr>"
  have sc: "scored role a b ?win ?w3 = scored role a b ?win w" by (simp add: scored_def)
  let ?w4 = "?w3\<lparr>players := scored role a b ?win w\<rparr>"
  have 4: "w_player_post_result (if role = FIRST_PLAYER_ROLE then Some a else Some b)
      (if role = FIRST_PLAYER_ROLE then Some b else Some a) (role_code ?win) ?w3 = Some ?w4"
    using post_scored [of ?w3 a b role ?win] P unfolding sc by (simp add: opponents_def)
  let ?tv = "tv\<lparr>c_ref_count := c_ref_count tv - 1\<rparr>"
  let ?w5 = "?w4\<lparr>clients := (clients w)(t := Some ?tv)\<rparr>"
  have 5: "client_unref (Some t) ?w4 = Some ?w5"
    using client_unref_count [of ?w4 t tv] t by (simp add: size_dec_def)
  have n: "c_ref_count tv - 1 \<noteq> 1" using t(3) by (metis diff_eq_eq one_add_one)
  have "inv_unref (Some i) ?w5 = Some (?w5\<lparr>invs := (invs ?w5)(i := None), games := games_without u ?w5,
      clients := (clients ?w5)(c := Some (v\<lparr>c_ref_count := c_ref_count v - 1\<rparr>),
        t := Some (?tv\<lparr>c_ref_count := c_ref_count ?tv - 1\<rparr>))\<rparr>)"
    by (rule inv_unref_last [OF _ _ E]) (use u c E n in \<open>simp_all add: game_there_def\<close>)
  moreover have "resign_tail c k (Some i) role (Some t) (int j) w =
      (case inv_unref (Some i) ?w5 of None \<Rightarrow> None | Some w' \<Rightarrow> Some (st, w'))"
    using 1(1) 2(1) 3(1) 4 5 u c t P winner_value [of ?w1 g x]
    by (cases "role = FIRST_PLAYER_ROLE") (simp_all add: resign_tail_def opponents_def bind_eq_Some_conv split: option.splits)
  ultimately have "resign_tail c k (Some i) role (Some t) (int j) w = Some (st, w\<lparr>os := o4, players := scored role a b (winner x) w,
      clients := (clients w)(c := Some (v\<lparr>c_ref_count := c_ref_count v - 1\<rparr>), t := Some (tv\<lparr>c_ref_count := c_ref_count tv - 1 - 1\<rparr>)),
      invs := (invs w)(i := None), games := (games w)(g := None)\<rparr>)"
    using u(3-5) E(2) by (simp add: games_without_def game_unref_def size_dec_def fun_upd_twist)
  moreover have "resign_packets (c_fd v) k (c_fd tv) j ?win st (os w) o4"
    using 1(2) 2(2) 3(2) unfolding resign_packets_def by blast
  ultimately show ?thesis by blast
qed

text \<open>The invitation at the beginning of \<open>client_resign_game\<close>: a game that can be resigned.\<close>

definition playing :: "world \<Rightarrow> invitation \<Rightarrow> nat \<Rightarrow> game \<Rightarrow> bool" where
  "playing w u g x \<longleftrightarrow> inv_state u = INV_ACCEPTED_STATE \<and> inv_game u = Some g \<and> games w g = Some x \<and>
     g_ref_count x = 1 \<and> src_role u \<noteq> NULL_ROLE \<and> target_role u \<noteq> NULL_ROLE"

lemma resign_start:
  assumes L: "linked w i u c v k t tv j" and E: "ends u c t"
  shows "client_resign_game (Some c) k w =
    resign_as c k (Some i) (role_in u c) (Some t) (w\<lparr>invs := (invs w)(i := Some (u\<lparr>i_ref_count := 3\<rparr>))\<rparr>)"
proof -
  have u: "invs w i = Some u" "i_ref_count u = 2" "c \<noteq> t" and T: "in_table w c v i k"
    using L by (simp_all add: linked_def)
  then have "inv_ref (Some i) w = Some (Some i, w\<lparr>invs := (invs w)(i := Some (u\<lparr>i_ref_count := 3\<rparr>))\<rparr>)" by (simp add: size_inc_def)
  then show ?thesis using linked_slot(1) [OF T] E u(3) by (auto simp: client_resign_game_def role_in_def ends_def)
qed

lemma resign_refused:
  assumes L: "linked w i u c v k t tv j" and E: "ends u c t" and ok: "inv_ok u"
    and G: "\<forall>g. inv_game u = Some g \<longrightarrow> (\<exists>x. games w g = Some x \<and> over (abs_game x))" and "role_in u c \<noteq> NULL_ROLE"
  shows "client_resign_game (Some c) k w = Some (-1, w)"
proof -
  have u: "invs w i = Some u" "\<not> state_locked u" "i_ref_count u = 2" using L by (simp_all add: linked_def)
  let ?w = "w\<lparr>invs := (invs w)(i := Some (u\<lparr>i_ref_count := 3\<rparr>))\<rparr>"
  have x: "inv_unref (Some i) ?w = Some w" using inv_ref_unref [OF u(1)] u(3) by simp
  have "inv_close (Some i) (role_in u c) ?w = Some (-1, ?w)"
  proof (cases "inv_game u")
    case None
    then show ?thesis using inv_close_result [of ?w i "u\<lparr>i_ref_count := 3\<rparr>" undefined "role_in u c"] u(2) assms(5)
      by (cases "role_in u c") (simp_all add: Let_def)
  next
    case (Some g)
    then obtain x where "games w g = Some x" "over (abs_game x)" using G by auto
    then show ?thesis using inv_close_result [of ?w i "u\<lparr>i_ref_count := 3\<rparr>" x "role_in u c"] u(2) assms(5) Some
      by (cases "role_in u c") (simp_all add: Let_def)
  qed
  then show ?thesis using x by (simp add: resign_start [OF L E] resign_as_tail)
qed

lemma resign_done:
  assumes L: "linked w i u c v k t tv j" and E: "ends u c t" and G: "playing w u g x" "\<not> over (abs_game x)"
    and P: "opponents v a tv b w"
  shows "\<exists>st o1. client_resign_game (Some c) k w = Some (st, (without i c v k t tv j w)\<lparr>os := o1,
      players := scored (role_in u c) a b (opponent (role_in u c)) w, games := (games w)(g := None)\<rparr>) \<and>
    resign_packets (c_fd v) k (c_fd tv) j (opponent (role_in u c)) st (os w) o1"
proof -
  let ?r = "role_in u c" and ?u = "u\<lparr>i_ref_count := 3, inv_state := INV_CLOSED_STATE\<rparr>"
  let ?x = "x\<lparr>game_status := GAME_TERMINATED, winner := opponent (role_in u c)\<rparr>"
  let ?w0 = "w\<lparr>invs := (invs w)(i := Some (u\<lparr>i_ref_count := 3\<rparr>))\<rparr>"
  let ?w1 = "w\<lparr>invs := (invs w)(i := Some ?u), games := (games w)(g := Some ?x)\<rparr>"
  have u: "invs w i = Some u" "\<not> state_locked u" "i_ref_count u = 2" "c \<noteq> t" "in_table w c v i k" "in_table w t tv i j"
    using L by (simp_all add: linked_def)
  have g: "inv_game u = Some g" "games w g = Some x" "g_ref_count x = 1" "inv_state u = INV_ACCEPTED_STATE" "?r \<noteq> NULL_ROLE"
    using G(1) by (simp_all add: playing_def role_in_def)
  have 1: "inv_close (Some i) ?r ?w0 = Some (0, ?w1)"
    using inv_close_result [of ?w0 i "u\<lparr>i_ref_count := 3\<rparr>" x ?r] u(2) g G(2)
    by (cases ?r) (simp_all add: Let_def)
  let ?w4 = "unlinking i ?u c v k t tv j ?w1"
  have c1: "in_table ?w1 c v i k" "in_table ?w1 t tv i j" using u(5,6) by (simp_all add: in_table_def)
  obtain w2 w3 where 2: "client_remove_invitation (Some c) (Some i) ?w1 = Some (int k, w2)"
      "client_ref (Some t) w2 = Some (Some t, w3)" "client_remove_invitation (Some t) (Some i) w3 = Some (int j, ?w4)"
    using unlink [OF c1 u(4), of ?u] by auto
  let ?tv = "(cleared_slot j tv)\<lparr>c_ref_count := c_ref_count tv + 1\<rparr>"
  have f: "clients ?w4 c = Some (cleared_slot k v)" "clients ?w4 t = Some ?tv" "invs ?w4 i = Some (?u\<lparr>i_ref_count := 1\<rparr>)"
    "games ?w4 g = Some ?x" "os ?w4 = os w" "players ?w4 = players w"
    using u(4) by (simp_all add: unlinking_def)
  have nv: "c_ref_count (cleared_slot k v) \<noteq> 1" using u(5) by (auto simp: in_table_def)
  have nt: "c_ref_count tv \<noteq> 0" "c_ref_count tv \<noteq> 1" using u(6) by (auto simp: in_table_def)
  then have nt': "c_ref_count ?tv \<noteq> 1" "c_ref_count ?tv \<noteq> 2" by (simp_all add: eq_diff_eq [symmetric])
  have P4: "opponents (cleared_slot k v) a ?tv b ?w4" using P by (simp add: opponents_def f)
  have E4: "ends (?u\<lparr>i_ref_count := 1\<rparr>) c t" using E by (simp add: ends_def)
  have p4: "i_ref_count (?u\<lparr>i_ref_count := 1\<rparr>) = 1" "inv_game (?u\<lparr>i_ref_count := 1\<rparr>) = Some g" "g_ref_count ?x = 1"
    using g by simp_all
  from resign_tail_result [OF f(3) p4(1,2) f(4) p4(3) f(1) nv f(2) nt' E4 u(4) P4] obtain st o1 where
    5: "resign_tail c k (Some i) ?r (Some t) (int j) ?w4 = Some (st, ?w4\<lparr>os := o1,
      players := scored ?r a b (winner ?x) ?w4,
      clients := (clients ?w4)(c := Some ((cleared_slot k v)\<lparr>c_ref_count := c_ref_count (cleared_slot k v) - 1\<rparr>),
        t := Some (?tv\<lparr>c_ref_count := c_ref_count ?tv - 1 - 1\<rparr>)),
      invs := (invs ?w4)(i := None), games := (games ?w4)(g := None)\<rparr>)"
      "resign_packets (c_fd (cleared_slot k v)) k (c_fd ?tv) j (winner ?x) st (os ?w4) o1" by blast
  have s: "scored ?r a b (opponent ?r) ?w4 = scored ?r a b (opponent ?r) w" by (simp add: scored_def f(6))
  have "client_resign_game (Some c) k w = resign_tail c k (Some i) ?r (Some t) (int j) ?w4"
    using 1 2 by (simp add: resign_start [OF L E] resign_as_tail)
  also have "\<dots> = Some (st, (without i c v k t tv j w)\<lparr>os := o1, players := scored ?r a b (opponent ?r) w, games := (games w)(g := None)\<rparr>)"
    unfolding 5(1) using u(4) s by (simp add: unlinking_def without_def unlinked_def fun_upd_twist)
  finally show ?thesis using 5(2) f(5) by auto
qed

text \<open>C8: \<open>client_resign_game\<close>. Without a running game nothing changes. Otherwise the game and the invitation
disappear from both tables and are freed; the opponent of the client that resigns wins, whichever of the
two plays first; the ratings change by that result; the opponent is told of the resignation, and both
of the end of the game, each by its own identifier. The status is that of the last packet.\<close>

theorem resign_correct:
  assumes "linked w i u c v k t tv j" and "ends u c t" and "inv_ok u" and "role_in u c \<noteq> NULL_ROLE"
  shows "((\<forall>g. inv_game u = Some g \<longrightarrow> (\<exists>x. games w g = Some x \<and> over (abs_game x))) \<longrightarrow>
      client_resign_game (Some c) k w = Some (-1, w)) \<and>
    (playing w u g x \<and> \<not> over (abs_game x) \<and> opponents v a tv b w \<longrightarrow>
      (\<exists>st o1. client_resign_game (Some c) k w = Some (st, (without i c v k t tv j w)\<lparr>os := o1,
          players := scored (role_in u c) a b (opponent (role_in u c)) w, games := (games w)(g := None)\<rparr>) \<and>
        resign_packets (c_fd v) k (c_fd tv) j (opponent (role_in u c)) st (os w) o1))"
  using resign_refused [OF assms(1-3) _ assms(4)] resign_done [OF assms(1,2)] by blast

theorem resign_correct_witness:
  "\<exists>st o1. client_resign_game (Some 1) 1 (paired INV_ACCEPTED_STATE (Some 4)) =
      Some (st, (without 3 1 (party 5 7) 1 2 (party 6 8) 1 (paired INV_ACCEPTED_STATE (Some 4)))\<lparr>os := o1,
        players := scored FIRST_PLAYER_ROLE 7 8 SECOND_PLAYER_ROLE (paired INV_ACCEPTED_STATE (Some 4)),
        games := (games (paired INV_ACCEPTED_STATE (Some 4)))(4 := None)\<rparr>) \<and>
    resign_packets 5 1 6 1 SECOND_PLAYER_ROLE st (os (paired INV_ACCEPTED_STATE (Some 4))) o1"
proof -
  let ?u = "sample_inv INV_ACCEPTED_STATE (Some 4)" and ?w = "paired INV_ACCEPTED_STATE (Some 4)"
  have u: "inv_ok ?u" "role_in ?u 1 = FIRST_PLAYER_ROLE" by (simp_all add: inv_ok_def sample_inv_def role_in_def)
  have g: "playing ?w ?u 4 sample_game" "\<not> over (abs_game sample_game)"
    by (simp_all add: playing_def sample_inv_def paired_def duo_world_def sample_game_def abs_game_def)
  have p: "opponents (party 5 7) 7 (party 6 8) 8 ?w" by (simp add: opponents_def paired_def)
  have o: "opponent FIRST_PLAYER_ROLE = SECOND_PLAYER_ROLE" by (simp add: opponent_def)
  have "role_in ?u 1 \<noteq> NULL_ROLE" using u(2) by simp
  from resign_correct [OF paired_linked(1,3) u(1) this, of 4 sample_game 7 8] show ?thesis using g p by (simp add: u(2) o del: One_nat_def)
qed

end
