(* ===== verification/Invite_Effects.thy ===== *)
theory Invite_Effects
  imports Client_Effects
begin

text \<open>
  The exact effect of \<open>client_make_invitation\<close>: with room in both tables, with a full table of the
  source, and with a full table of the target, where the function reports success although there is no
  invitation.
\<close>

subsection \<open>A new invitation in the two tables\<close>

definition fresh_inv :: "nat \<Rightarrow> nat \<Rightarrow> GAME_ROLE \<Rightarrow> GAME_ROLE \<Rightarrow> invitation" where
  "fresh_inv s t srole trole = \<lparr>inv_src = s, inv_target = t, src_role = srole, target_role = trole, inv_game = None,
     inv_state = INV_OPEN_STATE, state_locked = False, i_ref_count = 2\<rparr>"

definition filled_slot :: "nat \<Rightarrow> nat \<Rightarrow> client \<Rightarrow> client" where
  "filled_slot i k v = (set_slot k (Some i) v)\<lparr>invs_len := invs_len v + 1\<rparr>"

definition invited_state :: "nat \<Rightarrow> nat \<Rightarrow> client \<Rightarrow> nat \<Rightarrow> nat \<Rightarrow> client \<Rightarrow> nat \<Rightarrow> GAME_ROLE \<Rightarrow> GAME_ROLE \<Rightarrow> world \<Rightarrow> world" where
  "invited_state i s sv k t tv j srole trole w = w\<lparr>invs := (invs w)(i := Some (fresh_inv s t srole trole)),
     clients := (clients w)(s := Some ((filled_slot i k sv)\<lparr>c_ref_count := c_ref_count sv + 1\<rparr>),
       t := Some ((filled_slot i j tv)\<lparr>c_ref_count := c_ref_count tv + 1\<rparr>)),
     next_addr := Suc (next_addr w)\<rparr>"

text \<open>The state after the invitation was created with \<open>n\<close> references.\<close>

definition created :: "nat \<Rightarrow> nat \<Rightarrow> client \<Rightarrow> nat \<Rightarrow> client \<Rightarrow> GAME_ROLE \<Rightarrow> GAME_ROLE \<Rightarrow> size_t \<Rightarrow> world \<Rightarrow> world" where
  "created i s sv t tv srole trole n w = w\<lparr>invs := (invs w)(i := Some ((fresh_inv s t srole trole)\<lparr>i_ref_count := n\<rparr>)),
     clients := (clients w)(s := Some (sv\<lparr>c_ref_count := c_ref_count sv + 1\<rparr>), t := Some (tv\<lparr>c_ref_count := c_ref_count tv + 1\<rparr>)),
     next_addr := Suc (next_addr w)\<rparr>"

text \<open>What the operation is called with: two clients that are logged in, and a memory that has room.\<close>

definition invitable :: "world \<Rightarrow> nat \<Rightarrow> client \<Rightarrow> nat \<Rightarrow> client \<Rightarrow> bool" where
  "invitable w s sv t tv \<longleftrightarrow> clients w s = Some sv \<and> clients w t = Some tv \<and> s \<noteq> t \<and> table_ok sv \<and> table_ok tv \<and>
     c_ref_count sv \<noteq> 0 \<and> c_ref_count tv \<noteq> 0 \<and> mem (os w) = [] \<and> invs w (next_addr w) = None \<and>
     Some (next_addr w) \<notin> set (invs_lst sv)"

lemma filled_slot_count: "filled_slot i k (v\<lparr>c_ref_count := n\<rparr>) = (filled_slot i k v)\<lparr>c_ref_count := n\<rparr>"
  by (simp add: filled_slot_def set_slot_def)

lemma added:
  assumes "clients w c = Some v" and "table_ok v" and "invs w i = Some u" and "find_idx (\<lambda>x. x = None) (invs_lst v) = Some k"
  shows "client_add_invitation (Some c) (Some i) w = Some (int k, w\<lparr>
      invs := (invs w)(i := Some (u\<lparr>i_ref_count := size_inc (i_ref_count u)\<rparr>)),
      clients := (clients w)(c := Some (filled_slot i k v))\<rparr>)"
  using insert_free(1) [OF assms] by (simp add: client_add_invitation_def filled_slot_def)

lemma create_result:
  assumes "invitable w s sv t tv" and "srole \<noteq> NULL_ROLE" and "trole \<noteq> NULL_ROLE"
  shows "inv_create (Some s) (Some t) srole trole w = Some (Some (next_addr w), created (next_addr w) s sv t tv srole trole 1 w)"
proof -
  have "clients w s = Some sv" "clients w t = Some tv" "mem (os w) = []" "invs w (next_addr w) = None" "s \<noteq> t"
    using assms(1) by (simp_all add: invitable_def)
  then show ?thesis
    using inv_create_result [of w s sv t tv srole trole] assms(2,3) by (simp add: created_def fresh_inv_def)
qed

text \<open>The new invitation disappears again with its last reference.\<close>

lemma created_unref:
  assumes "invitable w s sv t tv"
  shows "inv_unref (Some (next_addr w)) (created (next_addr w) s sv t tv srole trole 1 w) = Some (w\<lparr>next_addr := Suc (next_addr w)\<rparr>)"
proof -
  let ?n = "next_addr w" and ?w = "created (next_addr w) s sv t tv srole trole 1 w"
  let ?sv = "sv\<lparr>c_ref_count := c_ref_count sv + 1\<rparr>" and ?tv = "tv\<lparr>c_ref_count := c_ref_count tv + 1\<rparr>"
  have a: "clients w s = Some sv" "clients w t = Some tv" "s \<noteq> t" "c_ref_count sv \<noteq> 0" "c_ref_count tv \<noteq> 0" "invs w ?n = None"
    using assms by (simp_all add: invitable_def)
  have same: "?sv\<lparr>c_ref_count := c_ref_count ?sv - 1\<rparr> = sv" "?tv\<lparr>c_ref_count := c_ref_count ?tv - 1\<rparr> = tv" by simp_all
  have "inv_unref (Some ?n) ?w = Some (?w\<lparr>invs := (invs ?w)(?n := None),
      games := games_without ((fresh_inv s t srole trole)\<lparr>i_ref_count := 1\<rparr>) ?w,
      clients := (clients ?w)(s := Some (?sv\<lparr>c_ref_count := c_ref_count ?sv - 1\<rparr>), t := Some (?tv\<lparr>c_ref_count := c_ref_count ?tv - 1\<rparr>))\<rparr>)"
    by (rule inv_unref_last [OF _ _ _ a(3)]) (use a in \<open>simp_all add: created_def fresh_inv_def ends_def game_there_def\<close>)
  also have "\<dots> = Some (w\<lparr>next_addr := Suc ?n\<rparr>)"
    unfolding same using a by (simp add: created_def fresh_inv_def games_without_def fun_upd_idem)
  finally show ?thesis .
qed

subsection \<open>A full table\<close>

lemma make_source_full:
  assumes I: "invitable w s sv t tv" and R: "srole \<noteq> NULL_ROLE" "trole \<noteq> NULL_ROLE" and "None \<notin> set (invs_lst sv)"
  shows "client_make_invitation (Some s) (Some t) srole trole w = Some (-1, w\<lparr>next_addr := Suc (next_addr w)\<rparr>)"
proof -
  let ?w = "created (next_addr w) s sv t tv srole trole 1 w" and ?sv = "sv\<lparr>c_ref_count := c_ref_count sv + 1\<rparr>"
  have "clients ?w s = Some ?sv" "table_ok ?sv" "None \<notin> set (invs_lst ?sv)"
    using I assms(4) by (simp_all add: created_def invitable_def)
  then have "client_add_invitation (Some s) (Some (next_addr w)) ?w = Some (-1, ?w)"
    using insert_full [of ?w s ?sv] by (simp add: client_add_invitation_def)
  then show ?thesis using create_result [OF I R] created_unref [OF I] by (simp add: client_make_invitation_def)
qed

lemma filled_cleared:
  assumes "find_idx (\<lambda>x. x = None) (invs_lst v) = Some k"
  shows "(set_slot k None (filled_slot i k v))\<lparr>invs_len := invs_len (filled_slot i k v) - 1\<rparr> = v"
proof -
  have "(invs_lst v)[k := None] = invs_lst v" using find_idx_SomeD [OF assms] by (simp add: list_update_same_conv)
  then show ?thesis by (simp add: filled_slot_def set_slot_def)
qed

lemma filled_found:
  assumes "find_idx (\<lambda>x. x = None) (invs_lst v) = Some k" and "Some i \<notin> set (invs_lst v)" and "table_ok v"
  shows "find_idx (\<lambda>x. x = Some i) (invs_lst (filled_slot i k v)) = Some k" and "table_ok (filled_slot i k v)"
proof -
  show "find_idx (\<lambda>x. x = Some i) (invs_lst (filled_slot i k v)) = Some k"
    using inv_table.fill_search [OF assms(1,2)] by (simp add: filled_slot_def set_slot_def)
  have k: "k < length (invs_lst v)" "invs_lst v ! k = None" using find_idx_SomeD [OF assms(1)] by simp_all
  show "table_ok (filled_slot i k v)"
    using occupied_fill [OF k] assms(3) by (auto simp: table_ok_def filled_slot_def set_slot_def)
qed

lemma make_target_full:
  assumes I: "invitable w s sv t tv" and R: "srole \<noteq> NULL_ROLE" "trole \<noteq> NULL_ROLE"
    and k: "find_idx (\<lambda>x. x = None) (invs_lst sv) = Some k" and "None \<notin> set (invs_lst tv)"
  shows "client_make_invitation (Some s) (Some t) srole trole w = Some (int k, w\<lparr>next_addr := Suc (next_addr w)\<rparr>)"
proof -
  let ?n = "next_addr w" and ?f = "filled_slot (next_addr w) k sv"
  have a: "clients w s = Some sv" "clients w t = Some tv" "s \<noteq> t" "c_ref_count sv \<noteq> 0" "c_ref_count tv \<noteq> 0" "invs w ?n = None"
    "table_ok sv" "table_ok tv" "Some ?n \<notin> set (invs_lst sv)"
    using I by (simp_all add: invitable_def)
  let ?c = "\<lambda>m. created ?n s sv t tv srole trole m w" and ?sv = "sv\<lparr>c_ref_count := c_ref_count sv + 1\<rparr>"
  let ?tv = "tv\<lparr>c_ref_count := c_ref_count tv + 1\<rparr>" and ?s = "?f\<lparr>c_ref_count := c_ref_count sv + 1\<rparr>"
  let ?w = "\<lambda>m. (?c m)\<lparr>clients := (clients (?c m))(s := Some ?s)\<rparr>"
  have 1: "client_add_invitation (Some s) (Some ?n) (?c 1) = Some (int k, ?w 2)"
    using added [of "?c 1" s ?sv ?n] a k by (simp add: created_def size_inc_def filled_slot_count fun_upd_twist)
  have "clients (?w 2) t = Some ?tv" "table_ok ?tv" "None \<notin> set (invs_lst ?tv)"
    using a assms(5) by (simp_all add: created_def)
  then have 2: "client_add_invitation (Some t) (Some ?n) (?w 2) = Some (-1, ?w 2)"
    using insert_full [of "?w 2" t ?tv] by (simp add: client_add_invitation_def)
  have 3: "inv_unref (Some ?n) (?w 2) = Some (?w 1)"
    using inv_unref_count [of "?w 2" ?n "(fresh_inv s t srole trole)\<lparr>i_ref_count := 2\<rparr>"]
    by (simp add: created_def size_dec_def)
  let ?w4 = "w\<lparr>next_addr := Suc ?n, clients := (clients w)(s := Some ?f)\<rparr>"
  have fc: "c_ref_count ?f = c_ref_count sv" by (simp add: filled_slot_def set_slot_def)
  have same: "?s\<lparr>c_ref_count := c_ref_count ?s - 1\<rparr> = ?f" "?tv\<lparr>c_ref_count := c_ref_count ?tv - 1\<rparr> = tv"
    using fc by (cases ?f; simp)+
  have "inv_unref (Some ?n) (?w 1) = Some ((?w 1)\<lparr>invs := (invs (?w 1))(?n := None),
      games := games_without ((fresh_inv s t srole trole)\<lparr>i_ref_count := 1\<rparr>) (?w 1),
      clients := (clients (?w 1))(s := Some (?s\<lparr>c_ref_count := c_ref_count ?s - 1\<rparr>), t := Some (?tv\<lparr>c_ref_count := c_ref_count ?tv - 1\<rparr>))\<rparr>)"
    by (rule inv_unref_last [OF _ _ _ a(3)]) (use a in \<open>simp_all add: created_def fresh_inv_def ends_def game_there_def\<close>)
  also have "\<dots> = Some ?w4"
    unfolding same using a by (simp add: created_def fresh_inv_def games_without_def fun_upd_idem fun_upd_twist)
  finally have 4: "inv_unref (Some ?n) (?w 1) = Some ?w4" .
  have ff: "find_idx (\<lambda>x. x = Some ?n) (invs_lst ?s) = Some k" "table_ok ?s"
    using filled_found [OF k a(9,7)] by simp_all
  then have k': "k < length (invs_lst ?s)" "invs_lst ?s ! k = Some ?n" using find_idx_SomeD [OF ff(1)] by simp_all
  have ne: "invs_lst ?s \<noteq> []" "invs_len ?s \<noteq> 0" "take (invs_cap ?s) (invs_lst ?s) = invs_lst ?s"
    using ff(2) k' occupied_clear [of k "invs_lst ?s"] by (auto simp: table_ok_def)
  have s1: "clients (?w 1) s = Some ?s" by simp
  have "client_remove_invitation (Some s) (Some ?n) (?w 1) =
      Some (int k, ?w4\<lparr>clients := (clients ?w4)(s := Some ((set_slot k None ?f)\<lparr>invs_len := invs_len ?f - 1\<rparr>))\<rparr>)"
    unfolding client_remove_invitation_def remove_from_inv_lst_def using s1 ne ff(1) k'(2) 4 by simp
  then have 5: "client_remove_invitation (Some s) (Some ?n) (?w 1) = Some (int k, w\<lparr>next_addr := Suc ?n\<rparr>)"
    unfolding filled_cleared [OF k] using a(1) by (simp add: fun_upd_idem)
  show ?thesis using create_result [OF I R] 1 2 3 5 by (simp add: client_make_invitation_def)
qed

subsection \<open>The two parts of an invitation\<close>

text \<open>The function up to the point where it gives back its own reference: a status when it ends there, or
the invitation and its identifiers in the two tables.\<close>

definition make_opened :: "nat option \<Rightarrow> nat option \<Rightarrow> GAME_ROLE \<Rightarrow> GAME_ROLE \<Rightarrow> world \<Rightarrow>
    ((int + nat option \<times> int \<times> int) \<times> world) option" where
  "make_opened source target srole trole w = do {
     (new_inv, w) \<leftarrow> inv_create source target srole trole w;
     if new_inv = None then Some (Inl (-1), w)
     else do {
       (src_id, w) \<leftarrow> client_add_invitation source new_inv w;
       if src_id = -1 then do {
         w \<leftarrow> inv_unref new_inv w;
         Some (Inl src_id, w)
       }
       else do {
         (dst_id, w) \<leftarrow> client_add_invitation target new_inv w;
         if dst_id = -1 then do {
           w \<leftarrow> inv_unref new_inv w;
           (st, w) \<leftarrow> client_remove_invitation source new_inv w;
           Some (Inl st, w)
         }
         else do {
           w \<leftarrow> inv_unref new_inv w;
           Some (Inr (new_inv, src_id, dst_id), w)
         }
       }
     }
   }"

text \<open>The rest: the target is sent the invitation, whose role is read without a reference.\<close>

definition make_announced :: "nat option \<Rightarrow> nat option \<Rightarrow> nat option \<Rightarrow> int \<Rightarrow> int \<Rightarrow> world \<Rightarrow> (int \<times> world) option" where
  "make_announced source target new_inv src_id dst_id w = do {
     player_src \<leftarrow> client_get_player source w;
     (_, w) \<leftarrow> w_player_ref player_src w;
     role \<leftarrow> inv_get_target_role new_inv w;
     nm \<leftarrow> w_player_get_name player_src w;
     (st, w) \<leftarrow> send_pkt target JEUX_INVITED_PKT dst_id role (length nm) (Some (bytes_of nm)) w;
     if st = -1 then do {
       w \<leftarrow> w_player_unref player_src w;
       Some (-1, w)
     }
     else do {
       w \<leftarrow> w_player_unref player_src w;
       Some (src_id, w)
     }
   }"

lemma client_make_halves:
  "client_make_invitation source target srole trole w = do {
     (r, w) \<leftarrow> make_opened source target srole trole w;
     case r of Inl st \<Rightarrow> Some (st, w)
     | Inr (new_inv, src_id, dst_id) \<Rightarrow> make_announced source target new_inv src_id dst_id w
   }"
  unfolding client_make_invitation_def make_opened_def make_announced_def
  by (simp add: bind_assoc if_distrib [of "\<lambda>x. Option.bind x f" for f] case_prod_unfold cong: if_cong)

subsection \<open>Room in both tables\<close>

lemma open_done:
  assumes I: "invitable w s sv t tv" and R: "srole \<noteq> NULL_ROLE" "trole \<noteq> NULL_ROLE"
    and k: "find_idx (\<lambda>x. x = None) (invs_lst sv) = Some k" and j: "find_idx (\<lambda>x. x = None) (invs_lst tv) = Some j"
  shows "make_opened (Some s) (Some t) srole trole w =
    Some (Inr (Some (next_addr w), int k, int j), invited_state (next_addr w) s sv k t tv j srole trole w)"
proof -
  let ?n = "next_addr w" and ?sv = "sv\<lparr>c_ref_count := c_ref_count sv + 1\<rparr>" and ?tv = "tv\<lparr>c_ref_count := c_ref_count tv + 1\<rparr>"
  have i: "clients w s = Some sv" "clients w t = Some tv" "s \<noteq> t" "table_ok sv" "table_ok tv" "mem (os w) = []"
    using I by (simp_all add: invitable_def)
  let ?c = "\<lambda>m. created ?n s sv t tv srole trole m w"
  let ?w1 = "(?c 2)\<lparr>clients := (clients (?c 2))(s := Some (filled_slot ?n k ?sv))\<rparr>"
  let ?w2 = "\<lambda>m. (?c m)\<lparr>clients := (clients (?c m))(s := Some (filled_slot ?n k ?sv), t := Some (filled_slot ?n j ?tv))\<rparr>"
  let ?f = "invited_state ?n s sv k t tv j srole trole w"
  have 1: "client_add_invitation (Some s) (Some ?n) (?c 1) = Some (int k, ?w1)"
    using added [of "?c 1" s ?sv ?n] i k by (simp add: created_def size_inc_def fun_upd_twist)
  have 2: "client_add_invitation (Some t) (Some ?n) ?w1 = Some (int j, ?w2 3)"
    using added [of ?w1 t ?tv ?n] i j by (simp add: created_def size_inc_def fun_upd_twist)
  have "inv_unref (Some ?n) (?w2 3) = Some (?w2 2)"
    using inv_unref_count [of "?w2 3" ?n "(fresh_inv s t srole trole)\<lparr>i_ref_count := 3\<rparr>"]
    by (simp add: created_def size_dec_def)
  moreover have "(fresh_inv s t srole trole)\<lparr>i_ref_count := 2\<rparr> = fresh_inv s t srole trole" by (simp add: fresh_inv_def)
  then have "?w2 2 = ?f" using i(3) by (simp add: created_def invited_state_def filled_slot_count fun_upd_twist)
  ultimately have 3: "inv_unref (Some ?n) (?w2 3) = Some ?f" by simp
  show ?thesis using create_result [OF I R] 1 2 3 by (simp add: make_opened_def)
qed

lemma make_done:
  assumes I: "invitable w s sv t tv" and R: "srole \<noteq> NULL_ROLE" "trole \<noteq> NULL_ROLE"
    and k: "find_idx (\<lambda>x. x = None) (invs_lst sv) = Some k" and j: "find_idx (\<lambda>x. x = None) (invs_lst tv) = Some j"
    and p: "c_player sv = Some a" "players w a = Some p" "p_name p = Some nm" "p_ref_count p \<noteq> 0"
  shows "\<exists>st o1. client_make_invitation (Some s) (Some t) srole trole w =
      Some (if st = -1 then -1 else int k, (invited_state (next_addr w) s sv k t tv j srole trole w)\<lparr>os := o1\<rparr>) \<and>
    sent (c_fd tv) JEUX_INVITED_PKT (int j) trole (length nm) (Some (bytes_of nm)) st (os w) o1"
proof -
  let ?n = "next_addr w" and ?f = "invited_state (next_addr w) s sv k t tv j srole trole w"
  have i: "s \<noteq> t" using I by (simp add: invitable_def)
  let ?ps = "(players w)(a := Some (p\<lparr>p_ref_count := p_ref_count p + 1\<rparr>))"
  have f: "clients ?f s = Some ((filled_slot ?n k sv)\<lparr>c_ref_count := c_ref_count sv + 1\<rparr>)"
    "clients ?f t = Some ((filled_slot ?n j tv)\<lparr>c_ref_count := c_ref_count tv + 1\<rparr>)" "players ?f = players w"
    "invs ?f ?n = Some (fresh_inv s t srole trole)" "os ?f = os w"
    using i by (simp_all add: invited_state_def)
  have 4: "client_get_player (Some s) ?f = Some (Some a)" using f(1) p(1) by (simp add: client_get_player_def filled_slot_def set_slot_def)
  have 5: "w_player_ref (Some a) ?f = Some (Some a, ?f\<lparr>players := ?ps\<rparr>)" using player_ref_value [of ?f a p] f(3) p(2) by simp
  have 6: "w_player_get_name (Some a) (?f\<lparr>players := ?ps\<rparr>) = Some nm" using p(3) by simp
  have 7: "inv_get_target_role (Some ?n) (?f\<lparr>players := ?ps\<rparr>) = Some trole" using f(4) by (simp add: fresh_inv_def)
  obtain st o1 where 8: "send_pkt (Some t) JEUX_INVITED_PKT (int j) trole (length nm) (Some (bytes_of nm)) ?f = Some (st, ?f\<lparr>os := o1\<rparr>)"
      "sent (c_fd tv) JEUX_INVITED_PKT (int j) trole (length nm) (Some (bytes_of nm)) st (os w) o1"
    using send_pkt_sent [OF f(2), of "length nm" "Some (bytes_of nm)" JEUX_INVITED_PKT "int j" trole] f(5)
    by (auto simp: bytes_of_def filled_slot_def set_slot_def)
  have 9: "send_pkt (Some t) JEUX_INVITED_PKT (int j) trole (length nm) (Some (bytes_of nm)) (?f\<lparr>players := ?ps\<rparr>) =
      Some (st, ?f\<lparr>players := ?ps, os := o1\<rparr>)"
    unfolding send_pkt_players 8(1) by simp
  have "p\<lparr>p_ref_count := p_ref_count p\<rparr> = p" "(players w)(a := Some p) = players w" using p(2) by (simp_all add: fun_upd_idem)
  then have "w_player_unref (Some a) (?f\<lparr>players := ?ps, os := o1\<rparr>) = Some (?f\<lparr>players := players w, os := o1\<rparr>)"
    using player_unref_value [of "?f\<lparr>players := ?ps, os := o1\<rparr>" a "p\<lparr>p_ref_count := p_ref_count p + 1\<rparr>"] p(4) by simp
  moreover have "?f\<lparr>players := players w, os := o1\<rparr> = ?f\<lparr>os := o1\<rparr>" by (simp add: invited_state_def)
  ultimately have 10: "w_player_unref (Some a) (?f\<lparr>players := ?ps, os := o1\<rparr>) = Some (?f\<lparr>os := o1\<rparr>)" by simp
  have "client_make_invitation (Some s) (Some t) srole trole w = Some (if st = -1 then -1 else int k, ?f\<lparr>os := o1\<rparr>)"
    using open_done [OF I R k j] 4 5 6 7 9 10 by (simp add: client_make_halves make_announced_def)
  with 8(2) show ?thesis by blast
qed

subsection \<open>Properties\<close>

text \<open>C10: \<open>client_make_invitation\<close>. With room in both tables the new open invitation is put into the first
free slot of each table, with the two references of the tables and one more reference to each party; the
target is sent its own identifier, its role and the name of the source's player. The result is the
identifier of the source, unless the packet cannot be sent: then the result is -1, although the
invitation is there. When the table of the source is full the result is -1 and there is no invitation.\<close>

theorem make_invitation_correct:
  assumes "invitable w s sv t tv" and "srole \<noteq> NULL_ROLE" and "trole \<noteq> NULL_ROLE"
    and "c_player sv = Some a" and "players w a = Some p" and "p_name p = Some nm" and "p_ref_count p \<noteq> 0"
  shows "case find_idx (\<lambda>x. x = None) (invs_lst sv) of
      None \<Rightarrow> client_make_invitation (Some s) (Some t) srole trole w = Some (-1, w\<lparr>next_addr := Suc (next_addr w)\<rparr>)
    | Some k \<Rightarrow> (\<forall>j. find_idx (\<lambda>x. x = None) (invs_lst tv) = Some j \<longrightarrow>
        (\<exists>st o1. client_make_invitation (Some s) (Some t) srole trole w =
            Some (if st = -1 then -1 else int k, (invited_state (next_addr w) s sv k t tv j srole trole w)\<lparr>os := o1\<rparr>) \<and>
          sent (c_fd tv) JEUX_INVITED_PKT (int j) trole (length nm) (Some (bytes_of nm)) st (os w) o1))"
proof (cases "find_idx (\<lambda>x. x = None) (invs_lst sv)")
  case None
  then have "None \<notin> set (invs_lst sv)" using find_idx_eq_None [of None "invs_lst sv"] by simp
  then show ?thesis using None make_source_full [OF assms(1-3)] by simp
next
  case (Some k)
  then show ?thesis using make_done [OF assms(1-3) Some _ assms(4-7)] by simp
qed

text \<open>Two clients that are logged in, at the addresses 1 and 2; the table of the second may be full.\<close>

definition guest :: "int \<Rightarrow> nat \<Rightarrow> client" where
  "guest fd a = (sample_client fd)\<lparr>c_player := Some a\<rparr>"

definition crowded :: client where
  "crowded = (guest 6 8)\<lparr>invs_lst := replicate 4 (Some 3), invs_len := 4\<rparr>"

definition lounge :: "client \<Rightarrow> world" where
  "lounge tv = blank_world\<lparr>clients := [1 \<mapsto> guest 5 7, 2 \<mapsto> tv], players := [7 \<mapsto> ann], next_addr := 9\<rparr>"

lemma lounge_invitable:
  "invitable (lounge (guest 6 8)) 1 (guest 5 7) 2 (guest 6 8)" "invitable (lounge crowded) 1 (guest 5 7) 2 crowded"
  "find_idx (\<lambda>x. x = None) (invs_lst (guest fd a)) = Some 0"
proof -
  have "occupied (replicate 4 (Some 3 :: nat option)) = 4" "find_idx (\<lambda>x. x = None) (replicate 4 (None :: nat option)) = Some 0"
    by code_simp+
  then show "invitable (lounge (guest 6 8)) 1 (guest 5 7) 2 (guest 6 8)" "invitable (lounge crowded) 1 (guest 5 7) 2 crowded"
    "find_idx (\<lambda>x. x = None) (invs_lst (guest fd a)) = Some 0"
    by (simp_all add: invitable_def lounge_def guest_def sample_client_def crowded_def table_ok_def blank_world_def idle_os_def)
qed

theorem make_invitation_correct_witness:
  "\<exists>st o1. client_make_invitation (Some 1) (Some 2) FIRST_PLAYER_ROLE SECOND_PLAYER_ROLE (lounge (guest 6 8)) =
      Some (if st = -1 then -1 else int 0,
        (invited_state 9 1 (guest 5 7) 0 2 (guest 6 8) 0 FIRST_PLAYER_ROLE SECOND_PLAYER_ROLE (lounge (guest 6 8)))\<lparr>os := o1\<rparr>) \<and>
    sent 6 JEUX_INVITED_PKT (int 0) SECOND_PLAYER_ROLE (length ''ann'') (Some (bytes_of ''ann'')) st (os (lounge (guest 6 8))) o1"
proof -
  have a: "c_player (guest 5 7) = Some 7" "players (lounge (guest 6 8)) 7 = Some ann" "p_name ann = Some ''ann''" "p_ref_count ann \<noteq> 0"
    by (simp_all add: guest_def lounge_def ann_def)
  have n: "next_addr (lounge (guest 6 8)) = 9" "c_fd (guest 6 8) = 6" by (simp_all add: lounge_def guest_def sample_client_def)
  have r: "FIRST_PLAYER_ROLE \<noteq> NULL_ROLE" "SECOND_PLAYER_ROLE \<noteq> NULL_ROLE" by simp_all
  from make_invitation_correct [OF lounge_invitable(1) r a] show ?thesis
    unfolding lounge_invitable(3) n option.case by blast
qed

text \<open>C30: when the table of the target is full, \<open>client_make_invitation\<close> takes everything back, but returns
what \<open>client_remove_invitation\<close> returns: the index of the slot that was just cleared. The caller is told
that the invitation was made, under an identifier that stands for no invitation.\<close>

theorem make_invitation_target_full:
  assumes "invitable w s sv t tv" and "srole \<noteq> NULL_ROLE" and "trole \<noteq> NULL_ROLE"
    and "find_idx (\<lambda>x. x = None) (invs_lst sv) = Some k" and "None \<notin> set (invs_lst tv)"
  shows "client_make_invitation (Some s) (Some t) srole trole w = Some (int k, w\<lparr>next_addr := Suc (next_addr w)\<rparr>) \<and>
    read_slot s k (w\<lparr>next_addr := Suc (next_addr w)\<rparr>) = Some None"
  using make_target_full [OF assms] find_idx_SomeD [OF assms(4)] assms(1)
  by (simp add: invitable_def read_slot_def table_ok_def)

theorem make_invitation_target_full_witness:
  "client_make_invitation (Some 1) (Some 2) FIRST_PLAYER_ROLE SECOND_PLAYER_ROLE (lounge crowded) =
    Some (0, (lounge crowded)\<lparr>next_addr := 10\<rparr>)"
proof -
  have "None \<notin> set (invs_lst crowded)" "next_addr (lounge crowded) = 9" by (simp_all add: crowded_def lounge_def)
  then show ?thesis
    using make_invitation_target_full [OF lounge_invitable(2) _ _ lounge_invitable(3), of FIRST_PLAYER_ROLE SECOND_PLAYER_ROLE]
    by simp
qed

end
