(* ===== verification/Login_Race.thy ===== *)
theory Login_Race
  imports Client_Ops
begin

text \<open>
  A look inside \<open>client_login\<close>. Elsewhere the function is one atomic step, but it takes no lock over its
  two halves: the check that nobody is logged in under the name, and the store of the player. Here the
  halves are steps of their own, and two threads may interleave between them.
\<close>

definition login_check :: "nat option \<Rightarrow> nat option \<Rightarrow> world \<Rightarrow> (int \<times> world) option" where
  "login_check client player w =
    (case client of None \<Rightarrow> Some (-1, w)
     | Some c \<Rightarrow> do {
         cur \<leftarrow> client_get_player client w;
         if cur \<noteq> None then Some (-1, w)
         else do {
           nm \<leftarrow> w_player_get_name player w;
           (lookup_cli, w) \<leftarrow> creg_lookup nm w;
           if lookup_cli \<noteq> None then do {
             w \<leftarrow> client_unref lookup_cli w;
             Some (-1, w)
           }
           else Some (0, w)
         }
       })"

definition login_store :: "nat \<Rightarrow> nat option \<Rightarrow> world \<Rightarrow> (int \<times> world) option" where
  "login_store c player w = do {
     (r, w) \<leftarrow> w_player_ref player w;
     w \<leftarrow> client_set_player_safe c r w;
     Some (0, w)
   }"

text \<open>Without interleaving the two halves are \<open>client_login\<close>.\<close>

lemma client_login_halves:
  "client_login (Some c) player w = do {
     (st, w) \<leftarrow> login_check (Some c) player w;
     if st = -1 then Some (-1, w) else login_store c player w
   }"
  by (simp add: client_login_def login_check_def login_store_def split: option.split bind_splits prod.split)

lemma login_check_free:
  assumes "clients w c = Some v" and "c_player v = None" and "players w a = Some p" and "p_name p = Some nm"
    and "creg_lookup nm w = Some (None, w)"
  shows "login_check (Some c) (Some a) w = Some (0, w)"
  using assms by (simp add: login_check_def)

lemma login_store_state:
  assumes "clients w c = Some v" and "players w a = Some p"
  shows "login_store c (Some a) w = Some (0, login_state c a w)"
  using assms
  by (simp add: login_store_def w_player_ref_def client_set_player_safe_def player_ref_def login_state_def size_inc_def)

text \<open>C29: the race of two logins. Two clients that log in under the same free name both pass the check when
it comes before either store; both are logged in then, under one name, which \<open>client_login\<close> is there to
prevent. A result that is posted for a game between them takes the same mutex twice: it never returns.\<close>

theorem login_race:
  assumes "\<And>x. registered w x \<Longrightarrow> client_live w x" and "registered w c" and "registered w d" and "c \<noteq> d"
    and "clients w c = Some v" and "c_player v = None" and "clients w d = Some u" and "c_player u = None"
    and "players w a = Some p" and "p_name p = Some nm" and "\<forall>x. registered w x \<longrightarrow> \<not> logged_as w x nm"
  shows "\<exists>w1 w2 w3 w4. login_check (Some c) (Some a) w = Some (0, w1) \<and> login_check (Some d) (Some a) w1 = Some (0, w2) \<and>
    login_store c (Some a) w2 = Some (0, w3) \<and> login_store d (Some a) w3 = Some (0, w4) \<and>
    logged_as w4 c nm \<and> logged_as w4 d nm \<and> \<not> names_unique w4 \<and>
    (\<forall>r. w_player_post_result (Some a) (Some a) r w4 = None)"
proof -
  have lk: "creg_lookup nm w = Some (None, w)"
  proof (rule lookup_cases [of w nm])
    show "client_live w x" if "registered w x" for x using assms(1) that .
  next
    fix x y
    assume "registered w x" "logged_as w x nm"
    then show ?thesis using assms(11) by blast
  qed
  let ?w3 = "login_state c a w" and ?w4 = "login_state d a (login_state c a w)"
  let ?p = "p\<lparr>p_ref_count := p_ref_count p + 1\<rparr>"
  have 1: "login_check (Some c) (Some a) w = Some (0, w)" by (rule login_check_free [OF assms(5,6,9,10) lk])
  have 2: "login_check (Some d) (Some a) w = Some (0, w)" by (rule login_check_free [OF assms(7,8,9,10) lk])
  have 3: "login_store c (Some a) w = Some (0, ?w3)" by (rule login_store_state [OF assms(5,9)])
  have d: "clients ?w3 d = Some u" "players ?w3 a = Some ?p" "p_name ?p = Some nm"
    using assms(4,7,9,10) by (simp_all add: login_state_def)
  have 4: "login_store d (Some a) ?w3 = Some (0, ?w4)" by (rule login_store_state [OF d(1,2)])
  have as: "logged_as ?w4 c nm" "logged_as ?w4 d nm"
    using login_state_logged_as [OF d, of d nm] login_state_logged_as [OF d, of c nm]
      login_state_logged_as [OF assms(5,9,10), of c nm] assms(4) by simp_all
  moreover have "registered ?w4 c" "registered ?w4 d" using assms(2,3) by simp_all
  ultimately have "\<not> names_unique ?w4" using assms(4) unfolding names_unique_def by blast
  moreover have "w_player_post_result (Some a) (Some a) r ?w4 = None" for r by (simp add: w_player_post_result_def)
  ultimately show ?thesis using 1 2 3 4 as by blast
qed

theorem login_race_witness:
  "\<exists>w1 w2 w3 w4. login_check (Some 1) (Some 7) (lobby_world\<lparr>clients := [1 \<mapsto> sample_client 5, 2 \<mapsto> sample_client 6]\<rparr>) = Some (0, w1) \<and>
    login_check (Some 2) (Some 7) w1 = Some (0, w2) \<and> login_store 1 (Some 7) w2 = Some (0, w3) \<and>
    login_store 2 (Some 7) w3 = Some (0, w4) \<and> logged_as w4 1 ''ann'' \<and> logged_as w4 2 ''ann'' \<and> \<not> names_unique w4 \<and>
    (\<forall>r. w_player_post_result (Some 7) (Some 7) r w4 = None)"
proof -
  let ?w = "lobby_world\<lparr>clients := [1 \<mapsto> sample_client 5, 2 \<mapsto> sample_client 6]\<rparr>"
  have slots: "creg_slots ?w = [Some 1, Some 2, None, None]" by (simp add: creg_slots_def)
  have live: "client_live ?w x" if "registered ?w x" for x
    using that unfolding registered_def slots by (auto simp: client_live_def sample_client_def)
  have r: "registered ?w 1" "registered ?w 2" unfolding registered_def slots by simp_all
  have c: "clients ?w 1 = Some (sample_client 5)" "c_player (sample_client 5) = None"
    "clients ?w 2 = Some (sample_client 6)" "c_player (sample_client 6) = None"
    "players ?w 7 = Some ann" "p_name ann = Some ''ann''"
    by (simp_all add: sample_client_def ann_def)
  have free: "\<forall>x. registered ?w x \<longrightarrow> \<not> logged_as ?w x ''ann''" by (simp add: logged_as_def sample_client_def)
  have ne: "(1::nat) \<noteq> 2" by simp
  show ?thesis by (rule login_race [OF live r ne c free])
qed

end
