(* ===== verification/Move_Halves.thy ===== *)
theory Move_Halves
  imports Client_Effects
begin

text \<open>
  A look inside \<open>client_make_move\<close>: its statements up to the packet that tells the opponent the move, and
  the statements that follow, which ask whether the game is over. Between the two the thread holds no
  mutex, so another thread can run. The first half is taken at an invitation that other threads may refer
  to, too.
\<close>

subsection \<open>The two halves of a move\<close>

text \<open>What the first half leaves in the local variables: the status of a move that is refused, or the
invitation, the game, the role, the opponent, and the opponent's identifier of the invitation.\<close>

datatype move_half = Move_Refused int | Move_Sent "nat option" "nat option" GAME_ROLE "nat option" int

definition move_told ::
  "nat option \<Rightarrow> nat option \<Rightarrow> GAME_ROLE \<Rightarrow> nat option \<Rightarrow> world \<Rightarrow> (move_half \<times> world) option" where
  "move_told ip game role opponent_cli w = do {
     inv_id \<leftarrow> search_inv_lst_safe opponent_cli ip w;
     if inv_id = -1 then do {
       w \<leftarrow> client_unref opponent_cli w;
       w \<leftarrow> inv_unref ip w;
       w \<leftarrow> w_game_unref game w;
       Some (Move_Refused (-1), w)
     }
     else do {
       (txt, w) \<leftarrow> w_game_unparse_state game w;
       cur_game_state \<leftarrow> txt;
       (_, w) \<leftarrow> send_pkt opponent_cli JEUX_MOVED_PKT inv_id NULL_ROLE
                  (length cur_game_state) (Some (bytes_of cur_game_state)) w;
       Some (Move_Sent ip game role opponent_cli inv_id, w)
     }
   }"

definition client_make_move_sent ::
  "nat option \<Rightarrow> nat \<Rightarrow> string \<Rightarrow> world \<Rightarrow> (move_half \<times> world) option" where
  "client_make_move_sent client ident move w =
    (case client of None \<Rightarrow> Some (Move_Refused (-1), w)
     | Some c \<Rightarrow> do {
         ip \<leftarrow> read_slot c ident w;
         if ip = None then Some (Move_Refused (-1), w)
         else do {
           (_, w) \<leftarrow> inv_ref ip w;
           game \<leftarrow> inv_get_game ip w;
           if game = None then do { w \<leftarrow> inv_unref ip w; Some (Move_Refused (-1), w) }
           else do {
             (gref, w) \<leftarrow> w_game_ref game w;
             if gref = None then do { w \<leftarrow> inv_unref ip w; Some (Move_Refused (-1), w) }
             else do {
               source \<leftarrow> inv_get_source ip w;
               target \<leftarrow> inv_get_target ip w;
               srole \<leftarrow> inv_get_source_role ip w;
               trole \<leftarrow> inv_get_target_role ip w;
               let role = (if target = client then trole else if source = client then srole else NULL_ROLE);
               (gm, w) \<leftarrow> w_game_parse_move game role (Some move) w;
               if gm = None then do {
                 w \<leftarrow> inv_unref ip w;
                 w \<leftarrow> w_game_unref game w;
                 Some (Move_Refused (-1), w)
               }
               else do {
                 (st, w) \<leftarrow> w_game_apply_move game gm w;
                 if st = -1 then do {
                   w \<leftarrow> inv_unref ip w;
                   w \<leftarrow> w_game_unref game w;
                   Some (Move_Refused (-1), w)
                 }
                 else do {
                   let opponent_cli = (if source = client then target else source);
                   if opponent_cli = None then do {
                     w \<leftarrow> inv_unref ip w;
                     w \<leftarrow> w_game_unref game w;
                     Some (Move_Refused (-1), w)
                   }
                   else do {
                     (r, w) \<leftarrow> client_ref opponent_cli w;
                     if r = None then do {
                       w \<leftarrow> inv_unref ip w;
                       w \<leftarrow> w_game_unref game w;
                       Some (Move_Refused (-1), w)
                     }
                     else move_told ip game role opponent_cli w
                   }
                 }
               }
             }
           }
         }
       })"

definition client_make_move_end ::
  "nat option \<Rightarrow> nat \<Rightarrow> move_half \<Rightarrow> world \<Rightarrow> (int \<times> world) option" where
  "client_make_move_end client ident half w =
    (case half of Move_Refused st \<Rightarrow> Some (st, w)
     | Move_Sent ip game role opponent_cli inv_id \<Rightarrow> do {
         over \<leftarrow> w_game_is_over game w;
         w \<leftarrow> (if over then move_game_over client ident ip game role opponent_cli inv_id w
               else Some w);
         w \<leftarrow> inv_unref ip w;
         w \<leftarrow> client_unref opponent_cli w;
         w \<leftarrow> w_game_unref game w;
         Some (0, w)
       })"

text \<open>Without interleaving the two halves are \<open>client_make_move\<close>.\<close>

lemma move_made_halves:
  "move_made client ident ip game role opponent_cli w = do {
     (h, w) \<leftarrow> move_told ip game role opponent_cli w;
     client_make_move_end client ident h w
   }"
  by (simp add: move_made_def move_told_def client_make_move_end_def split: bind_splits prod.split)

lemma end_refused [simp]: "client_make_move_end client ident (Move_Refused st) w = Some (st, w)"
  by (simp add: client_make_move_end_def)

lemma client_make_move_halves:
  "client_make_move client ident move w = do {
     (h, w) \<leftarrow> client_make_move_sent client ident move w;
     client_make_move_end client ident h w
   }"
  unfolding client_make_move_def client_make_move_sent_def move_made_halves
  by (simp add: Let_def bind_assoc if_distrib [of "\<lambda>x. Option.bind x f" for f] case_prod_unfold
      option.case_distrib [of "\<lambda>x. Option.bind x f" for f] cong: if_cong option.case_cong)

subsection \<open>The beginning of a move\<close>

text \<open>The move that a text denotes for the player of a role, when there is one.\<close>

definition parsed_move :: "game \<Rightarrow> GAME_ROLE \<Rightarrow> string \<Rightarrow> game_move option" where
  "parsed_move x role str = fst (game_parse_move (Some x) role (Some str) [])"

lemma parse_value:
  assumes "games w g = Some x" and "mem (os w) = []"
  shows "w_game_parse_move (Some g) role (Some str) w = Some (parsed_move x role str, w)"
proof -
  obtain r m where r: "game_parse_move (Some x) role (Some str) [] = (r, m)" by fastforce
  then have "m = []" by (auto simp: game_parse_move_def Let_def split: if_splits)
  then show ?thesis using r assms by (simp add: w_game_parse_move_def parsed_move_def)
qed

lemma parsed_move_count: "parsed_move (x\<lparr>g_ref_count := n\<rparr>) = parsed_move x"
  by (simp add: parsed_move_def game_parse_move_def get_game_move_def fun_eq_iff)

lemma parsed_move_wf: "parsed_move x role str = Some mv \<Longrightarrow> wf_move mv \<and> gr mv = role"
  using game_parse_move_wf [of "Some x" role "Some str" "[]" mv] unfolding parsed_move_def by (metis prod.collapse)

lemma legal_move_count [simp]: "legal_move (x\<lparr>g_ref_count := n\<rparr>) mv = legal_move x mv"
  by (simp add: legal_move_def)

lemma moved_game_count: "moved_game (x\<lparr>g_ref_count := n\<rparr>) r k = (moved_game x r k)\<lparr>g_ref_count := n\<rparr>"
  by (simp add: moved_game_def Let_def)

text \<open>The state and the call that remain after the move was applied.\<close>

definition move_ready :: "nat \<Rightarrow> invitation \<Rightarrow> nat \<Rightarrow> client \<Rightarrow> nat \<Rightarrow> game \<Rightarrow> world \<Rightarrow> world" where
  "move_ready i u t tv g x w = w\<lparr>invs := (invs w)(i := Some (u\<lparr>i_ref_count := i_ref_count u + 1\<rparr>)),
     games := (games w)(g := Some (x\<lparr>g_ref_count := g_ref_count x + 1\<rparr>)),
     clients := (clients w)(t := Some (tv\<lparr>c_ref_count := c_ref_count tv + 1\<rparr>))\<rparr>"


text \<open>An invitation that both parties have in their tables, to which others may refer, too.\<close>

definition shared :: "world \<Rightarrow> nat \<Rightarrow> invitation \<Rightarrow> nat \<Rightarrow> client \<Rightarrow> nat \<Rightarrow> nat \<Rightarrow> client \<Rightarrow> nat \<Rightarrow> bool" where
  "shared w i u c v k t tv j \<longleftrightarrow> invs w i = Some u \<and> i_ref_count u \<noteq> 0 \<and> c \<noteq> t \<and>
     listed w c v i k \<and> listed w t tv i j"

lemma linked_shared: "linked w i u c v k t tv j \<Longrightarrow> shared w i u c v k t tv j"
  by (simp add: linked_def shared_def in_table_listed)

lemma move_sent_start:
  assumes L: "shared w i u c v k t tv j" and E: "ends u c t" and g: "inv_game u = Some g" "games w g = Some x"
    and nz: "g_ref_count x \<noteq> 0" and gi: "game_inv x" and m: "mem (os w) = []"
  shows "client_make_move_sent (Some c) k str w =
    (case parsed_move x (role_in u c) str of
       None \<Rightarrow> Some (Move_Refused (-1), w)
     | Some mv \<Rightarrow> if legal_move x mv
         then move_told (Some i) (Some g) (role_in u c) (Some t)
           (move_ready i u t tv g (moved_game x (role_in u c) (original_num mv - 1)) w)
         else Some (Move_Refused (-1), w))"
proof -
  let ?r = "role_in u c" and ?u = "u\<lparr>i_ref_count := i_ref_count u + 1\<rparr>" and ?x = "x\<lparr>g_ref_count := g_ref_count x + 1\<rparr>"
  have u: "invs w i = Some u" "i_ref_count u \<noteq> 0" "c \<noteq> t" and T: "listed w c v i k" and T': "clients w t = Some tv"
    using L by (simp_all add: shared_def listed_def)
  let ?w1 = "w\<lparr>invs := (invs w)(i := Some ?u)\<rparr>"
  let ?w2 = "?w1\<lparr>games := (games w)(g := Some ?x)\<rparr>"
  let ?w' = "w\<lparr>games := (games w)(g := Some ?x)\<rparr>"
  have 1: "inv_ref (Some i) w = Some (Some i, ?w1)" using u by (simp add: size_inc_def)
  have 2: "w_game_ref (Some g) ?w1 = Some (Some g, ?w2)" using game_ref_value [of ?w1 g x] g by simp
  have 3: "w_game_parse_move (Some g) ?r (Some str) ?w2 = Some (parsed_move x ?r str, ?w2)"
    using parse_value [of ?w2 g ?x] m by (simp add: parsed_move_count)
  have "?w2 = ?w'\<lparr>invs := (invs ?w')(i := Some ?u)\<rparr>" by simp
  then have "inv_unref (Some i) ?w2 = Some ?w'" using inv_ref_unref [of ?w' i u] u by (simp only: simp_thms) simp
  moreover have "w_game_unref (Some g) ?w' = Some w" by (rule game_ref_unref [OF g(2) nz])
  ultimately have x: "inv_unref (Some i) ?w2 = Some ?w'" "w_game_unref (Some g) ?w' = Some w" by blast+
  have role: "(if inv_target u = c then target_role u else if inv_src u = c then src_role u else NULL_ROLE) = ?r"
    "(if inv_src u = c then inv_target u else inv_src u) = t"
    using E u(3) by (auto simp: role_in_def ends_def)
  have gi': "game_inv ?x" using gi by simp
  note eqs = listed_slot(1) [OF T] 1 g(1) 2 3 x
  show ?thesis
  proof (cases "parsed_move x ?r str")
    case None
    then show ?thesis using eqs role(1) E u(3) by (auto simp: client_make_move_sent_def role_in_def ends_def Let_def)
  next
    case (Some mv)
    note wf = conjunct1 [OF parsed_move_wf [OF Some]] and r = conjunct2 [OF parsed_move_wf [OF Some]]
    show ?thesis
    proof (cases "legal_move x mv")
      case True
      let ?y = "moved_game x ?r (original_num mv - 1)"
      let ?w3 = "w\<lparr>invs := (invs w)(i := Some ?u), games := (games w)(g := Some (?y\<lparr>g_ref_count := g_ref_count x + 1\<rparr>))\<rparr>"
      have "game_apply_move (Some ?x) (Some mv) = Some (0, Some (?y\<lparr>g_ref_count := g_ref_count x + 1\<rparr>))"
        using game_apply_move_legal [OF gi' wf] True r by (simp add: moved_game_count)
      then have 4: "w_game_apply_move (Some g) (Some mv) ?w2 = Some (0, ?w3)" by (simp add: w_game_apply_move_def)
      have "g_ref_count ?y = g_ref_count x" by (simp add: moved_game_def Let_def)
      then have 5: "client_ref (Some t) ?w3 = Some (Some t, move_ready i u t tv g ?y w)"
        using T' by (simp add: move_ready_def size_inc_def)
      show ?thesis using eqs 4 5 Some True role E u(3) by (auto simp: client_make_move_sent_def role_in_def ends_def Let_def)
    next
      case False
      have "game_apply_move (Some ?x) (Some mv) = Some (-1, Some ?x)"
        using game_apply_move_illegal [OF gi' wf] False by simp
      then have "w_game_apply_move (Some g) (Some mv) ?w2 = Some (-1, ?w2)" by (simp add: w_game_apply_move_def)
      then show ?thesis using eqs Some False E u(3) by (auto simp: client_make_move_sent_def role_in_def ends_def Let_def)
    qed
  qed
qed

end
