(* ===== verification/Move_Effects.thy ===== *)
theory Move_Effects
  imports Move_Halves
begin

text \<open>
  The exact effect of \<open>client_make_move\<close>: a move that the game refuses changes nothing; a move that does
  not end the game changes the game and tells the opponent; a move that ends it also takes the
  invitation out of both tables, frees it and the game, posts the result and tells both clients.
\<close>

subsection \<open>Posting a result with both players referenced\<close>

lemma scored_refs:
  assumes p: "players w a = Some x" "players w b = Some y" "a \<noteq> b" and nz: "p_ref_count x \<noteq> 0" "p_ref_count y \<noteq> 0"
  shows "\<exists>w1 w2 w3 w4. w_player_ref (Some a) w = Some (Some a, w1) \<and> w_player_ref (Some b) w1 = Some (Some b, w2) \<and>
    w_player_post_result (if role = FIRST_PLAYER_ROLE then Some a else Some b)
      (if role = FIRST_PLAYER_ROLE then Some b else Some a) (role_code win) w2 = Some w3 \<and>
    w_player_unref (Some a) w3 = Some w4 \<and> w_player_unref (Some b) w4 = Some (w\<lparr>players := scored role a b win w\<rparr>) \<and>
    clients w1 = clients w"
proof -
  let ?x = "x\<lparr>p_ref_count := p_ref_count x + 1\<rparr>" and ?y = "y\<lparr>p_ref_count := p_ref_count y + 1\<rparr>"
  let ?w1 = "w\<lparr>players := (players w)(a := Some ?x)\<rparr>"
  let ?w2 = "w\<lparr>players := (players w)(a := Some ?x, b := Some ?y)\<rparr>"
  have r1: "w_player_ref (Some a) w = Some (Some a, ?w1)" by (rule player_ref_value [OF p(1)])
  have r2: "w_player_ref (Some b) ?w1 = Some (Some b, ?w2)" using player_ref_value [of ?w1 b y] p by simp
  have sc: "\<exists>r s. scored role a b win w = (players w)(a := Some (x\<lparr>rating := r\<rparr>), b := Some (y\<lparr>rating := s\<rparr>)) \<and>
      scored role a b win ?w2 = (players w)(a := Some (?x\<lparr>rating := r\<rparr>), b := Some (?y\<lparr>rating := s\<rparr>))"
  proof (cases "role = FIRST_PLAYER_ROLE")
    case True
    then show ?thesis using p by (auto simp: scored_def post_result_def Let_def)
  next
    case False
    then show ?thesis using p by (auto simp: scored_def post_result_def Let_def fun_upd_twist [OF p(3) [symmetric]])
  qed
  then obtain r s where rs: "scored role a b win w = (players w)(a := Some (x\<lparr>rating := r\<rparr>), b := Some (y\<lparr>rating := s\<rparr>))"
      "scored role a b win ?w2 = (players w)(a := Some (?x\<lparr>rating := r\<rparr>), b := Some (?y\<lparr>rating := s\<rparr>))" by blast
  let ?w3 = "w\<lparr>players := (players w)(a := Some (?x\<lparr>rating := r\<rparr>), b := Some (?y\<lparr>rating := s\<rparr>))\<rparr>"
  let ?w4 = "w\<lparr>players := (players w)(a := Some (x\<lparr>rating := r\<rparr>), b := Some (?y\<lparr>rating := s\<rparr>))\<rparr>"
  have 3: "w_player_post_result (if role = FIRST_PLAYER_ROLE then Some a else Some b)
      (if role = FIRST_PLAYER_ROLE then Some b else Some a) (role_code win) ?w2 = Some ?w3"
    using post_scored [of ?w2 a b role win] p(3) unfolding rs(2) by simp
  have u1: "w_player_unref (Some a) ?w3 = Some ?w4"
    using player_unref_value [of ?w3 a "?x\<lparr>rating := r\<rparr>"] p(3) nz(1) by (simp add: fun_upd_twist)
  have u2: "w_player_unref (Some b) ?w4 = Some (w\<lparr>players := scored role a b win w\<rparr>)"
    using player_unref_value [of ?w4 b "?y\<lparr>rating := s\<rparr>"] p(3) nz(2) unfolding rs(1) by simp
  show ?thesis
    by (intro exI [of _ ?w1] exI [of _ ?w2] exI [of _ ?w3] exI [of _ ?w4]) (use r1 r2 3 u1 u2 in simp)
qed

subsection \<open>The beginning of a move\<close>

lemma move_start:
  assumes L: "linked w i u c v k t tv j" and E: "ends u c t" and G: "playing w u g x" and gi: "game_inv x"
    and m: "mem (os w) = []"
  shows "client_make_move (Some c) k str w =
    (case parsed_move x (role_in u c) str of
       None \<Rightarrow> Some (-1, w)
     | Some mv \<Rightarrow> if legal_move x mv
         then move_made (Some c) k (Some i) (Some g) (role_in u c) (Some t)
           (move_ready i u t tv g (moved_game x (role_in u c) (original_num mv - 1)) w)
         else Some (-1, w))"
proof -
  have g: "inv_game u = Some g" "games w g = Some x" "g_ref_count x \<noteq> 0" using G by (simp_all add: playing_def)
  show ?thesis
    using move_sent_start [OF linked_shared [OF L] E g gi m, of str]
    by (simp add: client_make_move_halves move_made_halves split: option.split)
qed

subsection \<open>A move that does not end the game\<close>

lemma move_ready_frame:
  assumes "shared w i u c v k t tv j" and "mem (os w) = []"
  shows "invs (move_ready i u t tv g x w) i = Some (u\<lparr>i_ref_count := i_ref_count u + 1\<rparr>)"
    and "games (move_ready i u t tv g x w) g = Some (x\<lparr>g_ref_count := g_ref_count x + 1\<rparr>)"
    and "clients (move_ready i u t tv g x w) t = Some (tv\<lparr>c_ref_count := c_ref_count tv + 1\<rparr>)"
    and "clients (move_ready i u t tv g x w) c = Some v"
    and "os (move_ready i u t tv g x w) = os w" and "players (move_ready i u t tv g x w) = players w"
    and "search_inv_lst_safe (Some t) (Some i) (move_ready i u t tv g x w) = Some (int j)"
    and "w_game_unparse_state (Some g) (move_ready i u t tv g x w) = Some (Some (state_text x), move_ready i u t tv g x w)"
    and "w_game_is_over (Some g) ((move_ready i u t tv g x w)\<lparr>os := o1\<rparr>) = Some (over (abs_game x))"
proof -
  let ?w = "move_ready i u t tv g x w"
  show f: "invs ?w i = Some (u\<lparr>i_ref_count := i_ref_count u + 1\<rparr>)" "games ?w g = Some (x\<lparr>g_ref_count := g_ref_count x + 1\<rparr>)"
    "clients ?w t = Some (tv\<lparr>c_ref_count := c_ref_count tv + 1\<rparr>)" "clients ?w c = Some v" "os ?w = os w" "players ?w = players w"
    using assms(1) by (simp_all add: move_ready_def shared_def listed_def)
  show "search_inv_lst_safe (Some t) (Some i) ?w = Some (int j)"
    using search_result [OF f(3), of i] assms(1) by (simp add: shared_def listed_def)
  have "state_text (x\<lparr>g_ref_count := n\<rparr>) = state_text x" for n by (simp add: state_text_def get_game_move_def)
  then show "w_game_unparse_state (Some g) ?w = Some (Some (state_text x), ?w)"
    using unparse_text [OF f(2)] assms(2) f(5) by simp
  show "w_game_is_over (Some g) (?w\<lparr>os := o1\<rparr>) = Some (over (abs_game x))"
    using f(2) by (simp add: w_game_is_over_def game_is_over_def get_game_status_def abs_game_def)
qed

lemma move_told_result:
  assumes L: "shared w i u c v k t tv j" and m: "mem (os w) = []"
  shows "\<exists>s1 o1. move_told (Some i) (Some g) role (Some t) (move_ready i u t tv g y w) =
      Some (Move_Sent (Some i) (Some g) role (Some t) (int j), (move_ready i u t tv g y w)\<lparr>os := o1\<rparr>) \<and>
    sent (c_fd tv) JEUX_MOVED_PKT (int j) NULL_ROLE (length (state_text y)) (Some (bytes_of (state_text y))) s1 (os w) o1"
proof -
  let ?w = "move_ready i u t tv g y w" and ?tv = "tv\<lparr>c_ref_count := c_ref_count tv + 1\<rparr>"
  note f = move_ready_frame [OF L m, where g = g and x = y]
  obtain s1 o1 where 1: "send_pkt (Some t) JEUX_MOVED_PKT (int j) NULL_ROLE (length (state_text y)) (Some (bytes_of (state_text y))) ?w =
      Some (s1, ?w\<lparr>os := o1\<rparr>)"
      "sent (c_fd ?tv) JEUX_MOVED_PKT (int j) NULL_ROLE (length (state_text y)) (Some (bytes_of (state_text y))) s1 (os ?w) o1"
    using send_pkt_sent [OF f(3), of "length (state_text y)" "Some (bytes_of (state_text y))" JEUX_MOVED_PKT "int j" NULL_ROLE]
    by (auto simp: bytes_of_def)
  show ?thesis using f(7,8) 1 f(5) by (simp add: move_told_def) blast
qed

lemma move_goes_on:
  assumes L: "linked w i u c v k t tv j" and y: "g_ref_count y = 1" "\<not> over (abs_game y)" and m: "mem (os w) = []"
  shows "\<exists>s1 o1. move_made (Some c) k (Some i) (Some g) role (Some t) (move_ready i u t tv g y w) =
      Some (0, w\<lparr>games := (games w)(g := Some y), os := o1\<rparr>) \<and>
    sent (c_fd tv) JEUX_MOVED_PKT (int j) NULL_ROLE (length (state_text y)) (Some (bytes_of (state_text y))) s1 (os w) o1"
proof -
  let ?w = "move_ready i u t tv g y w" and ?tv = "tv\<lparr>c_ref_count := c_ref_count tv + 1\<rparr>"
  note f = move_ready_frame [OF linked_shared [OF L] m, where g = g and x = y]
  have u: "invs w i = Some u" "i_ref_count u = 2" and T: "clients w t = Some tv" "c_ref_count tv \<noteq> 0"
    using L by (auto simp: linked_def in_table_def)
  obtain s1 o1 where 1: "move_told (Some i) (Some g) role (Some t) ?w =
      Some (Move_Sent (Some i) (Some g) role (Some t) (int j), ?w\<lparr>os := o1\<rparr>)"
      "sent (c_fd tv) JEUX_MOVED_PKT (int j) NULL_ROLE (length (state_text y)) (Some (bytes_of (state_text y))) s1 (os w) o1"
    using move_told_result [OF linked_shared [OF L] m] by blast
  let ?g = "w\<lparr>games := (games w)(g := Some (y\<lparr>g_ref_count := 2\<rparr>)), os := o1\<rparr>"
  let ?c = "?g\<lparr>clients := (clients w)(t := Some ?tv)\<rparr>"
  have su: "u\<lparr>i_ref_count := 2\<rparr> = u" using u(2) by (cases u) simp
  have i1: "invs (?w\<lparr>os := o1\<rparr>) i = Some (u\<lparr>i_ref_count := 3\<rparr>)" using f(1) u(2) by simp
  have "inv_unref (Some i) (?w\<lparr>os := o1\<rparr>) = Some (?w\<lparr>os := o1, invs := (invs (?w\<lparr>os := o1\<rparr>))(i := Some (u\<lparr>i_ref_count := 2\<rparr>))\<rparr>)"
    using inv_unref_count [OF i1] by (simp add: size_dec_def)
  also have "\<dots> = Some ?c" unfolding su using u(1) y(1) by (simp add: move_ready_def fun_upd_idem)
  finally have 2: "inv_unref (Some i) (?w\<lparr>os := o1\<rparr>) = Some ?c" .
  have 3: "client_unref (Some t) ?c = Some ?g" using client_ref_unref [of ?g t tv] T by simp
  have sy: "y\<lparr>g_ref_count := 1\<rparr> = y" using y(1) by (cases y) simp
  have 4: "w_game_unref (Some g) ?g = Some (w\<lparr>games := (games w)(g := Some y), os := o1\<rparr>)"
    by (simp add: w_game_unref_def game_unref_def size_dec_def sy y(1))
  have "move_made (Some c) k (Some i) (Some g) role (Some t) ?w = Some (0, w\<lparr>games := (games w)(g := Some y), os := o1\<rparr>)"
    using 1(1) f(9) y(2) 2 3 4 by (simp add: move_made_halves client_make_move_end_def)
  then show ?thesis using 1(2) by blast
qed

subsection \<open>A move that ends the game\<close>

text \<open>The three packets of the last move: the board to the opponent, and the end of the game to both.\<close>

definition last_move_packets :: "int \<Rightarrow> nat \<Rightarrow> int \<Rightarrow> nat \<Rightarrow> game \<Rightarrow> os_state \<Rightarrow> os_state \<Rightarrow> bool" where
  "last_move_packets fd k tfd j y o1 o4 \<longleftrightarrow> (\<exists>s1 s2 s3 o2 o3.
     sent tfd JEUX_MOVED_PKT (int j) NULL_ROLE (length (state_text y)) (Some (bytes_of (state_text y))) s1 o1 o2 \<and>
     sent fd JEUX_ENDED_PKT (int k) (winner y) 0 None s2 o2 o3 \<and>
     sent tfd JEUX_ENDED_PKT (int j) (winner y) 0 None s3 o3 o4)"

text \<open>\<open>move_game_over\<close> from a state in which the operation holds a reference to each structure.\<close>

lemma game_over_result:
  assumes c: "clients w c = Some v" "table_ok v" "find_idx (\<lambda>x. x = Some i) (invs_lst v) = Some k"
    and t: "clients w t = Some tv" "table_ok tv" "find_idx (\<lambda>x. x = Some i) (invs_lst tv) = Some j" and ct: "c \<noteq> t"
    and u: "invs w i = Some u" "i_ref_count u \<noteq> 1" "i_ref_count u \<noteq> 2" and g: "games w g = Some y"
    and P: "opponents v a tv b w" "players w a = Some x1" "players w b = Some x2" "p_ref_count x1 \<noteq> 0" "p_ref_count x2 \<noteq> 0"
    and role: "role \<noteq> NULL_ROLE"
  shows "\<exists>s2 s3 o3 o4. move_game_over (Some c) k (Some i) (Some g) role (Some t) (int j) w = Some (w\<lparr>os := o4,
      invs := (invs w)(i := Some (u\<lparr>i_ref_count := i_ref_count u - 2\<rparr>)),
      clients := (clients w)(c := Some (cleared_slot k v), t := Some (cleared_slot j tv)),
      players := scored role a b (winner y) w\<rparr>) \<and>
    sent (c_fd v) JEUX_ENDED_PKT (int k) (winner y) 0 None s2 (os w) o3 \<and>
    sent (c_fd tv) JEUX_ENDED_PKT (int j) (winner y) 0 None s3 o3 o4"
proof -
  obtain s2 o3 where 1: "send_pkt (Some c) JEUX_ENDED_PKT (int k) (winner y) 0 None w = Some (s2, w\<lparr>os := o3\<rparr>)"
      "sent (c_fd v) JEUX_ENDED_PKT (int k) (winner y) 0 None s2 (os w) o3"
    using send_pkt_sent [OF c(1), of 0 None JEUX_ENDED_PKT "int k" "winner y"] by auto
  obtain s3 o4 where 2: "send_pkt (Some t) JEUX_ENDED_PKT (int j) (winner y) 0 None (w\<lparr>os := o3\<rparr>) = Some (s3, w\<lparr>os := o3, os := o4\<rparr>)"
      "sent (c_fd tv) JEUX_ENDED_PKT (int j) (winner y) 0 None s3 o3 o4"
    using send_pkt_sent [of "w\<lparr>os := o3\<rparr>" t tv 0 None JEUX_ENDED_PKT "int j" "winner y"] t(1) by auto
  let ?w2 = "w\<lparr>os := o4\<rparr>"
  let ?w3 = "?w2\<lparr>invs := (invs w)(i := Some (u\<lparr>i_ref_count := i_ref_count u - 1\<rparr>)), clients := (clients w)(c := Some (cleared_slot k v))\<rparr>"
  let ?w4 = "?w2\<lparr>invs := (invs w)(i := Some (u\<lparr>i_ref_count := i_ref_count u - 2\<rparr>)),
    clients := (clients w)(c := Some (cleared_slot k v), t := Some (cleared_slot j tv))\<rparr>"
  have n: "i_ref_count u - 1 \<noteq> 1" "i_ref_count u - 1 - 1 = i_ref_count u - 2"
    using u(3) by (auto simp: eq_diff_eq [symmetric])
  have 3: "client_remove_invitation (Some c) (Some i) ?w2 = Some (int k, ?w3)"
    using removed [of ?w2 c v i k u] c u by (simp add: size_dec_def)
  have 4: "client_remove_invitation (Some t) (Some i) ?w3 = Some (int j, ?w4)"
    using removed [of ?w3 t tv i j "u\<lparr>i_ref_count := i_ref_count u - 1\<rparr>"] t ct n by (simp add: size_dec_def)
  have pl: "players ?w4 a = Some x1" "players ?w4 b = Some x2" "a \<noteq> b" using P by (simp_all add: opponents_def)
  obtain w5 w6 w7 w8 where 5: "w_player_ref (Some a) ?w4 = Some (Some a, w5)" "w_player_ref (Some b) w5 = Some (Some b, w6)"
      "w_player_post_result (if role = FIRST_PLAYER_ROLE then Some a else Some b)
        (if role = FIRST_PLAYER_ROLE then Some b else Some a) (role_code (winner y)) w6 = Some w7"
      "w_player_unref (Some a) w7 = Some w8" "w_player_unref (Some b) w8 = Some (?w4\<lparr>players := scored role a b (winner y) ?w4\<rparr>)"
      "clients w5 = clients ?w4"
    using scored_refs [OF pl P(4,5), of role "winner y"] by blast
  have cp: "client_get_player (Some c) ?w4 = Some (Some a)" "client_get_player (Some t) w5 = Some (Some b)"
    using P(1) ct 5(6) by (simp_all add: opponents_def client_get_player_def)
  have sc: "scored role a b (winner y) ?w4 = scored role a b (winner y) w" by (simp add: scored_def)
  have win: "w_game_get_winner (Some g) w = Some (winner y)" by (rule winner_value [OF g])
  have "move_game_over (Some c) k (Some i) (Some g) role (Some t) (int j) w = Some (?w4\<lparr>players := scored role a b (winner y) w\<rparr>)"
    using win 1(1) 2(1) 3 4 cp 5(1-5) role unfolding sc
    by (cases role) (simp_all add: move_game_over_def)
  then show ?thesis using 1(2) 2(2) by auto
qed

lemma move_ends:
  assumes L: "linked w i u c v k t tv j" and E: "ends u c t" and y: "inv_game u = Some g" "g_ref_count y = 1" "over (abs_game y)"
    and m: "mem (os w) = []" and role: "role \<noteq> NULL_ROLE"
    and P: "opponents v a tv b w" "players w a = Some x1" "players w b = Some x2" "p_ref_count x1 \<noteq> 0" "p_ref_count x2 \<noteq> 0"
  shows "\<exists>o1. move_made (Some c) k (Some i) (Some g) role (Some t) (move_ready i u t tv g y w) =
      Some (0, (without i c v k t tv j w)\<lparr>os := o1, players := scored role a b (winner y) w, games := (games w)(g := None)\<rparr>) \<and>
    last_move_packets (c_fd v) k (c_fd tv) j y (os w) o1"
proof -
  let ?w = "move_ready i u t tv g y w" and ?tv = "tv\<lparr>c_ref_count := c_ref_count tv + 1\<rparr>"
  note f = move_ready_frame [OF linked_shared [OF L] m, where g = g and x = y]
  have c: "c \<noteq> t" "table_ok v" "find_idx (\<lambda>x. x = Some i) (invs_lst v) = Some k" "table_ok ?tv"
      "find_idx (\<lambda>x. x = Some i) (invs_lst ?tv) = Some j"
    and n: "c_ref_count v \<noteq> 1" "c_ref_count tv \<noteq> 0" "c_ref_count tv \<noteq> 1"
    using L by (auto simp: linked_def in_table_def)
  have cu: "i_ref_count u = 2" using L by (simp add: linked_def)
  obtain s1 o2 where 1: "move_told (Some i) (Some g) role (Some t) ?w =
      Some (Move_Sent (Some i) (Some g) role (Some t) (int j), ?w\<lparr>os := o2\<rparr>)"
      "sent (c_fd tv) JEUX_MOVED_PKT (int j) NULL_ROLE (length (state_text y)) (Some (bytes_of (state_text y))) s1 (os w) o2"
    using move_told_result [OF linked_shared [OF L] m] by blast
  let ?w1 = "?w\<lparr>os := o2\<rparr>"
  have f1: "clients ?w1 c = Some v" "clients ?w1 t = Some ?tv" "invs ?w1 i = Some (u\<lparr>i_ref_count := 3\<rparr>)" "i_ref_count (u\<lparr>i_ref_count := 3\<rparr>) \<noteq> 1" "i_ref_count (u\<lparr>i_ref_count := 3\<rparr>) \<noteq> 2"
    "games ?w1 g = Some (y\<lparr>g_ref_count := 2\<rparr>)" "opponents v a ?tv b ?w1" "players ?w1 a = Some x1" "players ?w1 b = Some x2"
    using f P cu y(2) by (simp_all add: opponents_def)
  from game_over_result [OF f1(1) c(2,3) f1(2) c(4,5) c(1) f1(3-9) P(4,5) role] obtain s2 s3 o3 o4 where
    2: "move_game_over (Some c) k (Some i) (Some g) role (Some t) (int j) ?w1 = Some (?w1\<lparr>os := o4,
      invs := (invs ?w1)(i := Some (u\<lparr>i_ref_count := 3, i_ref_count := i_ref_count (u\<lparr>i_ref_count := 3\<rparr>) - 2\<rparr>)),
      clients := (clients ?w1)(c := Some (cleared_slot k v), t := Some (cleared_slot j ?tv)),
      players := scored role a b (winner (y\<lparr>g_ref_count := 2\<rparr>)) ?w1\<rparr>)"
    "sent (c_fd v) JEUX_ENDED_PKT (int k) (winner (y\<lparr>g_ref_count := 2\<rparr>)) 0 None s2 (os ?w1) o3"
    "sent (c_fd ?tv) JEUX_ENDED_PKT (int j) (winner (y\<lparr>g_ref_count := 2\<rparr>)) 0 None s3 o3 o4" by blast
  have sc: "scored role a b (winner y) ?w1 = scored role a b (winner y) w" using f(6) by (simp add: scored_def)
  let ?t = "(cleared_slot j tv)\<lparr>c_ref_count := c_ref_count tv + 1\<rparr>"
  let ?w2 = "w\<lparr>os := o4, invs := (invs w)(i := Some (u\<lparr>i_ref_count := 1\<rparr>)), games := (games w)(g := Some (y\<lparr>g_ref_count := 2\<rparr>)),
      clients := (clients w)(c := Some (cleared_slot k v), t := Some ?t), players := scored role a b (winner y) w\<rparr>"
  have "move_game_over (Some c) k (Some i) (Some g) role (Some t) (int j) ?w1 = Some ?w2"
    unfolding 2(1) using sc c(1) y(2) by (simp add: move_ready_def cleared_slot_count fun_upd_twist)
  note over = this
  let ?w3 = "w\<lparr>os := o4, invs := (invs w)(i := None), games := (games w)(g := Some y),
      clients := (clients w)(c := Some (unlinked k v), t := Some (cleared_slot j tv)), players := scored role a b (winner y) w\<rparr>"
  have sy: "y\<lparr>g_ref_count := 1\<rparr> = y" using y(2) by (cases y) simp
  have "inv_unref (Some i) ?w2 = Some (?w2\<lparr>invs := (invs ?w2)(i := None), games := games_without (u\<lparr>i_ref_count := 1\<rparr>) ?w2,
      clients := (clients ?w2)(c := Some ((cleared_slot k v)\<lparr>c_ref_count := c_ref_count (cleared_slot k v) - 1\<rparr>),
        t := Some (?t\<lparr>c_ref_count := c_ref_count ?t - 1\<rparr>))\<rparr>)"
    by (rule inv_unref_last [OF _ _ _ c(1)]) (use E c(1) n y(1) in \<open>simp_all add: ends_def game_there_def\<close>)
  also have "\<dots> = Some ?w3"
    using y(1,2) c(1) by (simp add: games_without_def game_unref_def size_dec_def sy unlinked_def fun_upd_twist)
  finally have 3: "inv_unref (Some i) ?w2 = Some ?w3" .
  let ?w4 = "(without i c v k t tv j w)\<lparr>os := o4, players := scored role a b (winner y) w, games := (games w)(g := Some y)\<rparr>"
  have 4: "client_unref (Some t) ?w3 = Some ?w4"
    using client_unref_count [of ?w3 t "cleared_slot j tv"] n by (simp add: size_dec_def without_def unlinked_def)
  let ?w5 = "(without i c v k t tv j w)\<lparr>os := o4, players := scored role a b (winner y) w, games := (games w)(g := None)\<rparr>"
  have 5: "w_game_unref (Some g) ?w4 = Some ?w5"
    using y(2) by (simp add: w_game_unref_def game_unref_def size_dec_def)
  have "move_made (Some c) k (Some i) (Some g) role (Some t) ?w = Some (0, ?w5)"
    using 1(1) f(9) y(3) over 3 4 5 by (simp add: move_made_halves client_make_move_end_def)
  moreover have "sent (c_fd tv) JEUX_MOVED_PKT (int j) NULL_ROLE (length (state_text y)) (Some (bytes_of (state_text y))) s1 (os w) o2"
    "sent (c_fd v) JEUX_ENDED_PKT (int k) (winner y) 0 None s2 o2 o3" "sent (c_fd tv) JEUX_ENDED_PKT (int j) (winner y) 0 None s3 o3 o4"
    using 1(2) 2(2,3) f(5) by simp_all
  then have "last_move_packets (c_fd v) k (c_fd tv) j y (os w) o4" unfolding last_move_packets_def by blast
  ultimately show ?thesis by blast
qed

subsection \<open>Properties\<close>

text \<open>C7: \<open>client_make_move\<close>, for an invitation in the tables of both parties that has a game. A text that denotes no move of this client's role, or a move that the rules do
not allow, changes nothing. Otherwise the game gets the move and the opponent is sent the new board, by
its own identifier. If the game is over with this move, then in addition the invitation and the game
disappear, the ratings change by the result, and both clients are told the winner, each by its own
identifier. The status is 0 even when a packet cannot be sent.\<close>

theorem move_correct:
  assumes L: "linked w i u c v k t tv j" and E: "ends u c t" and G: "playing w u g x" "game_inv x"
    and m: "mem (os w) = []" and P: "opponents v a tv b w" and R: "players_ok w"
    and y: "\<And>mv. y mv = moved_game x (role_in u c) (original_num mv - 1)"
  shows "case parsed_move x (role_in u c) str of
      None \<Rightarrow> client_make_move (Some c) k str w = Some (-1, w)
    | Some mv \<Rightarrow>
        if \<not> legal_move x mv then client_make_move (Some c) k str w = Some (-1, w)
        else if over (abs_game (y mv)) then
          (\<exists>o1. client_make_move (Some c) k str w = Some (0, (without i c v k t tv j w)\<lparr>os := o1,
              players := scored (role_in u c) a b (winner (y mv)) w, games := (games w)(g := None)\<rparr>) \<and>
            last_move_packets (c_fd v) k (c_fd tv) j (y mv) (os w) o1)
        else (\<exists>s1 o1. client_make_move (Some c) k str w = Some (0, w\<lparr>games := (games w)(g := Some (y mv)), os := o1\<rparr>) \<and>
          sent (c_fd tv) JEUX_MOVED_PKT (int j) NULL_ROLE (length (state_text (y mv))) (Some (bytes_of (state_text (y mv))))
            s1 (os w) o1)"
proof -
  note st = move_start [OF L E G m, of str]
  have g: "inv_game u = Some g" "g_ref_count x = 1" "role_in u c \<noteq> NULL_ROLE"
    using G(1) by (simp_all add: playing_def role_in_def)
  have cnt: "g_ref_count (y mv) = 1" for mv using g(2) by (simp add: y moved_game_def Let_def)
  obtain x1 x2 where p: "players w a = Some x1" "players w b = Some x2" using P by (auto simp: opponents_def)
  have nz: "p_ref_count x1 \<noteq> 0" "p_ref_count x2 \<noteq> 0" using R p unfolding players_ok_def by blast+
  show ?thesis
  proof (cases "parsed_move x (role_in u c) str")
    case None
    then show ?thesis using st by simp
  next
    case (Some mv)
    then have made: "client_make_move (Some c) k str w = (if legal_move x mv
        then move_made (Some c) k (Some i) (Some g) (role_in u c) (Some t) (move_ready i u t tv g (y mv) w) else Some (-1, w))"
      using st by (simp add: y)
    show ?thesis
      using move_ends [OF L E g(1) cnt _ m g(3) P p nz, of mv] move_goes_on [OF L cnt _ m, of mv g "role_in u c"] Some made
      by (cases "legal_move x mv"; cases "over (abs_game (y mv))") simp_all
  qed
qed

theorem move_correct_witness:
  "\<exists>s1 o1. client_make_move (Some 2) 1 ''7'' (paired INV_ACCEPTED_STATE (Some 4)) = Some (-1, paired INV_ACCEPTED_STATE (Some 4)) \<and>
    client_make_move (Some 1) 1 ''7'' (paired INV_ACCEPTED_STATE (Some 4)) =
      Some (0, (paired INV_ACCEPTED_STATE (Some 4))\<lparr>games := (games (paired INV_ACCEPTED_STATE (Some 4)))
        (4 := Some (moved_game sample_game FIRST_PLAYER_ROLE 6)), os := o1\<rparr>) \<and>
    sent 6 JEUX_MOVED_PKT 1 NULL_ROLE (length (state_text (moved_game sample_game FIRST_PLAYER_ROLE 6)))
      (Some (bytes_of (state_text (moved_game sample_game FIRST_PLAYER_ROLE 6)))) s1 (os (paired INV_ACCEPTED_STATE (Some 4))) o1"
proof -
  let ?u = "sample_inv INV_ACCEPTED_STATE (Some 4)" and ?w = "paired INV_ACCEPTED_STATE (Some 4)"
  have u: "role_in ?u 1 = FIRST_PLAYER_ROLE" "role_in ?u 2 = SECOND_PLAYER_ROLE" by (simp_all add: sample_inv_def role_in_def)
  have g: "playing ?w ?u 4 sample_game"
    by (simp add: playing_def sample_inv_def paired_def duo_world_def sample_game_def)
  have p: "opponents (party 5 7) 7 (party 6 8) 8 ?w" "opponents (party 6 8) 8 (party 5 7) 7 ?w" by (simp_all add: opponents_def paired_def)
  have m: "mem (os ?w) = []" by (simp add: paired_def duo_world_def blank_world_def idle_os_def)
  have po: "players_ok ?w"
    by (auto simp: players_ok_def paired_def duo_world_def ann_def player_of_def sample_inv_def split: if_splits)
  have r: "parsed_move sample_game SECOND_PLAYER_ROLE ''7'' = None" by code_simp
  obtain mv where mv: "parsed_move sample_game FIRST_PLAYER_ROLE ''7'' = Some mv" "legal_move sample_game mv"
      "original_num mv = 7" "\<not> over (abs_game (moved_game sample_game FIRST_PLAYER_ROLE 6))"
  proof
    show "parsed_move sample_game FIRST_PLAYER_ROLE ''7'' = Some \<lparr>gr = FIRST_PLAYER_ROLE, i_coord = 4, j_coord = 0, original_num = 7\<rparr>"
      by code_simp
    show "legal_move sample_game \<lparr>gr = FIRST_PLAYER_ROLE, i_coord = 4, j_coord = 0, original_num = 7\<rparr>" by code_simp
    show "\<not> over (abs_game (moved_game sample_game FIRST_PLAYER_ROLE 6))" by code_simp
  qed simp
  show ?thesis
    using move_correct [OF paired_linked(2,4) g sample_game_inv(1) m p(2) po refl, of "''7''"]
      move_correct [OF paired_linked(1,3) g sample_game_inv(1) m p(1) po refl, of "''7''"] r mv u
    by (simp del: One_nat_def)
qed

end
