(* ===== verification/Move_Race.thy ===== *)
theory Move_Race
  imports Move_Effects
begin

text \<open>
  Two moves that overlap. The opponent is told the move before the thread of the mover asks whether the
  game is over, so the answer of the opponent, handled by another thread, can end the game in between.
\<close>

subsection \<open>The second end of a game\<close>

text \<open>\<open>move_game_over\<close> when the invitation is not in the tables any more.\<close>

lemma game_over_again:
  assumes c: "clients w c = Some v" "table_ok v" "Some i \<notin> set (invs_lst v)"
    and t: "clients w t = Some tv" "table_ok tv" "Some i \<notin> set (invs_lst tv)" and g: "games w g = Some y"
    and P: "opponents v a tv b w" "players w a = Some x1" "players w b = Some x2" "p_ref_count x1 \<noteq> 0" "p_ref_count x2 \<noteq> 0"
    and role: "role \<noteq> NULL_ROLE"
  shows "\<exists>s2 s3 o3 o4. move_game_over (Some c) k (Some i) (Some g) role (Some t) (int j) w =
      Some (w\<lparr>os := o4, players := scored role a b (winner y) w\<rparr>) \<and>
    sent (c_fd v) JEUX_ENDED_PKT (int k) (winner y) 0 None s2 (os w) o3 \<and>
    sent (c_fd tv) JEUX_ENDED_PKT (int j) (winner y) 0 None s3 o3 o4"
proof -
  obtain s2 o3 where 1: "send_pkt (Some c) JEUX_ENDED_PKT (int k) (winner y) 0 None w = Some (s2, w\<lparr>os := o3\<rparr>)"
      "sent (c_fd v) JEUX_ENDED_PKT (int k) (winner y) 0 None s2 (os w) o3"
    using send_pkt_sent [OF c(1), of 0 None JEUX_ENDED_PKT "int k" "winner y"] by auto
  obtain s3 o4 where 2: "send_pkt (Some t) JEUX_ENDED_PKT (int j) (winner y) 0 None (w\<lparr>os := o3\<rparr>) = Some (s3, w\<lparr>os := o3, os := o4\<rparr>)"
      "sent (c_fd tv) JEUX_ENDED_PKT (int j) (winner y) 0 None s3 o3 o4"
    using send_pkt_sent [of "w\<lparr>os := o3\<rparr>" t tv 0 None JEUX_ENDED_PKT "int j" "winner y"] t(1) by auto
  let ?w = "w\<lparr>os := o4\<rparr>"
  have 3: "client_remove_invitation (Some c) (Some i) ?w = Some (-1, ?w)" "client_remove_invitation (Some t) (Some i) ?w = Some (-1, ?w)"
    using remove_missing [of ?w] c t by (simp_all add: client_remove_invitation_def)
  have pl: "players ?w a = Some x1" "players ?w b = Some x2" "a \<noteq> b" using P by (simp_all add: opponents_def)
  obtain w5 w6 w7 w8 where 5: "w_player_ref (Some a) ?w = Some (Some a, w5)" "w_player_ref (Some b) w5 = Some (Some b, w6)"
      "w_player_post_result (if role = FIRST_PLAYER_ROLE then Some a else Some b)
        (if role = FIRST_PLAYER_ROLE then Some b else Some a) (role_code (winner y)) w6 = Some w7"
      "w_player_unref (Some a) w7 = Some w8" "w_player_unref (Some b) w8 = Some (?w\<lparr>players := scored role a b (winner y) ?w\<rparr>)"
      "clients w5 = clients ?w"
    using scored_refs [OF pl P(4,5), of role "winner y"] by blast
  have cp: "client_get_player (Some c) ?w = Some (Some a)" "client_get_player (Some t) w5 = Some (Some b)"
    using P(1) c(1) t(1) 5(6) by (simp_all add: opponents_def client_get_player_def)
  have sc: "scored role a b (winner y) ?w = scored role a b (winner y) w" by (simp add: scored_def)
  have "move_game_over (Some c) k (Some i) (Some g) role (Some t) (int j) w = Some (?w\<lparr>players := scored role a b (winner y) w\<rparr>)"
    using winner_value [OF g] 1(1) 2(1) 3 cp 5(1-5) role unfolding sc
    by (cases role) (simp_all add: move_game_over_def)
  then show ?thesis using 1(2) 2(2) by auto
qed

subsection \<open>The three parts of the race\<close>

text \<open>The state after the answer of the opponent: the references of the first mover are still held.\<close>

definition raced :: "nat \<Rightarrow> invitation \<Rightarrow> nat \<Rightarrow> client \<Rightarrow> nat \<Rightarrow> nat \<Rightarrow> client \<Rightarrow> nat \<Rightarrow> nat \<Rightarrow> game \<Rightarrow> (nat \<Rightarrow> player option) \<Rightarrow>
    os_state \<Rightarrow> world \<Rightarrow> world" where
  "raced i u c v k t tv j g y m o1 w = w\<lparr>invs := (invs w)(i := Some (u\<lparr>i_ref_count := 1\<rparr>)),
     games := (games w)(g := Some (y\<lparr>g_ref_count := 2\<rparr>)),
     clients := (clients w)(c := Some (cleared_slot k v), t := Some ((cleared_slot j tv)\<lparr>c_ref_count := c_ref_count tv + 1\<rparr>)),
     players := m, os := o1\<rparr>"

text \<open>The opponent answers with a move that ends the game.\<close>

lemma answer_ends:
  assumes L: "linked w i u c v k t tv j" and E: "ends u c t" and y: "inv_game u = Some g" "g_ref_count y = 1" "game_inv y"
    and m: "mem (os w) = []" and role: "role_in u t \<noteq> NULL_ROLE"
    and P: "opponents v a tv b w" "players w a = Some x1" "players w b = Some x2" "p_ref_count x1 \<noteq> 0" "p_ref_count x2 \<noteq> 0"
    and mv: "parsed_move y (role_in u t) str = Some mv" "legal_move y mv"
    and z: "z = moved_game y (role_in u t) (original_num mv - 1)" "over (abs_game z)"
  shows "\<exists>o1. client_make_move (Some t) j str (move_ready i u t tv g y w) =
      Some (0, raced i u c v k t tv j g z (scored (role_in u t) b a (winner z) w) o1 w) \<and>
    last_move_packets (c_fd tv) j (c_fd v) k z (os w) o1"
proof -
  let ?w = "move_ready i u t tv g y w" and ?tv = "tv\<lparr>c_ref_count := c_ref_count tv + 1\<rparr>" and ?u = "u\<lparr>i_ref_count := 3\<rparr>"
    and ?y = "y\<lparr>g_ref_count := 2\<rparr>" and ?r = "role_in u t" and ?z = "z\<lparr>g_ref_count := 2\<rparr>"
  note f = move_ready_frame [OF linked_shared [OF L] m, where g = g and x = y]
  have cu: "i_ref_count u = 2" and n: "c_ref_count v \<noteq> 1" "c_ref_count v \<noteq> 0" "c_ref_count tv \<noteq> 0" and ct: "c \<noteq> t" "t \<noteq> c"
    using L by (auto simp: linked_def in_table_def)
  have tab: "clients w c = Some v" "table_ok v" "find_idx (\<lambda>x. x = Some i) (invs_lst v) = Some k"
      "table_ok tv" "find_idx (\<lambda>x. x = Some i) (invs_lst tv) = Some j"
    using L by (simp_all add: linked_def in_table_def)
  have S: "shared ?w i ?u t ?tv j c v k"
    using f(1,3,4) cu tab ct by (simp add: shared_def listed_def)
  have gy: "games ?w g = Some ?y" using f(2) y(2) by simp
  have r: "role_in ?u t = ?r" by (simp add: role_in_def)
  have E': "ends ?u t c" using E by (auto simp: ends_def)
  have "client_make_move_sent (Some t) j str ?w = move_told (Some i) (Some g) ?r (Some c) (move_ready i ?u c v g ?z ?w)"
    using move_sent_start [OF S E' _ gy, of str] y f(5) m mv z(1) r
    by (simp add: parsed_move_count moved_game_count)
  moreover obtain s1 o1 where 1: "move_told (Some i) (Some g) ?r (Some c) (move_ready i ?u c v g ?z ?w) =
      Some (Move_Sent (Some i) (Some g) ?r (Some c) (int k), (move_ready i ?u c v g ?z ?w)\<lparr>os := o1\<rparr>)"
      "sent (c_fd v) JEUX_MOVED_PKT (int k) NULL_ROLE (length (state_text ?z)) (Some (bytes_of (state_text ?z))) s1 (os ?w) o1"
    using move_told_result [OF S] f(5) m by metis
  ultimately have first: "client_make_move_sent (Some t) j str ?w =
      Some (Move_Sent (Some i) (Some g) ?r (Some c) (int k), (move_ready i ?u c v g ?z ?w)\<lparr>os := o1\<rparr>)" by simp
  have st: "state_text ?z = state_text z" by (simp add: state_text_def get_game_move_def)
  let ?v = "v\<lparr>c_ref_count := c_ref_count v + 1\<rparr>" and ?w1 = "(move_ready i ?u c v g ?z ?w)\<lparr>os := o1\<rparr>"
  have "mem (os ?w) = []" using f(5) m by simp
  note f1 = move_ready_frame [OF S this, where g = g and x = ?z]
  have cz: "g_ref_count z = 1" using y(2) z(1) by (simp add: moved_game_def Let_def)
  have w1: "clients ?w1 t = Some ?tv" "clients ?w1 c = Some ?v" "invs ?w1 i = Some (u\<lparr>i_ref_count := 4\<rparr>)"
      "i_ref_count (u\<lparr>i_ref_count := 4\<rparr>) \<noteq> 1" "i_ref_count (u\<lparr>i_ref_count := 4\<rparr>) \<noteq> 2" "games ?w1 g = Some (z\<lparr>g_ref_count := 3\<rparr>)"
      "opponents ?tv b ?v a ?w1" "players ?w1 b = Some x2" "players ?w1 a = Some x1" "table_ok ?tv" "table_ok ?v"
      "find_idx (\<lambda>x. x = Some i) (invs_lst ?tv) = Some j" "find_idx (\<lambda>x. x = Some i) (invs_lst ?v) = Some k"
    using f1 f(5,6) m P tab by (simp_all add: opponents_def)
  from game_over_result [OF w1(1,10,12) w1(2,11,13) ct(2) w1(3-9) P(5,4) role] obtain s2 s3 o3 o4 where
    over: "move_game_over (Some t) j (Some i) (Some g) ?r (Some c) (int k) ?w1 = Some (?w1\<lparr>os := o4,
      invs := (invs ?w1)(i := Some (u\<lparr>i_ref_count := 4, i_ref_count := i_ref_count (u\<lparr>i_ref_count := 4\<rparr>) - 2\<rparr>)),
      clients := (clients ?w1)(t := Some (cleared_slot j ?tv), c := Some (cleared_slot k ?v)),
      players := scored ?r b a (winner (z\<lparr>g_ref_count := 3\<rparr>)) ?w1\<rparr>)"
    "sent (c_fd ?tv) JEUX_ENDED_PKT (int j) (winner (z\<lparr>g_ref_count := 3\<rparr>)) 0 None s2 (os ?w1) o3"
    "sent (c_fd ?v) JEUX_ENDED_PKT (int k) (winner (z\<lparr>g_ref_count := 3\<rparr>)) 0 None s3 o3 o4" by blast
  let ?M = "scored ?r b a (winner z) w" and ?cv = "cleared_slot k v" and ?ct = "(cleared_slot j tv)\<lparr>c_ref_count := c_ref_count tv + 1\<rparr>"
  have sc: "scored ?r b a (winner (z\<lparr>g_ref_count := 3\<rparr>)) ?w1 = ?M" using f1(6) f(6) by (simp add: scored_def)
  let ?w2 = "w\<lparr>invs := (invs w)(i := Some (u\<lparr>i_ref_count := 2\<rparr>)), games := (games w)(g := Some (z\<lparr>g_ref_count := 3\<rparr>)),
      clients := (clients w)(c := Some (?cv\<lparr>c_ref_count := c_ref_count v + 1\<rparr>), t := Some ?ct), players := ?M, os := o4\<rparr>"
  have "move_game_over (Some t) j (Some i) (Some g) ?r (Some c) (int k) ?w1 = Some ?w2"
    unfolding over(1) sc using ct by (simp add: move_ready_def cleared_slot_count fun_upd_twist)
  note over1 = this
  let ?w3 = "?w2\<lparr>invs := (invs w)(i := Some (u\<lparr>i_ref_count := 1\<rparr>))\<rparr>"
  have 3: "inv_unref (Some i) ?w2 = Some ?w3"
    using inv_unref_count [of ?w2 i "u\<lparr>i_ref_count := 2\<rparr>"] by (simp add: size_dec_def)
  let ?w4 = "?w3\<lparr>clients := (clients w)(c := Some ?cv, t := Some ?ct)\<rparr>"
  have 4: "client_unref (Some c) ?w3 = Some ?w4"
    using client_unref_count [of ?w3 c "?cv\<lparr>c_ref_count := c_ref_count v + 1\<rparr>"] n ct by (simp add: size_dec_def fun_upd_twist)
  have "w_game_unref (Some g) ?w4 = Some (?w4\<lparr>games := (games w)(g := Some (z\<lparr>g_ref_count := 2\<rparr>))\<rparr>)"
    by (simp add: w_game_unref_def game_unref_def size_dec_def)
  also have "\<dots> = Some (raced i u c v k t tv j g z ?M o4 w)" by (simp add: raced_def)
  finally have 5: "w_game_unref (Some g) ?w4 = Some (raced i u c v k t tv j g z ?M o4 w)" .
  have "w_game_is_over (Some g) ?w1 = Some True" using f1(9) z(2) by (simp add: abs_game_def)
  then have "client_make_move_end (Some t) j (Move_Sent (Some i) (Some g) ?r (Some c) (int k)) ?w1 =
      Some (0, raced i u c v k t tv j g z ?M o4 w)"
    using over1 3 4 5 by (simp add: client_make_move_end_def)
  then have "client_make_move (Some t) j str ?w = Some (0, raced i u c v k t tv j g z ?M o4 w)"
    using first by (simp add: client_make_move_halves)
  moreover have "last_move_packets (c_fd tv) j (c_fd v) k z (os w) o4"
    unfolding last_move_packets_def by (rule exI [of _ s1], rule exI [of _ s2], rule exI [of _ s3])
      (use 1(2) over(2,3) f(5) st in auto)
  ultimately show ?thesis by blast
qed

text \<open>The thread of the first mover goes on.\<close>

lemma mover_ends_again:
  assumes L: "linked w i u c v k t tv j" and E: "ends u c t" and z: "inv_game u = Some g" "g_ref_count z = 1" "over (abs_game z)"
    and once: "Some i \<notin> set (invs_lst (cleared_slot k v))" "Some i \<notin> set (invs_lst (cleared_slot j tv))"
    and role: "role \<noteq> NULL_ROLE"
    and P: "opponents v a tv b w" and m: "m a = Some x1" "m b = Some x2" "p_ref_count x1 \<noteq> 0" "p_ref_count x2 \<noteq> 0"
  shows "\<exists>o2. client_make_move_end (Some c) k (Move_Sent (Some i) (Some g) role (Some t) (int j)) (raced i u c v k t tv j g z m o1 w) =
      Some (0, (without i c v k t tv j w)\<lparr>os := o2, players := scored role a b (winner z) (w\<lparr>players := m\<rparr>), games := (games w)(g := None)\<rparr>) \<and>
    (\<exists>s2 s3 o3. sent (c_fd v) JEUX_ENDED_PKT (int k) (winner z) 0 None s2 o1 o3 \<and>
      sent (c_fd tv) JEUX_ENDED_PKT (int j) (winner z) 0 None s3 o3 o2)"
proof -
  let ?w = "raced i u c v k t tv j g z m o1 w" and ?v = "cleared_slot k v" and ?z = "z\<lparr>g_ref_count := 2\<rparr>"
    and ?t = "(cleared_slot j tv)\<lparr>c_ref_count := c_ref_count tv + 1\<rparr>"
  have n: "c_ref_count v \<noteq> 1" "c_ref_count tv \<noteq> 0" "c_ref_count tv \<noteq> 1" and ct: "c \<noteq> t" "t \<noteq> c"
    and tab: "table_ok v" "find_idx (\<lambda>x. x = Some i) (invs_lst v) = Some k" "clients w c = Some v"
      "table_ok tv" "find_idx (\<lambda>x. x = Some i) (invs_lst tv) = Some j" "clients w t = Some tv"
      "invs w i = Some u" "i_ref_count u \<noteq> 1"
    using L by (auto simp: linked_def in_table_def)
  have ok: "table_ok ?v" "table_ok ?t"
    using remove_found(2) [OF tab(3,1,7,8,2)] remove_found(2) [OF tab(6,4,7,8,5)] by (simp_all add: cleared_slot_def table_ok_def)
  have f: "clients ?w c = Some ?v" "clients ?w t = Some ?t" "invs ?w i = Some (u\<lparr>i_ref_count := 1\<rparr>)" "games ?w g = Some ?z"
      "opponents ?v a ?t b ?w" "players ?w a = Some x1" "players ?w b = Some x2" "os ?w = o1"
      "Some i \<notin> set (invs_lst ?t)"
    using ct P m once by (simp_all add: raced_def opponents_def)
  obtain s2 s3 o3 o4 where 1: "move_game_over (Some c) k (Some i) (Some g) role (Some t) (int j) ?w =
      Some (?w\<lparr>os := o4, players := scored role a b (winner ?z) ?w\<rparr>)"
    "sent (c_fd ?v) JEUX_ENDED_PKT (int k) (winner ?z) 0 None s2 (os ?w) o3"
    "sent (c_fd ?t) JEUX_ENDED_PKT (int j) (winner ?z) 0 None s3 o3 o4"
    using game_over_again [OF f(1) ok(1) once(1) f(2) ok(2) f(9,4-7) m(3,4) role] by blast
  have sc: "scored role a b (winner ?z) ?w = scored role a b (winner z) (w\<lparr>players := m\<rparr>)"
    by (simp add: scored_def raced_def)
  let ?w1 = "?w\<lparr>os := o4, players := scored role a b (winner z) (w\<lparr>players := m\<rparr>)\<rparr>"
  let ?w2 = "?w1\<lparr>invs := (invs w)(i := None), games := (games w)(g := Some z),
      clients := (clients w)(c := Some (unlinked k v), t := Some (cleared_slot j tv))\<rparr>"
  have sz: "z\<lparr>g_ref_count := 1\<rparr> = z" using z(2) by (cases z) simp
  have "inv_unref (Some i) ?w1 = Some (?w1\<lparr>invs := (invs ?w1)(i := None), games := games_without (u\<lparr>i_ref_count := 1\<rparr>) ?w1,
      clients := (clients ?w1)(c := Some (?v\<lparr>c_ref_count := c_ref_count ?v - 1\<rparr>),
        t := Some (?t\<lparr>c_ref_count := c_ref_count ?t - 1\<rparr>))\<rparr>)"
    by (rule inv_unref_last [OF _ _ _ ct(1)]) (use E f n z(1) in \<open>simp_all add: ends_def game_there_def\<close>)
  also have "\<dots> = Some ?w2"
    using z(1,2) ct(1) by (simp add: raced_def games_without_def game_unref_def size_dec_def sz unlinked_def fun_upd_twist)
  finally have 2: "inv_unref (Some i) ?w1 = Some ?w2" .
  let ?w3 = "?w2\<lparr>clients := (clients w)(c := Some (unlinked k v), t := Some (unlinked j tv))\<rparr>"
  have 3: "client_unref (Some t) ?w2 = Some ?w3"
    using client_unref_count [of ?w2 t "cleared_slot j tv"] n by (simp add: size_dec_def unlinked_def)
  let ?w4 = "(without i c v k t tv j w)\<lparr>os := o4, players := scored role a b (winner z) (w\<lparr>players := m\<rparr>), games := (games w)(g := None)\<rparr>"
  have "w_game_unref (Some g) ?w3 = Some (?w3\<lparr>games := (games w)(g := None)\<rparr>)"
    using z(2) by (simp add: w_game_unref_def game_unref_def size_dec_def)
  also have "\<dots> = Some ?w4" by (simp add: raced_def without_def)
  finally have 4: "w_game_unref (Some g) ?w3 = Some ?w4" .
  have "w_game_is_over (Some g) ?w = Some True"
    using f(4) z(3) by (simp add: w_game_is_over_def game_is_over_def get_game_status_def abs_game_def)
  then have "client_make_move_end (Some c) k (Move_Sent (Some i) (Some g) role (Some t) (int j)) ?w = Some (0, ?w4)"
    using 1(1) 2 3 4 unfolding sc by (simp add: client_make_move_end_def)
  then show ?thesis using 1(2,3) f(8) by auto
qed

subsection \<open>Properties\<close>

lemma scored_swap:
  "r \<noteq> r' \<Longrightarrow> r \<noteq> NULL_ROLE \<Longrightarrow> r' \<noteq> NULL_ROLE \<Longrightarrow> scored r' b a win w = scored r a b win w"
  by (cases r; cases r') (simp_all add: scored_def)

lemma scored_players:
  assumes "players w a = Some x1" and "players w b = Some x2" and "a \<noteq> b"
  shows "\<exists>y1 y2. scored r a b win w a = Some y1 \<and> scored r a b win w b = Some y2 \<and>
    p_ref_count y1 = p_ref_count x1 \<and> p_ref_count y2 = p_ref_count x2"
  using assms by (auto simp: scored_def post_result_def Let_def)

text \<open>C25: the race of two moves. A client makes a move that does not end the game; as soon as the opponent has
been told, the opponent answers with a move that does, and the thread of the opponent handles the answer
before the thread of the first client asks whether the game is over. Then both threads find the game
over: both clients are told the end twice, and the result is posted twice, so the ratings change as if
two games had been played.\<close>

theorem move_result_twice:
  assumes L: "linked w i u c v k t tv j" and E: "ends u c t" and G: "playing w u g x" "game_inv x"
    and m: "mem (os w) = []" and P: "opponents v a tv b w" and R: "players_ok w" and roles: "role_in u c \<noteq> role_in u t"
    and once: "Some i \<notin> set (invs_lst (cleared_slot k v))" "Some i \<notin> set (invs_lst (cleared_slot j tv))"
    and y: "parsed_move x (role_in u c) s1 = Some m1" "legal_move x m1"
      "y = moved_game x (role_in u c) (original_num m1 - 1)" "\<not> over (abs_game y)"
    and z: "parsed_move y (role_in u t) s2 = Some m2" "legal_move y m2"
      "z = moved_game y (role_in u t) (original_num m2 - 1)" "over (abs_game z)"
  shows "\<exists>h w1 w2 o3. client_make_move_sent (Some c) k s1 w = Some (h, w1) \<and>
    client_make_move (Some t) j s2 w1 = Some (0, w2) \<and>
    last_move_packets (c_fd tv) j (c_fd v) k z (os w1) (os w2) \<and>
    players w2 = scored (role_in u c) a b (winner z) w \<and>
    client_make_move_end (Some c) k h w2 = Some (0, (without i c v k t tv j w)\<lparr>os := o3,
      players := scored (role_in u c) a b (winner z) (w\<lparr>players := players w2\<rparr>), games := (games w)(g := None)\<rparr>) \<and>
    (\<exists>st st' o2. sent (c_fd v) JEUX_ENDED_PKT (int k) (winner z) 0 None st (os w2) o2 \<and>
      sent (c_fd tv) JEUX_ENDED_PKT (int j) (winner z) 0 None st' o2 o3)"
proof -
  have g: "inv_game u = Some g" "games w g = Some x" "g_ref_count x \<noteq> 0" "g_ref_count x = 1"
    "role_in u c \<noteq> NULL_ROLE" "role_in u t \<noteq> NULL_ROLE" using G(1) by (simp_all add: playing_def role_in_def)
  obtain x1 x2 where p: "players w a = Some x1" "players w b = Some x2" "a \<noteq> b" using P by (auto simp: opponents_def)
  have nz: "p_ref_count x1 \<noteq> 0" "p_ref_count x2 \<noteq> 0" using R p unfolding players_ok_def by blast+
  have cnt: "g_ref_count y = 1" "g_ref_count z = 1" using g(4) y(3) z(3) by (simp_all add: moved_game_def Let_def)
  have gi: "game_inv y" unfolding y(3) by (rule moved_game_inv [OF G(2)]) (use y(2) in \<open>simp add: legal_move_def\<close>)
  obtain st1 o1 where 1: "move_told (Some i) (Some g) (role_in u c) (Some t) (move_ready i u t tv g y w) =
      Some (Move_Sent (Some i) (Some g) (role_in u c) (Some t) (int j), (move_ready i u t tv g y w)\<lparr>os := o1\<rparr>)"
      "sent (c_fd tv) JEUX_MOVED_PKT (int j) NULL_ROLE (length (state_text y)) (Some (bytes_of (state_text y))) st1 (os w) o1"
    using move_told_result [OF linked_shared [OF L] m] by blast
  let ?w = "w\<lparr>os := o1\<rparr>"
  have ready: "(move_ready i u t tv g y w)\<lparr>os := o1\<rparr> = move_ready i u t tv g y ?w" by (simp add: move_ready_def)
  have first: "client_make_move_sent (Some c) k s1 w =
      Some (Move_Sent (Some i) (Some g) (role_in u c) (Some t) (int j), move_ready i u t tv g y ?w)"
    using move_sent_start [OF linked_shared [OF L] E g(1,2,3) G(2) m, of s1] y(1,2) 1(1) unfolding ready by (simp add: y(3) del: One_nat_def)
  have m': "mem (os ?w) = []" using sent_frame(1) [OF 1(2)] m by simp
  have L': "linked ?w i u c v k t tv j" using L by (simp add: linked_def in_table_def)
  have P': "opponents v a tv b ?w" "players ?w a = Some x1" "players ?w b = Some x2" using P p by (simp_all add: opponents_def)
  let ?S = "scored (role_in u c) a b (winner z) w"
  have sc: "scored (role_in u t) b a (winner z) ?w = ?S"
    unfolding scored_swap [OF roles g(5,6)] by (simp add: scored_def)
  obtain o2 where 2: "client_make_move (Some t) j s2 (move_ready i u t tv g y ?w) = Some (0, raced i u c v k t tv j g z ?S o2 ?w)"
      "last_move_packets (c_fd tv) j (c_fd v) k z (os ?w) o2"
    using answer_ends [OF L' E g(1) cnt(1) gi m' g(6) P' nz z] unfolding sc by blast
  obtain y1 y2 where s: "?S a = Some y1" "?S b = Some y2" "p_ref_count y1 \<noteq> 0" "p_ref_count y2 \<noteq> 0"
    using scored_players [OF p, of "role_in u c" "winner z"] nz by auto
  obtain o3 where 3: "client_make_move_end (Some c) k (Move_Sent (Some i) (Some g) (role_in u c) (Some t) (int j))
        (raced i u c v k t tv j g z ?S o2 ?w) =
      Some (0, (without i c v k t tv j ?w)\<lparr>os := o3, players := scored (role_in u c) a b (winner z) (?w\<lparr>players := ?S\<rparr>), games := (games ?w)(g := None)\<rparr>)"
      "\<exists>s2 s3 o4. sent (c_fd v) JEUX_ENDED_PKT (int k) (winner z) 0 None s2 o2 o4 \<and>
        sent (c_fd tv) JEUX_ENDED_PKT (int j) (winner z) 0 None s3 o4 o3"
    using mover_ends_again [OF L' E g(1) cnt(2) z(4) once g(5) P'(1) s] by blast
  have fin: "(without i c v k t tv j ?w)\<lparr>os := o3, players := scored (role_in u c) a b (winner z) (?w\<lparr>players := ?S\<rparr>), games := (games ?w)(g := None)\<rparr> =
      (without i c v k t tv j w)\<lparr>os := o3, players := scored (role_in u c) a b (winner z) (w\<lparr>players := ?S\<rparr>), games := (games w)(g := None)\<rparr>"
    by (simp add: without_def scored_def)
  show ?thesis
    by (rule exI [of _ "Move_Sent (Some i) (Some g) (role_in u c) (Some t) (int j)"], rule exI [of _ "move_ready i u t tv g y ?w"],
        rule exI [of _ "raced i u c v k t tv j g z ?S o2 ?w"], rule exI [of _ o3])
      (use first 2 3 fin in \<open>simp add: raced_def move_ready_def\<close>)
qed

text \<open>A game in which the second player wins with the next but one move.\<close>

definition close_game :: game where
  "close_game = fold (\<lambda>(r, k) g. moved_game g r k)
     [(FIRST_PLAYER_ROLE, 0), (SECOND_PLAYER_ROLE, 3), (FIRST_PLAYER_ROLE, 1), (SECOND_PLAYER_ROLE, 4)] new_game"

definition close_world :: world where
  "close_world = (paired INV_ACCEPTED_STATE (Some 4))\<lparr>games := [4 \<mapsto> close_game]\<rparr>"

lemma close_game_facts:
  "game_inv close_game" "g_ref_count close_game = 1"
  "parsed_move close_game FIRST_PLAYER_ROLE ''9'' = Some \<lparr>gr = FIRST_PLAYER_ROLE, i_coord = 4, j_coord = 4, original_num = 9\<rparr>"
  "legal_move close_game \<lparr>gr = FIRST_PLAYER_ROLE, i_coord = 4, j_coord = 4, original_num = 9\<rparr>"
  "\<not> over (abs_game (moved_game close_game FIRST_PLAYER_ROLE 8))"
  by code_simp+

lemma close_game_answer:
  "parsed_move (moved_game close_game FIRST_PLAYER_ROLE 8) SECOND_PLAYER_ROLE ''6'' =
     Some \<lparr>gr = SECOND_PLAYER_ROLE, i_coord = 2, j_coord = 4, original_num = 6\<rparr>"
  "legal_move (moved_game close_game FIRST_PLAYER_ROLE 8) \<lparr>gr = SECOND_PLAYER_ROLE, i_coord = 2, j_coord = 4, original_num = 6\<rparr>"
  "over (abs_game (moved_game (moved_game close_game FIRST_PLAYER_ROLE 8) SECOND_PLAYER_ROLE 5))"
  "winner (moved_game (moved_game close_game FIRST_PLAYER_ROLE 8) SECOND_PLAYER_ROLE 5) = SECOND_PLAYER_ROLE"
  by code_simp+

theorem move_result_twice_witness:
  "\<exists>h w1 w2 o3. client_make_move_sent (Some 1) 1 ''9'' close_world = Some (h, w1) \<and>
    client_make_move (Some 2) 1 ''6'' w1 = Some (0, w2) \<and>
    players w2 = scored FIRST_PLAYER_ROLE 7 8 SECOND_PLAYER_ROLE close_world \<and>
    client_make_move_end (Some 1) 1 h w2 = Some (0, (without 3 1 (party 5 7) 1 2 (party 6 8) 1 close_world)\<lparr>os := o3,
      players := scored FIRST_PLAYER_ROLE 7 8 SECOND_PLAYER_ROLE (close_world\<lparr>players := players w2\<rparr>),
      games := (games close_world)(4 := None)\<rparr>)"
proof -
  let ?u = "sample_inv INV_ACCEPTED_STATE (Some 4)"
  have u: "role_in ?u 1 = FIRST_PLAYER_ROLE" "role_in ?u 2 = SECOND_PLAYER_ROLE" by (simp_all add: sample_inv_def role_in_def)
  have L: "linked close_world 3 ?u 1 (party 5 7) 1 2 (party 6 8) 1"
    using paired_linked(1) [of INV_ACCEPTED_STATE "Some 4"] by (simp add: linked_def in_table_def close_world_def)
  have g: "playing close_world ?u 4 close_game"
    by (simp add: playing_def sample_inv_def close_world_def close_game_facts(2))
  have p: "opponents (party 5 7) 7 (party 6 8) 8 close_world" by (simp add: opponents_def close_world_def paired_def)
  have m: "mem (os close_world) = []" by (simp add: close_world_def paired_def duo_world_def blank_world_def idle_os_def)
  have po: "players_ok close_world"
    by (auto simp: players_ok_def close_world_def paired_def duo_world_def ann_def player_of_def sample_inv_def split: if_splits)
  have r: "role_in ?u 1 \<noteq> role_in ?u 2" unfolding u by simp
  have once: "Some 3 \<notin> set (invs_lst (cleared_slot 1 (party 5 7)))" "Some 3 \<notin> set (invs_lst (cleared_slot 1 (party 6 8)))"
    by (simp_all add: cleared_slot_def set_slot_def party_def sample_client_def)
  have y: "parsed_move close_game (role_in ?u 1) ''9'' = Some \<lparr>gr = FIRST_PLAYER_ROLE, i_coord = 4, j_coord = 4, original_num = 9\<rparr>"
      "moved_game close_game FIRST_PLAYER_ROLE 8 = moved_game close_game (role_in ?u 1)
         (original_num \<lparr>gr = FIRST_PLAYER_ROLE, i_coord = 4, j_coord = 4, original_num = 9\<rparr> - 1)"
    unfolding u by (simp_all add: close_game_facts)
  have z: "parsed_move (moved_game close_game FIRST_PLAYER_ROLE 8) (role_in ?u 2) ''6'' =
        Some \<lparr>gr = SECOND_PLAYER_ROLE, i_coord = 2, j_coord = 4, original_num = 6\<rparr>"
      "moved_game (moved_game close_game FIRST_PLAYER_ROLE 8) SECOND_PLAYER_ROLE 5 = moved_game (moved_game close_game FIRST_PLAYER_ROLE 8)
         (role_in ?u 2) (original_num \<lparr>gr = SECOND_PLAYER_ROLE, i_coord = 2, j_coord = 4, original_num = 6\<rparr> - 1)"
    unfolding u by (simp_all add: close_game_answer)
  show ?thesis
    using move_result_twice [OF L paired_linked(3) g close_game_facts(1) m p po r once
        y(1) close_game_facts(4) y(2) close_game_facts(5) z(1) close_game_answer(2) z(2) close_game_answer(3)]
    unfolding u close_game_answer(4) by blast
qed

end
