(* ===== verification/Slot_Race.thy ===== *)
theory Slot_Race
  imports Client_Effects
begin

text \<open>
  A look inside the operations of \<open>client.c\<close> that take an identifier. Each reads the pointer in the slot of
  the client's table under the mutex of the table, releases the mutex, and only then takes a reference to
  the invitation. Between the two another thread can drop the last reference. \<open>client_revoke_invitation\<close>
  stands for all of them here, in two steps.
\<close>

definition revoke_read :: "nat option \<Rightarrow> nat \<Rightarrow> world \<Rightarrow> nat option option" where
  "revoke_read client ident w = (case client of None \<Rightarrow> Some None | Some c \<Rightarrow> read_slot c ident w)"

definition revoke_rest :: "nat option \<Rightarrow> nat option \<Rightarrow> world \<Rightarrow> (int \<times> world) option" where
  "revoke_rest client ip w =
    (if ip = None then Some (-1, w)
     else do {
       (_, w) \<leftarrow> inv_ref ip w;
       source \<leftarrow> inv_get_source ip w;
       if client \<noteq> source then do { w \<leftarrow> inv_unref ip w; Some (-1, w) }
       else do {
         (st, w) \<leftarrow> inv_close ip NULL_ROLE w;
         if st = -1 then do { w \<leftarrow> inv_unref ip w; Some (-1, w) }
         else do {
           (st, w) \<leftarrow> client_remove_invitation client ip w;
           if st = -1 then do { w \<leftarrow> inv_unref ip w; Some (-1, w) }
           else do {
             client_target \<leftarrow> inv_get_target ip w;
             (r, w) \<leftarrow> client_ref client_target w;
             if r = None then do { w \<leftarrow> inv_unref ip w; Some (-1, w) }
             else do {
               (target_id, w) \<leftarrow> client_remove_invitation client_target ip w;
               if target_id = -1 then do {
                 w \<leftarrow> client_unref client_target w;
                 w \<leftarrow> inv_unref ip w;
                 Some (-1, w)
               }
               else do {
                 w \<leftarrow> inv_unref ip w;
                 (status_ret, w) \<leftarrow> send_pkt client_target JEUX_REVOKED_PKT target_id NULL_ROLE 0 None w;
                 w \<leftarrow> client_unref client_target w;
                 Some (status_ret, w)
               }
             }
           }
         }
       }
     })"

text \<open>Without interleaving the two steps are \<open>client_revoke_invitation\<close>.\<close>

lemma client_revoke_halves:
  "client_revoke_invitation client ident w = do { ip \<leftarrow> revoke_read client ident w; revoke_rest client ip w }"
  by (cases client) (simp_all add: client_revoke_invitation_def revoke_read_def revoke_rest_def)

lemma linked_sym: "linked w i u c v k t tv j \<Longrightarrow> linked w i u t tv j c v k"
  by (auto simp: linked_def)

text \<open>The target declines an open invitation that only the two tables refer to: it is freed.\<close>

lemma decline_frees:
  assumes L: "linked w i u c v k t tv j" and E: "inv_src u = c" "inv_target u = t"
    and u: "inv_ok u" "inv_state u = INV_OPEN_STATE"
  shows "\<exists>st o1. client_decline_invitation (Some t) j w = Some (st, (without i t tv j c v k w)\<lparr>os := o1\<rparr>)"
proof -
  have T: "in_table w t tv i j" and i: "invs w i = Some u" "i_ref_count u = 2" using L by (simp_all add: linked_def)
  have ends: "ends u t c" and ng: "inv_game u = None" using E u by (simp_all add: ends_def inv_ok_def)
  let ?w = "w\<lparr>invs := (invs w)(i := Some (u\<lparr>i_ref_count := 3\<rparr>))\<rparr>"
  have get: "inv_get_source (Some i) w' = Some (Some c)" if "invs w' i = Some u'" "inv_keeps u u'" for w' u'
    using that E by (auto simp: inv_keeps_def)
  obtain st o1 where "withdraw inv_get_source JEUX_DECLINED_PKT t (Some i) ?w = Some (st, (without i t tv j c v k w)\<lparr>os := o1\<rparr>)"
    using withdraw_result [OF linked_sym [OF L] ends u(2) ng, of inv_get_source JEUX_DECLINED_PKT] get by blast
  then show ?thesis using linked_slot(1) [OF T] i E by (auto simp: decline_withdraw size_inc_def)
qed

text \<open>C26: the race of a revocation and a refusal. The source of an open invitation starts to revoke it; when it
has read the pointer, but has not taken its reference yet, the target declines the invitation in another
thread. The refusal succeeds and frees the invitation, and the revocation goes on with freed memory.\<close>

theorem revoke_use_after_free:
  assumes L: "linked w i u c v k t tv j" and E: "inv_src u = c" "inv_target u = t"
    and u: "inv_ok u" "inv_state u = INV_OPEN_STATE"
  shows "revoke_read (Some c) k w = Some (Some i) \<and>
    (\<exists>st w1. client_decline_invitation (Some t) j w = Some (st, w1) \<and> invs w1 i = None \<and>
      revoke_rest (Some c) (Some i) w1 = None)"
proof -
  have T: "in_table w c v i k" using L by (simp add: linked_def)
  obtain st o1 where "client_decline_invitation (Some t) j w = Some (st, (without i t tv j c v k w)\<lparr>os := o1\<rparr>)"
    using decline_frees [OF assms] by blast
  moreover have "invs ((without i t tv j c v k w)\<lparr>os := o1\<rparr>) i = None" by (simp add: without_def)
  moreover from this have "revoke_rest (Some c) (Some i) ((without i t tv j c v k w)\<lparr>os := o1\<rparr>) = None"
    by (simp add: revoke_rest_def inv_ref_def)
  ultimately show ?thesis using linked_slot(1) [OF T] by (auto simp: revoke_read_def)
qed

theorem revoke_use_after_free_witness:
  "revoke_read (Some 1) 1 (paired INV_OPEN_STATE None) = Some (Some 3) \<and>
    (\<exists>st w1. client_decline_invitation (Some 2) 1 (paired INV_OPEN_STATE None) = Some (st, w1) \<and> invs w1 3 = None \<and>
      revoke_rest (Some 1) (Some 3) w1 = None)"
  by (rule revoke_use_after_free [OF paired_linked(1)]) (simp_all add: sample_inv_def inv_ok_def)

end
