(* ===== verification/Invite_Race.thy ===== *)
theory Invite_Race
  imports Invite_Effects Slot_Race
begin

text \<open>
  A look inside \<open>client_make_invitation\<close>. The function gives back its reference to the new invitation and
  goes on to use it: from then on only the tables of the two clients keep the invitation alive, and the
  threads of both clients can empty them.
\<close>

text \<open>The rest of the function after the invitation is gone.\<close>

lemma player_ref_invs: "w_player_ref p w = Some (r, w') \<Longrightarrow> invs w' = invs w"
  by (auto simp: w_player_ref_def split: option.splits bind_splits)

lemma announced_freed: "invs w i = None \<Longrightarrow> make_announced source target (Some i) src_id dst_id w = None"
  by (auto simp: make_announced_def inv_get_target_role_def player_ref_invs split: bind_splits)

text \<open>The state that the first part leaves.\<close>

lemma invited_linked:
  assumes I: "invitable w s sv t tv" and k: "find_idx (\<lambda>x. x = None) (invs_lst sv) = Some k"
    and j: "find_idx (\<lambda>x. x = None) (invs_lst tv) = Some j" and new: "Some (next_addr w) \<notin> set (invs_lst tv)"
    and counts: "1 < c_ref_count sv + 1" "1 < c_ref_count tv + 1"
  shows "linked (invited_state (next_addr w) s sv k t tv j srole trole w) (next_addr w) (fresh_inv s t srole trole)
    s ((filled_slot (next_addr w) k sv)\<lparr>c_ref_count := c_ref_count sv + 1\<rparr>) k
    t ((filled_slot (next_addr w) j tv)\<lparr>c_ref_count := c_ref_count tv + 1\<rparr>) j"
proof -
  have a: "s \<noteq> t" "table_ok sv" "table_ok tv" "Some (next_addr w) \<notin> set (invs_lst sv)" using I by (simp_all add: invitable_def)
  show ?thesis
    using filled_found [OF k a(4,2)] filled_found [OF j new a(3)] a(1) counts
    by (simp add: linked_def in_table_def invited_state_def fresh_inv_def)
qed

text \<open>C27: the race of an invitation and a refusal. A client invites another; when the invitation is in both
tables and the thread of the source has given back its own reference, the thread of the target declines
the invitation. The refusal frees it, and the thread of the source reads the role of the target from
freed memory.\<close>

theorem make_invitation_use_after_free:
  assumes I: "invitable w s sv t tv" and "srole \<noteq> NULL_ROLE" and "trole \<noteq> NULL_ROLE"
    and "find_idx (\<lambda>x. x = None) (invs_lst sv) = Some k" and "find_idx (\<lambda>x. x = None) (invs_lst tv) = Some j"
    and "Some (next_addr w) \<notin> set (invs_lst tv)" and "1 < c_ref_count sv + 1" and "1 < c_ref_count tv + 1"
  shows "\<exists>w1 st w2. make_opened (Some s) (Some t) srole trole w = Some (Inr (Some (next_addr w), int k, int j), w1) \<and>
    client_decline_invitation (Some t) j w1 = Some (st, w2) \<and> invs w2 (next_addr w) = None \<and>
    make_announced (Some s) (Some t) (Some (next_addr w)) (int k) (int j) w2 = None"
proof -
  let ?i = "next_addr w" and ?u = "fresh_inv s t srole trole" and ?w1 = "invited_state (next_addr w) s sv k t tv j srole trole w"
  let ?v = "(filled_slot ?i k sv)\<lparr>c_ref_count := c_ref_count sv + 1\<rparr>" and ?tv = "(filled_slot ?i j tv)\<lparr>c_ref_count := c_ref_count tv + 1\<rparr>"
  have L: "linked ?w1 ?i ?u s ?v k t ?tv j" by (rule invited_linked [OF I assms(4-8)])
  have u: "inv_src ?u = s" "inv_target ?u = t" "inv_ok ?u" "inv_state ?u = INV_OPEN_STATE"
    by (simp_all add: fresh_inv_def inv_ok_def)
  obtain st o1 where d: "client_decline_invitation (Some t) j ?w1 = Some (st, (without ?i t ?tv j s ?v k ?w1)\<lparr>os := o1\<rparr>)"
    using decline_frees [OF L u] by blast
  moreover have f: "invs ((without ?i t ?tv j s ?v k ?w1)\<lparr>os := o1\<rparr>) ?i = None" by (simp add: without_def)
  ultimately show ?thesis using open_done [OF assms(1-5)] announced_freed [OF f] by blast
qed

theorem make_invitation_use_after_free_witness:
  "\<exists>w1 st w2. make_opened (Some 1) (Some 2) FIRST_PLAYER_ROLE SECOND_PLAYER_ROLE (lounge (guest 6 8)) =
      Some (Inr (Some 9, 0, 0), w1) \<and>
    client_decline_invitation (Some 2) 0 w1 = Some (st, w2) \<and> invs w2 9 = None \<and>
    make_announced (Some 1) (Some 2) (Some 9) 0 0 w2 = None"
proof -
  have n: "next_addr (lounge (guest 6 8)) = 9" by (simp add: lounge_def)
  have m: "Some (9 :: nat) \<notin> set (invs_lst (guest 6 8))" by (simp add: guest_def sample_client_def)
  have c: "1 < c_ref_count (guest 5 7) + 1" "1 < c_ref_count (guest 6 8) + 1" by (simp_all add: guest_def sample_client_def)
  have r: "FIRST_PLAYER_ROLE \<noteq> NULL_ROLE" "SECOND_PLAYER_ROLE \<noteq> NULL_ROLE" by simp_all
  show ?thesis
    using make_invitation_use_after_free [OF lounge_invitable(1) r lounge_invitable(3) lounge_invitable(3), unfolded n, OF m c]
    by simp
qed

end
