(* ===== verification/Lock_Order.thy ===== *)
theory Lock_Order
  imports Main
begin

text \<open>
  The interface of threads that take mutexes in a fixed order: what each of a finite set of threads
  holds, which mutex it is about to take, and a rank of the mutexes that increases along the mutexes a
  thread takes. Such threads cannot wait for one another in a circle.
\<close>

locale ordered_locks =
  fixes threads :: "'t set" and holds :: "'t \<Rightarrow> 'l set" and wants :: "'t \<Rightarrow> 'l option" and rank :: "'l \<Rightarrow> int"
  assumes finite_threads: "finite threads"
    and increasing: "t \<in> threads \<Longrightarrow> wants t = Some l \<Longrightarrow> h \<in> holds t \<Longrightarrow> rank h < rank l"
begin

definition blocked :: "'t \<Rightarrow> bool" where
  "blocked t \<longleftrightarrow> (\<exists>l u. wants t = Some l \<and> u \<in> threads \<and> l \<in> holds u)"

lemma no_deadlock:
  assumes "threads \<noteq> {}"
  shows "\<exists>t \<in> threads. \<not> blocked t"
proof (rule ccontr)
  assume "\<not> (\<exists>t \<in> threads. \<not> blocked t)"
  then have all: "\<exists>l u. wants t = Some l \<and> u \<in> threads \<and> l \<in> holds u" if "t \<in> threads" for t
    using that by (auto simp: blocked_def)
  let ?r = "\<lambda>t. rank (the (wants t))"
  have fin: "finite (?r ` threads)" using finite_threads by simp
  obtain t where t: "t \<in> threads" "?r t = Max (?r ` threads)"
    using Max_in [OF fin] assms by fastforce
  obtain l u where l: "wants t = Some l" "u \<in> threads" "l \<in> holds u" using all [OF t(1)] by blast
  obtain m where m: "wants u = Some m" using all [OF l(2)] by blast
  have "rank l < rank m" by (rule increasing [OF l(2) m l(3)])
  moreover have "?r u \<le> ?r t" unfolding t(2) using fin l(2) by simp
  ultimately show False using l(1) m by simp
qed

end

end
