(* ===== verification/Rating_Locks.thy ===== *)
theory Rating_Locks
  imports World Lock_Order
begin

text \<open>
  \<open>player_post_result\<close> (\<open>src/src/player.c\<close>) statement by statement, with its two rating mutexes, for any
  number of threads that post results for any players at the same time. Elsewhere the function is one
  atomic step; here it is shown that this is right: no interleaving gets stuck, and every interleaving
  leaves the ratings that some order of the calls, one after the other, leaves.
\<close>

subsection \<open>The statements of one call\<close>

record post_call =
  post_p1 :: nat
  post_p2 :: nat
  post_res :: int

text \<open>What a thread does next; the ratings that it has read are its local variables.\<close>

datatype post_pc =
    At_First | At_Second | At_Read1 | At_Read2 real | At_Write1 real real | At_Write2 real real
  | At_Unlock1 | At_Unlock2 | Returned

record rating_state =
  rated :: "nat \<Rightarrow> player option"
  mutex :: "nat \<Rightarrow> nat option"
  pcs :: "nat \<Rightarrow> post_pc"

definition goto :: "nat \<Rightarrow> post_pc \<Rightarrow> rating_state \<Rightarrow> rating_state" where
  "goto t pc s = s\<lparr>pcs := (pcs s)(t := pc)\<rparr>"

text \<open>Taking a mutex that is taken blocks, also when the thread itself has it.\<close>

definition mutex_lock :: "nat \<Rightarrow> nat \<Rightarrow> rating_state \<Rightarrow> rating_state option" where
  "mutex_lock t a s = (if mutex s a = None then Some (s\<lparr>mutex := (mutex s)(a := Some t)\<rparr>) else None)"

definition mutex_unlock :: "nat \<Rightarrow> rating_state \<Rightarrow> rating_state" where
  "mutex_unlock a s = s\<lparr>mutex := (mutex s)(a := None)\<rparr>"

text \<open>The two mutexes in the order in which the call takes them.\<close>

definition locks_of :: "(nat \<Rightarrow> player option) \<Rightarrow> post_call \<Rightarrow> nat list" where
  "locks_of m c = (case (m (post_p1 c), m (post_p2 c)) of
     (Some x, Some y) \<Rightarrow> rating_lock_order (post_p1 c, x) (post_p2 c, y) | _ \<Rightarrow> [])"

definition new_rating1 :: "post_call \<Rightarrow> real \<Rightarrow> real \<Rightarrow> real" where
  "new_rating1 c r1 r2 = r1 + 32 * (elo_score (post_res c) 1 - elo_expect r1 r2)"

definition new_rating2 :: "post_call \<Rightarrow> real \<Rightarrow> real \<Rightarrow> real" where
  "new_rating2 c r1 r2 = r2 + 32 * (elo_score (post_res c) 2 - elo_expect r2 r1)"

definition write_rating :: "nat \<Rightarrow> real \<Rightarrow> rating_state \<Rightarrow> rating_state option" where
  "write_rating a r s = do { x \<leftarrow> rated s a; Some (s\<lparr>rated := (rated s)(a := Some (x\<lparr>rating := r\<rparr>))\<rparr>) }"

text \<open>One statement of the thread \<open>t\<close>, which runs the call \<open>c\<close>; no value means that it cannot go on.\<close>

definition post_statement :: "post_call \<Rightarrow> nat \<Rightarrow> rating_state \<Rightarrow> rating_state option" where
  "post_statement c t s =
    (let a = post_p1 c; b = post_p2 c in
     case pcs s t of
       At_First \<Rightarrow> (case locks_of (rated s) c of l # _ \<Rightarrow> map_option (goto t At_Second) (mutex_lock t l s) | _ \<Rightarrow> None)
     | At_Second \<Rightarrow> (case locks_of (rated s) c of _ # l # _ \<Rightarrow> map_option (goto t At_Read1) (mutex_lock t l s) | _ \<Rightarrow> None)
     | At_Read1 \<Rightarrow> do { x \<leftarrow> rated s a; Some (goto t (At_Read2 (rating x)) s) }
     | At_Read2 r1 \<Rightarrow> do { y \<leftarrow> rated s b; Some (goto t (At_Write1 r1 (rating y)) s) }
     | At_Write1 r1 r2 \<Rightarrow> map_option (goto t (At_Write2 r1 r2)) (write_rating a (new_rating1 c r1 r2) s)
     | At_Write2 r1 r2 \<Rightarrow> map_option (goto t At_Unlock1) (write_rating b (new_rating2 c r1 r2) s)
     | At_Unlock1 \<Rightarrow> Some (goto t At_Unlock2 (mutex_unlock a s))
     | At_Unlock2 \<Rightarrow> Some (goto t Returned (mutex_unlock b s))
     | Returned \<Rightarrow> None)"

text \<open>The states after \<open>k\<close> statements of any of the threads, one thread per call.\<close>

definition posts_start :: "(nat \<Rightarrow> player option) \<Rightarrow> rating_state" where
  "posts_start m = \<lparr>rated = m, mutex = (\<lambda>_. None), pcs = (\<lambda>_. At_First)\<rparr>"

inductive posts_reach :: "post_call list \<Rightarrow> (nat \<Rightarrow> player option) \<Rightarrow> nat \<Rightarrow> rating_state \<Rightarrow> bool"
  for calls :: "post_call list" and m :: "nat \<Rightarrow> player option" where
  posts_start: "posts_reach calls m 0 (posts_start m)"
| posts_step: "posts_reach calls m k s \<Longrightarrow> t < length calls \<Longrightarrow> post_statement (calls ! t) t s = Some s' \<Longrightarrow>
    posts_reach calls m (Suc k) s'"

text \<open>The calls one after the other, each an atomic step.\<close>

fun post_all :: "post_call list \<Rightarrow> world \<Rightarrow> world option" where
  "post_all [] w = Some w"
| "post_all (c # cs) w = do {
     w \<leftarrow> w_player_post_result (Some (post_p1 c)) (Some (post_p2 c)) (post_res c) w;
     post_all cs w
   }"

subsection \<open>What the threads hold\<close>

text \<open>The calls that the theorems are about: two players that exist and have different identities.\<close>

definition call_ok :: "(nat \<Rightarrow> player option) \<Rightarrow> post_call \<Rightarrow> bool" where
  "call_ok m c \<longleftrightarrow> (\<exists>x y. m (post_p1 c) = Some x \<and> m (post_p2 c) = Some y \<and> player_id x \<noteq> player_id y)"

fun held :: "nat list \<Rightarrow> post_call \<Rightarrow> post_pc \<Rightarrow> nat set" where
  "held ls c At_First = {}"
| "held ls c At_Second = {hd ls}"
| "held ls c At_Unlock2 = {post_p2 c}"
| "held ls c Returned = {}"
| "held ls c pc = {post_p1 c, post_p2 c}"

text \<open>Only ratings change.\<close>

definition unrated :: "(nat \<Rightarrow> player option) \<Rightarrow> nat \<Rightarrow> player option" where
  "unrated m x = map_option (\<lambda>p. p\<lparr>rating := 0\<rparr>) (m x)"

lemma unrated_id: "unrated m x = unrated m' x \<Longrightarrow> map_option player_id (m x) = map_option player_id (m' x)"
  by (cases "m x"; cases "m' x") (auto simp: unrated_def dest: arg_cong [of _ _ player_id])

lemma locks_of_ids:
  "locks_of m c = (case (map_option player_id (m (post_p1 c)), map_option player_id (m (post_p2 c))) of
     (Some i, Some j) \<Rightarrow> if i < j then [post_p1 c, post_p2 c] else [post_p2 c, post_p1 c] | _ \<Rightarrow> [])"
  by (auto simp: locks_of_def rating_lock_order_def split: option.split)

lemma locks_of_unrated: "unrated m = unrated m' \<Longrightarrow> locks_of m c = locks_of m' c"
  using unrated_id [of m "post_p1 c" m'] unrated_id [of m "post_p2 c" m'] by (simp add: locks_of_ids)

lemma call_ok_unrated:
  assumes "unrated m = unrated m'"
  shows "call_ok m c \<longleftrightarrow> call_ok m' c"
proof -
  have "call_ok m c \<longleftrightarrow> (\<exists>i j. map_option player_id (m (post_p1 c)) = Some i \<and> map_option player_id (m (post_p2 c)) = Some j \<and> i \<noteq> j)" for m
    by (auto simp: call_ok_def)
  moreover have "map_option player_id (m x) = map_option player_id (m' x)" for x
    by (rule unrated_id) (simp add: assms)
  ultimately show ?thesis by (simp only:)
qed

lemma locks_of_cases:
  assumes "call_ok m c"
  obtains "post_p1 c \<noteq> post_p2 c" and "locks_of m c = [post_p1 c, post_p2 c]"
  | "post_p1 c \<noteq> post_p2 c" and "locks_of m c = [post_p2 c, post_p1 c]"
proof -
  obtain x y where "m (post_p1 c) = Some x" "m (post_p2 c) = Some y" "player_id x \<noteq> player_id y"
    using assms by (auto simp: call_ok_def)
  moreover from this have "post_p1 c \<noteq> post_p2 c" by auto
  ultimately show ?thesis using that by (cases "player_id x < player_id y") (auto simp: locks_of_def rating_lock_order_def)
qed

definition locks_inv :: "post_call list \<Rightarrow> (nat \<Rightarrow> player option) \<Rightarrow> rating_state \<Rightarrow> bool" where
  "locks_inv calls m s \<longleftrightarrow> (\<forall>a t. mutex s a = Some t \<longleftrightarrow>
     t < length calls \<and> a \<in> held (locks_of m (calls ! t)) (calls ! t) (pcs s t))"

lemmas statement_simps = post_statement_def Let_def goto_def mutex_lock_def mutex_unlock_def write_rating_def

lemma statement_unrated:
  "post_statement c t s = Some s' \<Longrightarrow> unrated (rated s') = unrated (rated s)"
  by (auto simp: statement_simps unrated_def fun_eq_iff split: post_pc.splits list.splits if_splits bind_splits)

lemma statement_locks:
  assumes inv: "locks_inv calls m s" and un: "unrated (rated s) = unrated m" and t: "t < length calls"
    and ok: "call_ok m (calls ! t)" and st: "post_statement (calls ! t) t s = Some s'"
  shows "locks_inv calls m s'"
proof -
  let ?c = "calls ! t"
  note l = locks_of_unrated [OF un]
  have h: "mutex s a = Some u \<longleftrightarrow> u < length calls \<and> a \<in> held (locks_of m (calls ! u)) (calls ! u) (pcs s u)" for a u
    using inv by (simp add: locks_inv_def)
  have n: "mutex s a \<noteq> None" if "u < length calls" "a \<in> held (locks_of m (calls ! u)) (calls ! u) (pcs s u)" for a u
    using that h [of a u] by auto
  have x: "u = t" if "u < length calls" "a \<in> held (locks_of m (calls ! u)) (calls ! u) (pcs s u)"
      "a \<in> held (locks_of m ?c) ?c (pcs s t)" for a u
    using that h [of a u] h [of a t] t by simp
  have u: "u = t" if "u < length calls" "a \<in> held (locks_of m (calls ! u)) (calls ! u) (pcs s u)"
      "a = post_p1 ?c \<and> pcs s t = At_Unlock1 \<or> a = post_p2 ?c \<and> pcs s t = At_Unlock2" for a u
    by (rule x [OF that(1,2)]) (use that(3) in auto)
  show ?thesis
    by (rule locks_of_cases [OF ok]; cases "pcs s t")
      (use st t in \<open>auto simp: statement_simps l locks_inv_def h split: if_splits bind_splits dest: n u\<close>)
qed

subsection \<open>What the ratings are\<close>

text \<open>A call as one step, and calls in the order of a list of threads.\<close>

definition post_one :: "post_call \<Rightarrow> (nat \<Rightarrow> player option) \<Rightarrow> nat \<Rightarrow> player option" where
  "post_one c m = (case (m (post_p1 c), m (post_p2 c)) of
     (Some x, Some y) \<Rightarrow> m(post_p1 c := Some (x\<lparr>rating := new_rating1 c (rating x) (rating y)\<rparr>),
                           post_p2 c := Some (y\<lparr>rating := new_rating2 c (rating x) (rating y)\<rparr>))
   | _ \<Rightarrow> m)"

definition posted :: "post_call list \<Rightarrow> nat list \<Rightarrow> (nat \<Rightarrow> player option) \<Rightarrow> nat \<Rightarrow> player option" where
  "posted calls ord m = fold (\<lambda>t. post_one (calls ! t)) ord m"

lemma posted_snoc: "posted calls (ord @ [t]) m = post_one (calls ! t) (posted calls ord m)"
  by (simp add: posted_def)

lemma unrated_post_one: "unrated (post_one c m) = unrated m"
  by (auto simp: post_one_def unrated_def fun_eq_iff split: option.split)

lemma unrated_posted: "unrated (posted calls ord m) = unrated m"
  by (induction ord rule: rev_induct) (simp add: posted_def, simp add: unrated_post_one posted_snoc)

text \<open>The threads that have written both ratings, the ratings that a thread has read, and the player that
a thread has written first.\<close>

definition committed :: "post_pc \<Rightarrow> bool" where
  "committed pc \<longleftrightarrow> pc = At_Unlock1 \<or> pc = At_Unlock2 \<or> pc = Returned"

fun has_read :: "(nat \<Rightarrow> player option) \<Rightarrow> post_call \<Rightarrow> post_pc \<Rightarrow> bool" where
  "has_read m c (At_Read2 r1) = (map_option rating (m (post_p1 c)) = Some r1)"
| "has_read m c (At_Write1 r1 r2) = (map_option rating (m (post_p1 c)) = Some r1 \<and> map_option rating (m (post_p2 c)) = Some r2)"
| "has_read m c (At_Write2 r1 r2) = (map_option rating (m (post_p1 c)) = Some r1 \<and> map_option rating (m (post_p2 c)) = Some r2)"
| "has_read m c pc = True"

fun half_written :: "post_call \<Rightarrow> post_pc \<Rightarrow> nat \<Rightarrow> player option \<Rightarrow> player option" where
  "half_written c (At_Write2 r1 r2) x p =
     (if x = post_p1 c then map_option (\<lambda>p. p\<lparr>rating := new_rating1 c r1 r2\<rparr>) p else p)"
| "half_written c pc x p = p"

definition half_posted :: "post_call list \<Rightarrow> rating_state \<Rightarrow> (nat \<Rightarrow> player option) \<Rightarrow> nat \<Rightarrow> player option" where
  "half_posted calls s m x = (case mutex s x of None \<Rightarrow> m x | Some t \<Rightarrow> half_written (calls ! t) (pcs s t) x (m x))"

definition ratings_inv :: "post_call list \<Rightarrow> (nat \<Rightarrow> player option) \<Rightarrow> rating_state \<Rightarrow> nat list \<Rightarrow> bool" where
  "ratings_inv calls m s ord \<longleftrightarrow> distinct ord \<and> set ord = {t. t < length calls \<and> committed (pcs s t)} \<and>
     (\<forall>t < length calls. has_read (posted calls ord m) (calls ! t) (pcs s t)) \<and>
     rated s = half_posted calls s (posted calls ord m)"

text \<open>A statement that does not commit keeps the order; the statement that commits extends it.\<close>

lemma statement_pc:
  assumes "post_statement c t s = Some s'"
  obtains pc where "pcs s' = (pcs s)(t := pc)" and "pc \<noteq> At_First"
  using assms by (auto simp: statement_simps split: post_pc.splits list.splits if_splits bind_splits)

lemma held_both: "pc \<noteq> At_First \<Longrightarrow> pc \<noteq> At_Second \<Longrightarrow> pc \<noteq> At_Unlock2 \<Longrightarrow> pc \<noteq> Returned \<Longrightarrow>
    held ls c pc = {post_p1 c, post_p2 c}"
  by (cases pc) auto

lemma has_read_cong:
  assumes "\<And>x. x \<in> held ls c pc \<Longrightarrow> m x = m' x"
  shows "has_read m c pc = has_read m' c pc"
  using assms by (cases pc) auto

text \<open>Changing the mutex of a player that no thread has half written changes no rating.\<close>

lemma half_posted_cong:
  assumes "\<And>x. (case mutex s' x of None \<Rightarrow> m x | Some u \<Rightarrow> half_written (calls ! u) (pcs s' u) x (m x)) =
      (case mutex s x of None \<Rightarrow> m x | Some u \<Rightarrow> half_written (calls ! u) (pcs s u) x (m x))"
  shows "half_posted calls s' m = half_posted calls s m"
  using assms by (simp add: half_posted_def fun_eq_iff)

lemma statement_ratings:
  assumes inv: "ratings_inv calls m s ord" and L: "locks_inv calls m s" and t: "t < length calls"
    and ok: "call_ok m (calls ! t)" and st: "post_statement (calls ! t) t s = Some s'"
  shows "\<exists>ord'. ratings_inv calls m s' ord'"
proof -
  let ?c = "calls ! t" and ?\<mu> = "posted calls ord m"
  have I: "distinct ord" "set ord = {t. t < length calls \<and> committed (pcs s t)}"
      "\<And>u. u < length calls \<Longrightarrow> has_read ?\<mu> (calls ! u) (pcs s u)" "rated s = half_posted calls s ?\<mu>"
    using inv by (simp_all add: ratings_inv_def)
  have own: "mutex s x = Some u \<longleftrightarrow> u < length calls \<and> x \<in> held (locks_of m (calls ! u)) (calls ! u) (pcs s u)" for x u
    using L by (simp add: locks_inv_def)
  have ab: "post_p1 ?c \<noteq> post_p2 ?c" by (rule locks_of_cases [OF ok])
  have mine: "mutex s (post_p1 ?c) = Some t" "mutex s (post_p2 ?c) = Some t"
    if "held (locks_of m ?c) ?c (pcs s t) = {post_p1 ?c, post_p2 ?c}"
    using that t by (simp_all add: own)
  have same: "\<exists>ord'. ratings_inv calls m s' ord'"
    if "pcs s' = (pcs s)(t := pc)" "committed pc = committed (pcs s t)" "has_read ?\<mu> ?c pc" "rated s' = half_posted calls s' ?\<mu>" for pc
  proof -
    have "ratings_inv calls m s' ord"
      unfolding ratings_inv_def by (intro conjI) (use I that t in \<open>auto simp: less_Suc_eq\<close>)
    then show ?thesis ..
  qed
  show ?thesis
  proof (cases "pcs s t")
    case At_First
    then show ?thesis
      using st by (intro same [of At_Second])
        (auto simp: statement_simps committed_def I(4) half_posted_def fun_eq_iff split: list.splits if_splits option.splits)
  next
    case At_Second
    then show ?thesis
      using st by (intro same [of At_Read1])
        (auto simp: statement_simps committed_def I(4) half_posted_def fun_eq_iff split: list.splits if_splits option.splits)
  next
    case At_Read1
    then have r: "rated s (post_p1 ?c) = ?\<mu> (post_p1 ?c)" using mine by (simp add: I(4) half_posted_def)
    then obtain x where x: "?\<mu> (post_p1 ?c) = Some x" "s' = goto t (At_Read2 (rating x)) s"
      using st At_Read1 by (auto simp: statement_simps split: bind_splits)
    show ?thesis
      by (rule same [of "At_Read2 (rating x)"])
        (use x At_Read1 in \<open>auto simp: goto_def committed_def I(4) half_posted_def fun_eq_iff split: option.splits\<close>)
  next
    case (At_Read2 r1)
    then have r: "rated s (post_p2 ?c) = ?\<mu> (post_p2 ?c)" using mine by (simp add: I(4) half_posted_def)
    then obtain y where y: "?\<mu> (post_p2 ?c) = Some y" "s' = goto t (At_Write1 r1 (rating y)) s"
      using st At_Read2 by (auto simp: statement_simps split: bind_splits)
    show ?thesis
      by (rule same [of "At_Write1 r1 (rating y)"])
        (use y At_Read2 I(3) [OF t] in \<open>auto simp: goto_def committed_def I(4) half_posted_def fun_eq_iff split: option.splits\<close>)
  next
    case (At_Write1 r1 r2)
    then have r: "rated s (post_p1 ?c) = ?\<mu> (post_p1 ?c)" using mine by (simp add: I(4) half_posted_def)
    then obtain x where x: "?\<mu> (post_p1 ?c) = Some x"
        "s' = goto t (At_Write2 r1 r2) (s\<lparr>rated := (rated s)(post_p1 ?c := Some (x\<lparr>rating := new_rating1 ?c r1 r2\<rparr>))\<rparr>)"
      using st At_Write1 by (auto simp: statement_simps split: bind_splits)
    have b: "mutex s x \<noteq> Some t" if "x \<noteq> post_p1 ?c" "x \<noteq> post_p2 ?c" for x
      using own [of x t] At_Write1 that by simp
    show ?thesis
      by (rule same [of "At_Write2 r1 r2"])
        (use x At_Write1 I(3) [OF t] mine in \<open>auto simp: goto_def committed_def I(4) half_posted_def fun_eq_iff split: option.splits\<close>)
  next
    case (At_Write2 r1 r2)
    obtain x y where xy: "?\<mu> (post_p1 ?c) = Some x" "?\<mu> (post_p2 ?c) = Some y" "r1 = rating x" "r2 = rating y"
      using I(3) [OF t] At_Write2 by auto
    let ?\<nu> = "posted calls (ord @ [t]) m"
    have new: "?\<nu> = ?\<mu>(post_p1 ?c := Some (x\<lparr>rating := new_rating1 ?c r1 r2\<rparr>), post_p2 ?c := Some (y\<lparr>rating := new_rating2 ?c r1 r2\<rparr>))"
      using xy by (simp add: posted_snoc post_one_def)
    have "rated s (post_p2 ?c) = Some y" using mine At_Write2 ab xy by (simp add: I(4) half_posted_def)
    then have s': "s' = goto t At_Unlock1 (s\<lparr>rated := (rated s)(post_p2 ?c := Some (y\<lparr>rating := new_rating2 ?c r1 r2\<rparr>))\<rparr>)"
      using st At_Write2 by (auto simp: statement_simps split: bind_splits)
    have other: "?\<nu> z = ?\<mu> z" if "mutex s z \<noteq> Some t" for z using that mine At_Write2 by (auto simp: new)
    have rd: "has_read ?\<nu> (calls ! u) (pcs s u)" if "u < length calls" "u \<noteq> t" for u
    proof -
      have "has_read ?\<nu> (calls ! u) (pcs s u) = has_read ?\<mu> (calls ! u) (pcs s u)"
      proof (rule has_read_cong [of "locks_of m (calls ! u)"], rule other)
        fix z assume "z \<in> held (locks_of m (calls ! u)) (calls ! u) (pcs s u)"
        then have "mutex s z = Some u" using own [of z u] that(1) by blast
        then show "mutex s z \<noteq> Some t" using that(2) by simp
      qed
      then show ?thesis using I(3) that(1) by simp
    qed
    have "rated s' z = half_posted calls s' ?\<nu> z" for z
    proof (cases "mutex s z = Some t")
      case True
      then have "z = post_p1 ?c \<or> z = post_p2 ?c" using own [of z t] At_Write2 by simp
      then show ?thesis using True At_Write2 ab xy by (auto simp: s' goto_def half_posted_def I(4) new)
    next
      case False
      then have "z \<noteq> post_p1 ?c" "z \<noteq> post_p2 ?c" using mine At_Write2 by auto
      then show ?thesis using False other [OF False]
        by (auto simp: s' goto_def half_posted_def I(4) split: option.splits)
    qed
    then have "ratings_inv calls m s' (ord @ [t])"
      using I(1,2) rd t At_Write2 unfolding ratings_inv_def
      by (auto simp: s' goto_def committed_def)
    then show ?thesis ..
  next
    case At_Unlock1
    moreover from this have "mutex s (post_p1 ?c) = Some t" using t by (simp add: own)
    ultimately show ?thesis
      using st by (intro same [of At_Unlock2])
        (auto simp: statement_simps committed_def I(4) half_posted_def fun_eq_iff split: option.splits if_splits)
  next
    case At_Unlock2
    moreover from this have "mutex s (post_p2 ?c) = Some t" using t by (simp add: own)
    ultimately show ?thesis
      using st by (intro same [of Returned])
        (auto simp: statement_simps committed_def I(4) half_posted_def fun_eq_iff split: option.splits if_splits)
  next
    case Returned
    then show ?thesis using st by (simp add: statement_simps)
  qed
qed

subsection \<open>The number of statements\<close>

fun statements :: "post_pc \<Rightarrow> nat" where
  "statements At_First = 0"
| "statements At_Second = 1"
| "statements At_Read1 = 2"
| "statements (At_Read2 r1) = 3"
| "statements (At_Write1 r1 r2) = 4"
| "statements (At_Write2 r1 r2) = 5"
| "statements At_Unlock1 = 6"
| "statements At_Unlock2 = 7"
| "statements Returned = 8"

lemma statements_le: "statements pc \<le> 8" and statements_returned: "statements pc = 8 \<longleftrightarrow> pc = Returned"
  by (cases pc; simp)+

lemma statement_counted:
  assumes "post_statement c t s = Some s'"
  shows "\<exists>pc. pcs s' = (pcs s)(t := pc) \<and> statements pc = Suc (statements (pcs s t))"
  using assms by (auto simp: statement_simps split: post_pc.splits list.splits if_splits bind_splits)

lemma sum_counted:
  assumes "t < n"
  shows "(\<Sum>u<n. statements (((pcs s)(t := pc)) u)) + statements (pcs s t) = (\<Sum>u<n. statements (pcs s u)) + statements pc"
proof -
  have "(\<Sum>u<n. f u) = f t + (\<Sum>u \<in> {..<n} - {t}. f u)" for f :: "nat \<Rightarrow> nat"
    using assms by (simp add: sum.remove)
  from this [of "\<lambda>u. statements (((pcs s)(t := pc)) u)"] this [of "\<lambda>u. statements (pcs s u)"] show ?thesis by simp
qed

subsection \<open>Reachable states\<close>

definition posts_inv :: "post_call list \<Rightarrow> (nat \<Rightarrow> player option) \<Rightarrow> nat \<Rightarrow> rating_state \<Rightarrow> bool" where
  "posts_inv calls m k s \<longleftrightarrow> unrated (rated s) = unrated m \<and> locks_inv calls m s \<and> (\<exists>ord. ratings_inv calls m s ord) \<and>
     (\<Sum>t<length calls. statements (pcs s t)) = k"

lemma posts_reach_inv:
  assumes "posts_reach calls m k s" and "\<forall>c \<in> set calls. call_ok m c"
  shows "posts_inv calls m k s"
  using assms(1)
proof (induction rule: posts_reach.induct)
  case posts_start
  have "ratings_inv calls m (posts_start m) []"
    by (auto simp: ratings_inv_def posts_start_def committed_def posted_def half_posted_def fun_eq_iff)
  then show ?case by (auto simp: posts_inv_def posts_start_def locks_inv_def)
next
  case (posts_step k s t s')
  have c: "call_ok m (calls ! t)" using assms(2) posts_step.hyps(2) by simp
  obtain ord where I: "unrated (rated s) = unrated m" "locks_inv calls m s" "ratings_inv calls m s ord"
      "(\<Sum>t<length calls. statements (pcs s t)) = k"
    using posts_step.IH by (auto simp: posts_inv_def)
  obtain pc where pc: "pcs s' = (pcs s)(t := pc)" "statements pc = Suc (statements (pcs s t))"
    using statement_counted [OF posts_step.hyps(3)] by blast
  have "unrated (rated s') = unrated m" using statement_unrated [OF posts_step.hyps(3)] I(1) by simp
  moreover have "locks_inv calls m s'" by (rule statement_locks [OF I(2,1) posts_step.hyps(2) c posts_step.hyps(3)])
  moreover have "\<exists>ord. ratings_inv calls m s' ord" by (rule statement_ratings [OF I(3,2) posts_step.hyps(2) c posts_step.hyps(3)])
  moreover have "(\<Sum>t<length calls. statements (pcs s' t)) = Suc k"
    using sum_counted [OF posts_step.hyps(2), of s pc] pc I(4) by simp
  ultimately show ?case by (simp add: posts_inv_def)
qed

subsection \<open>No thread waits in a circle\<close>

text \<open>The threads whose calls are running take the mutexes in the order of the identities of the players.\<close>

definition running :: "post_call list \<Rightarrow> rating_state \<Rightarrow> nat set" where
  "running calls s = {t. t < length calls \<and> pcs s t \<noteq> Returned \<and> call_ok (rated s) (calls ! t)}"

definition holding :: "post_call list \<Rightarrow> rating_state \<Rightarrow> nat \<Rightarrow> nat set" where
  "holding calls s t = held (locks_of (rated s) (calls ! t)) (calls ! t) (pcs s t)"

definition waits_for :: "post_call list \<Rightarrow> rating_state \<Rightarrow> nat \<Rightarrow> nat option" where
  "waits_for calls s t = (case pcs s t of
     At_First \<Rightarrow> Some (locks_of (rated s) (calls ! t) ! 0) | At_Second \<Rightarrow> Some (locks_of (rated s) (calls ! t) ! 1) | _ \<Rightarrow> None)"

definition mutex_rank :: "rating_state \<Rightarrow> nat \<Rightarrow> int" where
  "mutex_rank s a = (case rated s a of Some p \<Rightarrow> player_id p | None \<Rightarrow> 0)"

lemma locks_ranked:
  "call_ok (rated s) c \<Longrightarrow> mutex_rank s (locks_of (rated s) c ! 0) < mutex_rank s (locks_of (rated s) c ! 1)"
  by (auto simp: call_ok_def locks_of_def rating_lock_order_def mutex_rank_def)

interpretation posts: ordered_locks "running calls s" "holding calls s" "waits_for calls s" "mutex_rank s" for calls s
proof
  show "finite (running calls s)" by (simp add: running_def)
  show "mutex_rank s h < mutex_rank s l" if "t \<in> running calls s" "waits_for calls s t = Some l" "h \<in> holding calls s t" for t l h
  proof -
    have ok: "call_ok (rated s) (calls ! t)" using that(1) by (simp add: running_def)
    have "locks_of (rated s) (calls ! t) \<noteq> []" by (rule locks_of_cases [OF ok]) simp_all
    then show ?thesis
      using that(2,3) locks_ranked [OF ok] by (auto simp: waits_for_def holding_def hd_conv_nth split: post_pc.splits)
  qed
qed

lemma unblocked_goes_on:
  assumes "locks_inv calls m s" and un: "unrated (rated s) = unrated m" and t: "t \<in> running calls s"
    and all: "\<forall>c \<in> set calls. call_ok m c" and free: "\<not> posts.blocked calls s t"
  shows "post_statement (calls ! t) t s \<noteq> None"
proof -
  let ?c = "calls ! t"
  have eq: "call_ok (rated s) c = call_ok m c" for c by (rule call_ok_unrated [OF un])
  have ok: "call_ok (rated s) ?c" using t by (simp add: running_def)
  have f: "mutex s l = None" if "waits_for calls s t = Some l" for l
  proof (rule ccontr)
    assume "mutex s l \<noteq> None"
    then obtain u where u: "u < length calls" "l \<in> held (locks_of m (calls ! u)) (calls ! u) (pcs s u)"
      using assms(1) by (auto simp: locks_inv_def)
    then have "u \<in> running calls s" using eq all by (auto simp: running_def)
    then show False using free that u(2) by (auto simp: posts.blocked_def holding_def locks_of_unrated [OF un])
  qed
  have there: "rated s (post_p1 ?c) \<noteq> None" "rated s (post_p2 ?c) \<noteq> None" using ok by (auto simp: call_ok_def)
  have nr: "pcs s t \<noteq> Returned" using t by (simp add: running_def)
  show ?thesis
    by (rule locks_of_cases [OF ok]; cases "pcs s t")
      (use f there nr in \<open>auto simp: statement_simps waits_for_def\<close>)
qed

lemma thread_goes_on:
  assumes "posts_reach calls m k s" and "\<forall>c \<in> set calls. call_ok m c" and u: "u < length calls" "pcs s u \<noteq> Returned"
  shows "\<exists>t < length calls. post_statement (calls ! t) t s \<noteq> None"
proof -
  have I: "unrated (rated s) = unrated m" "locks_inv calls m s"
    using posts_reach_inv [OF assms(1,2)] by (simp_all add: posts_inv_def)
  have "call_ok (rated s) (calls ! u)" using assms(2) u(1) call_ok_unrated [OF I(1)] by simp
  then have "running calls s \<noteq> {}" using u by (auto simp: running_def)
  then obtain t where "t \<in> running calls s" "\<not> posts.blocked calls s t" using posts.no_deadlock by blast
  then show ?thesis using unblocked_goes_on [OF I(2,1) _ assms(2)] by (auto simp: running_def)
qed

lemma all_returned:
  assumes "posts_reach calls m k s" and "\<forall>c \<in> set calls. call_ok m c"
  shows "k \<le> 8 * length calls" and "k = 8 * length calls \<longleftrightarrow> (\<forall>t < length calls. pcs s t = Returned)"
proof -
  have I: "(\<Sum>t<length calls. statements (pcs s t)) = k"
    using posts_reach_inv [OF assms] by (simp add: posts_inv_def)
  show "k \<le> 8 * length calls"
    using sum_bounded_above [of "{..<length calls}" "\<lambda>t. statements (pcs s t)" 8] statements_le I by simp
  have "\<forall>t < length calls. pcs s t = Returned" if k: "k = 8 * length calls"
  proof (rule ccontr)
    assume "\<not> (\<forall>t < length calls. pcs s t = Returned)"
    then obtain t where t: "t < length calls" "pcs s t \<noteq> Returned" by blast
    then have "statements (pcs s t) < 8" using statements_le [of "pcs s t"] statements_returned [of "pcs s t"] by linarith
    then have "(\<Sum>u<length calls. statements (pcs s u)) < (\<Sum>u<length calls. 8)"
      by (intro sum_strict_mono_ex1) (use t(1) statements_le in auto)
    then show False using I k by simp
  qed
  then show "k = 8 * length calls \<longleftrightarrow> (\<forall>t < length calls. pcs s t = Returned)" using I by auto
qed

lemma complete_run:
  assumes "\<forall>c \<in> set calls. call_ok m c" and "k \<le> 8 * length calls"
  shows "\<exists>s. posts_reach calls m k s"
  using assms(2)
proof (induction k)
  case 0
  show ?case using posts_start by blast
next
  case (Suc k)
  then obtain s where s: "posts_reach calls m k s" by auto
  then obtain u where "u < length calls" "pcs s u \<noteq> Returned" using all_returned(2) [OF s assms(1)] Suc.prems by auto
  then show ?case using thread_goes_on [OF s assms(1)] posts_step [OF s] by blast
qed

subsection \<open>The identities of players\<close>

text \<open>Players get their identities from a counter, so they differ.\<close>

definition ids_distinct :: "world \<Rightarrow> bool" where
  "ids_distinct w \<longleftrightarrow> (\<forall>a p. players w a = Some p \<longrightarrow> player_id p < player_counter w) \<and>
     (\<forall>a b p q. players w a = Some p \<longrightarrow> players w b = Some q \<longrightarrow> a \<noteq> b \<longrightarrow> player_id p \<noteq> player_id q)"

lemma created_ids_distinct:
  assumes "ids_distinct w" and "w_player_create nm w = (p, w')"
  shows "ids_distinct w'"
proof (cases "fst (player_create nm (player_counter w) (mem (os w)))")
  case None
  then have "players w' = players w" "player_counter w' = player_counter w"
    using assms(2) by (auto simp: w_player_create_def player_create_def Let_def player_ref_def split: option.splits prod.splits if_splits)
  then show ?thesis using assms(1) by (simp add: ids_distinct_def)
next
  case (Some pl)
  then have "player_id pl = player_counter w" "players w' = (players w)(next_addr w := Some pl)"
      "player_counter w' = player_counter w + 1"
    using assms(2) by (auto simp: w_player_create_def player_create_def Let_def player_ref_def split: option.splits prod.splits if_splits)
  then show ?thesis using assms(1) unfolding ids_distinct_def by (auto split: if_splits) fastforce+
qed

lemma distinct_players_ok:
  assumes "ids_distinct w" and "players w (post_p1 c) \<noteq> None" and "players w (post_p2 c) \<noteq> None"
    and "post_p1 c \<noteq> post_p2 c"
  shows "call_ok (players w) c"
  using assms by (auto simp: ids_distinct_def call_ok_def)

subsection \<open>The calls one after the other\<close>

lemma post_one_atomic:
  assumes "call_ok (players w) c"
  shows "w_player_post_result (Some (post_p1 c)) (Some (post_p2 c)) (post_res c) w = Some (w\<lparr>players := post_one c (players w)\<rparr>)"
  using assms
  by (auto simp: call_ok_def w_player_post_result_def post_result_def post_one_def new_rating1_def new_rating2_def Let_def)

lemma post_all_posted:
  assumes "\<forall>t \<in> set ord. call_ok (players w) (calls ! t)"
  shows "post_all (map ((!) calls) ord) w = Some (w\<lparr>players := posted calls ord (players w)\<rparr>)"
  using assms
proof (induction ord arbitrary: w)
  case Nil
  then show ?case by (simp add: posted_def)
next
  case (Cons t ord)
  let ?w = "w\<lparr>players := post_one (calls ! t) (players w)\<rparr>"
  have "\<forall>u \<in> set ord. call_ok (players ?w) (calls ! u)"
    using Cons.prems call_ok_unrated [OF unrated_post_one] by auto
  from Cons.IH [OF this] show ?case using Cons.prems by (simp add: post_one_atomic posted_def)
qed

text \<open>Two calls of the same two players in the two orders, which is the case that the comment in the code
names: \<open>the 1 2 2 1 deadlock\<close>.\<close>

definition crossed_posts :: "post_call list" where
  "crossed_posts = [\<lparr>post_p1 = 7, post_p2 = 8, post_res = 1\<rparr>, \<lparr>post_p1 = 8, post_p2 = 7, post_res = 1\<rparr>]"

definition crossed_world :: world where
  "crossed_world = blank_world\<lparr>players := [
     7 \<mapsto> \<lparr>rating = 1500, player_id = 0, p_name = Some ''ann'', p_ref_count = 2\<rparr>,
     8 \<mapsto> \<lparr>rating = 1500, player_id = 1, p_name = Some ''bob'', p_ref_count = 2\<rparr>]\<rparr>"

lemma crossed_ok: "\<forall>c \<in> set crossed_posts. call_ok (players crossed_world) c"
  by (simp add: crossed_posts_def crossed_world_def call_ok_def)

subsection \<open>Properties\<close>

text \<open>C14: \<open>player_post_result\<close> cannot deadlock. For any number of calls at the same time, each for two players
with different identities, and however the threads interleave: as long as a call has not returned, some
thread can go on; every statement of any thread brings the calls nearer to their end, and after eight
statements per call all of them have returned.\<close>

theorem posts_never_stuck:
  assumes "posts_reach calls m k s" and "\<forall>c \<in> set calls. call_ok m c"
  shows "k \<le> 8 * length calls \<and>
    (k < 8 * length calls \<longrightarrow> (\<exists>t < length calls. post_statement (calls ! t) t s \<noteq> None)) \<and>
    (k = 8 * length calls \<longleftrightarrow> (\<forall>t < length calls. pcs s t = Returned))"
  using all_returned [OF assms] thread_goes_on [OF assms] by (metis less_irrefl_nat)

theorem posts_never_stuck_witness:
  "\<exists>s. posts_reach crossed_posts (players crossed_world) 1 s \<and> mutex s 7 = Some 1 \<and>
    (\<exists>t < 2. post_statement (crossed_posts ! t) t s \<noteq> None)"
proof -
  let ?s = "posts_start (players crossed_world)"
  have "post_statement (crossed_posts ! 1) 1 ?s = Some (goto 1 At_Second (?s\<lparr>mutex := (mutex ?s)(7 := Some 1)\<rparr>))"
    by (simp add: crossed_posts_def crossed_world_def posts_start_def post_statement_def locks_of_def rating_lock_order_def
        mutex_lock_def Let_def)
  from posts_step [OF posts_reach.posts_start _ this] have r: "posts_reach crossed_posts (players crossed_world) 1
      (goto 1 At_Second (?s\<lparr>mutex := (mutex ?s)(7 := Some 1)\<rparr>))"
    by (simp add: crossed_posts_def)
  have "length crossed_posts = 2" by (simp add: crossed_posts_def)
  with posts_never_stuck [OF r crossed_ok] have "\<exists>t < 2. post_statement (crossed_posts ! t) t
      (goto 1 At_Second (?s\<lparr>mutex := (mutex ?s)(7 := Some 1)\<rparr>)) \<noteq> None"
    by simp
  moreover have "mutex (goto 1 At_Second (?s\<lparr>mutex := (mutex ?s)(7 := Some 1)\<rparr>)) 7 = Some 1" by (simp add: goto_def)
  ultimately show ?thesis using r by blast
qed

text \<open>C13: \<open>player_post_result\<close> is atomic. When any number of calls, each for two players with different
identities, have returned, then whatever the interleaving was, the ratings are those that the calls
leave when they run one after the other in some order, and all mutexes are free again: no update is lost
and no rating is computed from a mixture of old and new ratings.\<close>

theorem posts_serializable:
  assumes "posts_reach calls (players w) k s" and "\<forall>c \<in> set calls. call_ok (players w) c"
    and "\<forall>t < length calls. pcs s t = Returned"
  shows "(\<exists>ord. distinct ord \<and> set ord = {..<length calls} \<and>
      post_all (map ((!) calls) ord) w = Some (w\<lparr>players := rated s\<rparr>)) \<and>
    (\<forall>a. mutex s a = None)"
proof -
  obtain ord where I: "locks_inv calls (players w) s" "ratings_inv calls (players w) s ord"
    using posts_reach_inv [OF assms(1,2)] by (auto simp: posts_inv_def)
  have ord: "distinct ord" "set ord = {..<length calls}" "rated s = half_posted calls s (posted calls ord (players w))"
    using I(2) assms(3) by (auto simp: ratings_inv_def committed_def)
  have free: "mutex s a = None" for a
  proof (rule ccontr)
    assume "mutex s a \<noteq> None"
    then show False using I(1) assms(3) by (auto simp: locks_inv_def)
  qed
  have "rated s = posted calls ord (players w)" using ord(3) free by (simp add: half_posted_def fun_eq_iff)
  moreover have "\<forall>t \<in> set ord. call_ok (players w) (calls ! t)" using ord(2) assms(2) by auto
  ultimately show ?thesis using post_all_posted ord(1,2) free by metis
qed

theorem posts_serializable_witness:
  "\<exists>s ord. posts_reach crossed_posts (players crossed_world) 16 s \<and> set ord = {0, 1} \<and>
    post_all (map ((!) crossed_posts) ord) crossed_world = Some (crossed_world\<lparr>players := rated s\<rparr>)"
proof -
  have n: "length crossed_posts = 2" by (simp add: crossed_posts_def)
  then obtain s where s: "posts_reach crossed_posts (players crossed_world) 16 s"
    using complete_run [OF crossed_ok, of 16] by auto
  have "\<forall>t < length crossed_posts. pcs s t = Returned" using all_returned(2) [OF s crossed_ok] n by simp
  from posts_serializable [OF s crossed_ok this] obtain ord where "set ord = {..<2}"
      "post_all (map ((!) crossed_posts) ord) crossed_world = Some (crossed_world\<lparr>players := rated s\<rparr>)"
    unfolding n by blast
  moreover have "{..<2} = {0 :: nat, 1}" by auto
  ultimately show ?thesis using s by metis
qed

end
