(* ===== verification/Rio.thy ===== *)
theory Rio
  imports Protocol
begin

text \<open>
  The robust input and output of \<open>src/src/csapp.c\<close> (the package \<open>Rio\<close>): reading and writing a given number
  of bytes through partial transfers and interruptions, and the buffered reader of bytes and lines, over
  the record of the operating system of \<open>Protocol\<close>. A buffer of the caller is the list of the bytes that
  were written to it.
\<close>

definition RIO_BUFSIZE :: nat where
  "RIO_BUFSIZE = 8192"

record rio_t =
  rio_fd :: int
  rio_cnt :: int
  rio_bufptr :: nat
  rio_buf :: "byte list"

subsection \<open>Unbuffered transfers\<close>

text \<open>The loop of \<open>rio_readn\<close> with \<open>nleft\<close> bytes to go; what was read is in the buffer of the state.\<close>

partial_function (option) readn_loop ::
  "int \<Rightarrow> nat \<Rightarrow> nat \<Rightarrow> byte list \<times> os_state \<Rightarrow> (int \<times> byte list \<times> os_state) option" where
  "readn_loop fd n nleft s =
    (if nleft = 0 then Some (int n, s)
     else do {
       ((nread, eintr), s) \<leftarrow> os_read fd nleft s;
       if nread < 0 then (if eintr then readn_loop fd n nleft s else Some (-1, s))
       else if nread = 0 then Some (int n - int nleft, s)
       else readn_loop fd n (nleft - nat nread) s
     })"

definition rio_readn :: "int \<Rightarrow> nat \<Rightarrow> os_state \<Rightarrow> (int \<times> byte list \<times> os_state) option" where
  "rio_readn fd n os = readn_loop fd n n ([], os)"

text \<open>Writing up to \<open>n\<close> bytes at the offset \<open>p\<close>.\<close>

definition write_at :: "int \<Rightarrow> byte list \<Rightarrow> nat \<Rightarrow> nat \<Rightarrow> os_state \<Rightarrow> (int \<times> bool) \<times> os_state" where
  "write_at fd data p n os = os_write fd (take n (drop p data)) os"

text \<open>The loop of \<open>rio_writen\<close> at the offset \<open>p\<close>. A \<open>write\<close> that moves nothing leaves \<open>errno\<close> as it was, and
\<open>eintr\<close> tells whether that is \<open>EINTR\<close>.\<close>

partial_function (option) writen_loop ::
  "int \<Rightarrow> byte list \<Rightarrow> nat \<Rightarrow> nat \<Rightarrow> bool \<Rightarrow> os_state \<Rightarrow> (int \<times> os_state) option" where
  "writen_loop fd data p nleft eintr os =
    (if nleft = 0 then Some (int (length data), os)
     else (case write_at fd data p nleft os of ((nwritten, interrupted), os) \<Rightarrow>
       let eintr = (if nwritten < 0 then interrupted else eintr) in
       if nwritten \<le> 0 then (if eintr then writen_loop fd data p nleft eintr os else Some (-1, os))
       else writen_loop fd data (p + nat nwritten) (nleft - nat nwritten) eintr os))"

definition rio_writen :: "int \<Rightarrow> byte list \<Rightarrow> bool \<Rightarrow> os_state \<Rightarrow> (int \<times> os_state) option" where
  "rio_writen fd data eintr os = writen_loop fd data 0 (length data) eintr os"

subsection \<open>The buffered reader\<close>

definition rio_readinitb :: "rio_t \<Rightarrow> int \<Rightarrow> rio_t" where
  "rio_readinitb rp fd = rp\<lparr>rio_fd := fd, rio_cnt := 0, rio_bufptr := 0\<rparr>"

text \<open>The loop of \<open>rio_read\<close> that refills the internal buffer: 1 when there are unread bytes, 0 at the end of
the stream, \<open>-1\<close> for an error.\<close>

partial_function (option) rio_refill :: "rio_t \<Rightarrow> os_state \<Rightarrow> (int \<times> rio_t \<times> os_state) option" where
  "rio_refill rp os =
    (if 0 < rio_cnt rp then Some (1, rp, os)
     else do {
       ((n, eintr), data, os) \<leftarrow> os_read (rio_fd rp) RIO_BUFSIZE ([], os);
       let rp = rp\<lparr>rio_cnt := n, rio_buf := data @ drop (length data) (rio_buf rp)\<rparr>;
       if n < 0 then (if \<not> eintr then Some (-1, rp, os) else rio_refill rp os)
       else if n = 0 then Some (0, rp, os)
       else rio_refill (rp\<lparr>rio_bufptr := 0\<rparr>) os
     })"

text \<open>The status, the bytes that were copied to the caller, and the new state; reading behind the end of the
internal buffer is undefined.\<close>

definition rio_read :: "rio_t \<Rightarrow> nat \<Rightarrow> os_state \<Rightarrow> (int \<times> byte list \<times> rio_t \<times> os_state) option" where
  "rio_read rp n os = do {
     (st, rp, os) \<leftarrow> rio_refill rp os;
     if st \<noteq> 1 then Some (st, [], rp, os)
     else
       let cnt = (if rio_cnt rp < int n then rio_cnt rp else int n) in
       if length (rio_buf rp) < rio_bufptr rp + nat cnt then None
       else Some (cnt, take (nat cnt) (drop (rio_bufptr rp) (rio_buf rp)),
              rp\<lparr>rio_bufptr := rio_bufptr rp + nat cnt, rio_cnt := rio_cnt rp - cnt\<rparr>, os)
   }"

partial_function (option) readnb_loop ::
  "nat \<Rightarrow> nat \<Rightarrow> byte list \<Rightarrow> rio_t \<Rightarrow> os_state \<Rightarrow> (int \<times> byte list \<times> rio_t \<times> os_state) option" where
  "readnb_loop n nleft usrbuf rp os =
    (if nleft = 0 then Some (int n, usrbuf, rp, os)
     else do {
       (nread, bs, rp, os) \<leftarrow> rio_read rp nleft os;
       if nread < 0 then Some (-1, usrbuf, rp, os)
       else if nread = 0 then Some (int n - int nleft, usrbuf, rp, os)
       else readnb_loop n (nleft - nat nread) (usrbuf @ bs) rp os
     })"

definition rio_readnb :: "rio_t \<Rightarrow> nat \<Rightarrow> os_state \<Rightarrow> (int \<times> byte list \<times> rio_t \<times> os_state) option" where
  "rio_readnb rp n os = readnb_loop n n [] rp os"

text \<open>The loop of \<open>rio_readlineb\<close> with \<open>maxlen - n\<close> passes to go; \<open>usrbuf\<close> holds the \<open>n - 1\<close> bytes of the line
so far. The line is terminated by a zero byte, except when nothing was read. The counter \<open>n\<close> is an \<open>int\<close>,
which is incremented after every byte: its overflow is undefined.\<close>

fun readline_loop ::
  "nat \<Rightarrow> byte list \<Rightarrow> rio_t \<Rightarrow> os_state \<Rightarrow> (int \<times> byte list \<times> rio_t \<times> os_state) option" where
  "readline_loop 0 usrbuf rp os = Some (int (length usrbuf), usrbuf @ [0], rp, os)"
| "readline_loop (Suc passes) usrbuf rp os = do {
     (rc, bs, rp, os) \<leftarrow> rio_read rp 1 os;
     if rc = 1 then
       (let usrbuf = usrbuf @ bs in
        if 2 ^ 31 \<le> length usrbuf + 1 then None
        else if bs = [10] then Some (int (length usrbuf), usrbuf @ [0], rp, os)
        else readline_loop passes usrbuf rp os)
     else if rc = 0 then
       (if usrbuf = [] then Some (0, usrbuf, rp, os)
        else Some (int (length usrbuf), usrbuf @ [0], rp, os))
     else Some (-1, usrbuf, rp, os)
   }"

text \<open>With \<open>maxlen = 0\<close> the terminator is written behind the end of the caller's buffer.\<close>

definition rio_readlineb :: "rio_t \<Rightarrow> nat \<Rightarrow> os_state \<Rightarrow> (int \<times> byte list \<times> rio_t \<times> os_state) option" where
  "rio_readlineb rp maxlen os = (if maxlen = 0 then None else readline_loop (maxlen - 1) [] rp os)"

subsection \<open>Whole buffers\<close>

lemma os_write_cases:
  assumes "n \<noteq> 0" and "p + n \<le> length data"
  obtains (data) j os1 where "write_at fd data p n os = ((int j, False), os1)" "wrote fd (take j (drop p data)) os os1"
      "0 < j" "j \<le> n" "length (net os1) \<le> length (net os)"
  | (stalled) os1 where "write_at fd data p n os = ((0, False), os1)" "wrote fd [] os os1" "length (net os1) < length (net os)"
  | (interrupted) os1 where "write_at fd data p n os = ((-1, True), os1)" "wrote fd [] os os1" "length (net os1) < length (net os)"
  | (broken) os1 where "write_at fd data p n os = ((-1, False), os1)" "wrote fd [] os os1" "Broken \<in> set (net os)"
proof (cases "net os")
  case Nil
  then have "write_at fd data p n os = ((int n, False), os\<lparr>net := [], wire := wire os @ [(fd, take n (drop p data))]\<rparr>)"
    using assms(2) by (cases os) (simp add: write_at_def os_write_def)
  then show thesis using data wrote_log [of fd "take n (drop p data)"] assms(1) by simp
next
  case (Cons r rs)
  show thesis
  proof (cases r)
    case (Done k)
    let ?m = "min k n" and ?os1 = "os\<lparr>net := rs, wire := wire os @ [(fd, take (min k n) (drop p data))]\<rparr>"
    have op: "write_at fd data p n os = ((int ?m, False), ?os1)"
      using assms(2) Cons Done by (simp add: write_at_def os_write_def Let_def min_absorb1)
    have w: "wrote fd (take ?m (drop p data)) os ?os1" by (rule wrote_log)
    show thesis
    proof (cases "k = 0")
      case True
      show thesis by (rule stalled [of ?os1]) (use op w Cons True in simp_all)
    next
      case False
      show thesis by (rule data [of ?m ?os1]) (use op w Cons assms(1) False in simp_all)
    qed
  next
    case Interrupted
    then show thesis using Cons interrupted [of "os\<lparr>net := rs\<rparr>"] by (simp add: write_at_def os_write_def)
  next
    case Broken
    then show thesis using Cons broken [of "os\<lparr>net := rs\<rparr>"] by (simp add: write_at_def os_write_def)
  qed
qed

lemma writen_result:
  assumes "p + n \<le> length data"
  shows "\<exists>st k os'. writen_loop fd data p n eintr os = Some (st, os') \<and> wrote fd (take k (drop p data)) os os' \<and>
    (st = int (length data) \<and> k = n \<or> st = -1 \<and> k < n)"
  using assms
proof (induction "length (net os) + n" arbitrary: p n eintr os rule: less_induct)
  case less
  show ?case
  proof (cases "n = 0")
    case True
    then show ?thesis by (simp add: writen_loop.simps)
  next
    case False
    note unfold = writen_loop.simps [of fd data p n eintr os]
    have again: ?thesis
      if "writen_loop fd data p n eintr os = writen_loop fd data p n e os1" "wrote fd [] os os1" "length (net os1) < length (net os)" for e os1
    proof -
      have "length (net os1) + n < length (net os) + n" using that(3) by simp
      from less.hyps [OF this less.prems, of e] obtain st k os' where IH:
        "writen_loop fd data p n e os1 = Some (st, os')" "wrote fd (take k (drop p data)) os1 os'"
        "st = int (length data) \<and> k = n \<or> st = -1 \<and> k < n" by blast
      then show ?thesis using that(1) wrote_trans [OF that(2) IH(2)] by auto
    qed
    from False less.prems show ?thesis
    proof (cases rule: os_write_cases [where fd = fd and os = os, consumes 2])
      case (data j os1)
      have eq: "writen_loop fd data p n eintr os = writen_loop fd data (p + j) (n - j) eintr os1"
        using False data(1,3) by (simp add: unfold)
      have "length (net os1) + (n - j) < length (net os) + n" "p + j + (n - j) \<le> length data" using data(3-5) less.prems by simp_all
      from less.hyps [OF this, of eintr] obtain st k os' where IH:
        "writen_loop fd data (p + j) (n - j) eintr os1 = Some (st, os')" "wrote fd (take k (drop (p + j) data)) os1 os'"
        "st = int (length data) \<and> k = n - j \<or> st = -1 \<and> k < n - j" by blast
      have "take j (drop p data) @ take k (drop (p + j) data) = take (j + k) (drop p data)"
        by (subst take_add) (simp add: add.commute)
      with wrote_trans [OF data(2) IH(2)] have "wrote fd (take (j + k) (drop p data)) os os'" by simp
      moreover have "st = int (length data) \<and> j + k = n \<or> st = -1 \<and> j + k < n" using IH(3) data(4) by auto
      ultimately show ?thesis using IH(1) eq by metis
    next
      case (stalled os1)
      show ?thesis
      proof (cases eintr)
        case True
        then have "writen_loop fd data p n eintr os = writen_loop fd data p n True os1"
          using \<open>n \<noteq> 0\<close> stalled(1) by (subst unfold) simp
        then show ?thesis by (rule again [OF _ stalled(2,3)])
      next
        case False
        then have "writen_loop fd data p n eintr os = Some (-1, os1)" using \<open>n \<noteq> 0\<close> stalled(1) by (subst unfold) simp
        then show ?thesis using stalled(2) \<open>n \<noteq> 0\<close> by (intro exI [of _ "-1"] exI [of _ 0] exI [of _ os1]) simp
      qed
    next
      case (interrupted os1)
      then show ?thesis using False again [of True os1] by (simp add: unfold)
    next
      case (broken os1)
      then have "writen_loop fd data p n eintr os = Some (-1, os1)" using False by (simp add: unfold)
      then show ?thesis using broken(2) False by (intro exI [of _ "-1"] exI [of _ 0] exI [of _ os1]) simp
    qed
  qed
qed

lemma readn_result:
  assumes "read_ends fd os \<or> nleft \<le> length (inbox os fd)"
  shows "\<exists>st k os'. readn_loop fd n nleft (buf, os) = Some (st, buf @ take k (inbox os fd), os') \<and> took fd k os os' \<and>
    k \<le> length (inbox os fd) \<and>
    (st = int n - int nleft + int k \<and> k = min nleft (length (inbox os fd)) \<or> st = -1 \<and> Broken \<in> set (rnet os))"
  using assms
proof (induction "length (rnet os) + nleft" arbitrary: nleft buf os rule: less_induct)
  case less
  show ?case
  proof (cases "nleft = 0")
    case True
    then show ?thesis by (auto simp: readn_loop.simps intro!: exI [of _ 0])
  next
    case False
    note unfold = readn_loop.simps [of fd n nleft "(buf, os)"]
    from False show ?thesis
    proof (cases rule: os_read_cases [where n = nleft and fd = fd and buf = buf and os = os, consumes 1])
      case (data j os1)
      have eq: "readn_loop fd n nleft (buf, os) = readn_loop fd n (nleft - j) (buf @ take j (inbox os fd), os1)"
        using False data(1,3) by (simp add: unfold)
      have "length (rnet os1) + (nleft - j) < length (rnet os) + nleft" using data by simp
      have e: "read_ends fd os1 \<or> nleft - j \<le> length (inbox os1 fd)"
        using less.prems took_ends [OF data(2)] took_inbox [OF data(2)] by auto
      from less.hyps [OF \<open>length (rnet os1) + (nleft - j) < length (rnet os) + nleft\<close> e, of "buf @ take j (inbox os fd)"] obtain st k os' where IH:
        "readn_loop fd n (nleft - j) (buf @ take j (inbox os fd), os1) =
           Some (st, (buf @ take j (inbox os fd)) @ take k (inbox os1 fd), os')"
        "took fd k os1 os'" "k \<le> length (inbox os1 fd)"
        "st = int n - int (nleft - j) + int k \<and> k = min (nleft - j) (length (inbox os1 fd)) \<or> st = -1 \<and> Broken \<in> set (rnet os1)"
        by (elim exE conjE) (rule that)
      have i: "inbox os1 fd = drop j (inbox os fd)" by (rule took_inbox [OF data(2)])
      have br: "Broken \<in> set (rnet os)" if "Broken \<in> set (rnet os1)" using that took_broken [OF data(2)] by blast
      have "(buf @ take j (inbox os fd)) @ take k (inbox os1 fd) = buf @ take (j + k) (inbox os fd)"
        by (simp add: i take_add)
      with IH(1) have 1: "readn_loop fd n nleft (buf, os) = Some (st, buf @ take (j + k) (inbox os fd), os')" by (simp only: eq)
      have 2: "j + k \<le> length (inbox os fd)" using IH(3) data(5) unfolding i by simp
      have 3: "st = int n - int nleft + int (j + k) \<and> j + k = min nleft (length (inbox os fd))"
        if "st = int n - int (nleft - j) + int k \<and> k = min (nleft - j) (length (inbox os1 fd))"
        using that data(4,5) unfolding i by (auto simp: of_nat_diff)
      show ?thesis using 1 2 3 IH(4) br took_trans [OF data(2) IH(2)] by blast
    next
      case (eof os1)
      then have "readn_loop fd n nleft (buf, os) = Some (int n - int nleft, buf, os1)" using False by (simp add: unfold)
      then show ?thesis using eof by (auto intro!: exI [of _ 0])
    next
      case (interrupted os1)
      have eq: "readn_loop fd n nleft (buf, os) = readn_loop fd n nleft (buf, os1)"
        using False interrupted(1) by (simp add: unfold)
      have "length (rnet os1) + nleft < length (rnet os) + nleft" using interrupted(3) by simp
      moreover have "read_ends fd os1 \<or> nleft \<le> length (inbox os1 fd)"
        using less.prems took_ends [OF interrupted(2)] took_inbox [OF interrupted(2)] by auto
      ultimately show ?thesis
        using less.hyps [of os1 nleft buf] took_trans [OF interrupted(2)] took_inbox [OF interrupted(2)] took_broken [OF interrupted(2)] eq by fastforce
    next
      case (broken os1)
      then have "readn_loop fd n nleft (buf, os) = Some (-1, buf, os1)" using False by (simp add: unfold)
      then show ?thesis using broken by (auto intro!: exI [of _ 0])
    next
      case blocked
      then show ?thesis using less.prems False by simp
    qed
  qed
qed

subsection \<open>What is still to be read\<close>

text \<open>The reader as an abstract stream: the unread bytes of the internal buffer, and what the descriptor still
has.\<close>

definition rio_ok :: "rio_t \<Rightarrow> bool" where
  "rio_ok rp \<longleftrightarrow> (0 < rio_cnt rp \<longrightarrow> rio_bufptr rp + nat (rio_cnt rp) \<le> length (rio_buf rp))"

definition unread :: "rio_t \<Rightarrow> byte list" where
  "unread rp = take (nat (rio_cnt rp)) (drop (rio_bufptr rp) (rio_buf rp))"

definition pending :: "rio_t \<Rightarrow> os_state \<Rightarrow> byte list" where
  "pending rp os = unread rp @ inbox os (rio_fd rp)"

lemma readinitb_pending: "pending (rio_readinitb rp fd) os = inbox os fd" and readinitb_ok: "rio_ok (rio_readinitb rp fd)"
  by (simp_all add: pending_def unread_def rio_readinitb_def rio_ok_def)

text \<open>\<open>k\<close> bytes are gone from the stream, and nothing else has changed.\<close>

definition consumed :: "nat \<Rightarrow> rio_t \<Rightarrow> os_state \<Rightarrow> rio_t \<Rightarrow> os_state \<Rightarrow> bool" where
  "consumed k rp os rp' os' \<longleftrightarrow> k \<le> length (pending rp os) \<and> pending rp' os' = drop k (pending rp os) \<and> rio_ok rp' \<and>
     rio_fd rp' = rio_fd rp \<and> (\<exists>j. took (rio_fd rp) j os os')"

lemma consumed_refl: "rio_ok rp \<Longrightarrow> consumed 0 rp os rp os"
  by (auto simp: consumed_def intro: exI [of _ 0])

lemma consumed_trans:
  assumes "consumed j rp os rp1 os1" and "consumed k rp1 os1 rp2 os2"
  shows "consumed (j + k) rp os rp2 os2"
proof -
  obtain i l where "took (rio_fd rp) i os os1" "took (rio_fd rp) l os1 os2" using assms by (auto simp: consumed_def)
  from took_trans [OF this] show ?thesis using assms by (auto simp: consumed_def add.commute)
qed

lemma consumed_ok: "consumed k rp os rp' os' \<Longrightarrow> rio_ok rp'"
  by (simp add: consumed_def)

lemma consumed_pending: "consumed k rp os rp' os' \<Longrightarrow> pending rp' os' = drop k (pending rp os)"
  by (simp add: consumed_def)

lemma consumed_broken: "consumed k rp os rp' os' \<Longrightarrow> Broken \<notin> set (rnet os) \<Longrightarrow> Broken \<notin> set (rnet os')"
  by (auto simp: consumed_def dest: took_broken)

lemma consumed_ends: "consumed k rp os rp' os' \<Longrightarrow> rio_fd rp' = rio_fd rp \<and> read_ends fd os' = read_ends fd os"
  by (auto simp: consumed_def dest: took_ends)

lemma refill_unread: "0 < rio_cnt rp \<Longrightarrow> rio_refill rp os = Some (1, rp, os)"
  by (simp add: rio_refill.simps)

text \<open>A read does not wait when there is something to read, or nothing more comes.\<close>

lemma refill_result:
  assumes "rio_ok rp" and "read_ends (rio_fd rp) os \<or> pending rp os \<noteq> []"
  shows "\<exists>st rp' os'. rio_refill rp os = Some (st, rp', os') \<and> consumed 0 rp os rp' os' \<and>
    (st = 1 \<and> 0 < rio_cnt rp' \<or> st = 0 \<and> pending rp os = [] \<or> st = -1 \<and> Broken \<in> set (rnet os))"
  using assms
proof (induction "length (rnet os)" arbitrary: rp os rule: less_induct)
  case less
  show ?case
  proof (cases "0 < rio_cnt rp")
    case True
    then show ?thesis using consumed_refl [OF less.prems(1)] by (simp add: refill_unread)
  next
    case False
    have nz: "RIO_BUFSIZE \<noteq> 0" by (simp add: RIO_BUFSIZE_def)
    have p: "pending rp os = inbox os (rio_fd rp)" using False by (simp add: pending_def unread_def)
    note unfold = rio_refill.simps [of rp os]
    from nz show ?thesis
    proof (cases rule: os_read_cases [where fd = "rio_fd rp" and buf = "[]" and os = os, consumes 1])
      case (data j os1)
      let ?bs = "take j (inbox os (rio_fd rp))"
      let ?rp = "rp\<lparr>rio_cnt := int j, rio_buf := ?bs @ drop (length ?bs) (rio_buf rp), rio_bufptr := 0\<rparr>"
      have "rio_refill rp os = Some (1, ?rp, os1)"
        using False data by (simp add: unfold Let_def refill_unread)
      moreover have "consumed 0 rp os ?rp os1"
        using data p took_inbox [OF data(2)] by (auto simp: consumed_def pending_def unread_def rio_ok_def)
      ultimately show ?thesis using data(3) by auto
    next
      case (eof os1)
      then have "rio_refill rp os = Some (0, rp\<lparr>rio_cnt := 0\<rparr>, os1)" using False by (simp add: unfold Let_def)
      moreover have "consumed 0 rp os (rp\<lparr>rio_cnt := 0\<rparr>) os1"
        using eof p took_inbox [OF eof(2)] by (auto simp: consumed_def pending_def unread_def rio_ok_def)
      ultimately show ?thesis using eof(3) p by auto
    next
      case (interrupted os1)
      let ?rp = "rp\<lparr>rio_cnt := -1\<rparr>"
      have eq: "rio_refill rp os = rio_refill ?rp os1" using False interrupted(1) by (simp add: unfold Let_def)
      have c: "consumed 0 rp os ?rp os1"
        using interrupted p took_inbox [OF interrupted(2)] by (auto simp: consumed_def pending_def unread_def rio_ok_def)
      have "read_ends (rio_fd ?rp) os1 \<or> pending ?rp os1 \<noteq> []"
        using less.prems(2) consumed_ends [OF c] consumed_pending [OF c] by simp
      from less.hyps [OF interrupted(3) consumed_ok [OF c] this] obtain st rp' os' where IH:
        "rio_refill ?rp os1 = Some (st, rp', os')" "consumed 0 ?rp os1 rp' os'"
        "st = 1 \<and> 0 < rio_cnt rp' \<or> st = 0 \<and> pending ?rp os1 = [] \<or> st = -1 \<and> Broken \<in> set (rnet os1)" by blast
      have "Broken \<in> set (rnet os)" if "Broken \<in> set (rnet os1)" using that took_broken [OF interrupted(2)] by blast
      then show ?thesis using IH consumed_trans [OF c IH(2)] consumed_pending [OF c] eq by fastforce
    next
      case (broken os1)
      then have "rio_refill rp os = Some (-1, rp\<lparr>rio_cnt := -1\<rparr>, os1)" using False by (simp add: unfold Let_def)
      moreover have "consumed 0 rp os (rp\<lparr>rio_cnt := -1\<rparr>) os1"
        using broken p took_inbox [OF broken(2)] by (auto simp: consumed_def pending_def unread_def rio_ok_def)
      ultimately show ?thesis using broken(3) by auto
    next
      case blocked
      then show ?thesis using less.prems(2) p by simp
    qed
  qed
qed

lemma read_result:
  assumes "rio_ok rp" and "0 < n" and "read_ends (rio_fd rp) os \<or> pending rp os \<noteq> []"
  shows "\<exists>st bs rp' os'. rio_read rp n os = Some (st, bs, rp', os') \<and> consumed (length bs) rp os rp' os' \<and>
    bs = take (length bs) (pending rp os) \<and> length bs \<le> n \<and>
    (0 < st \<and> st = int (length bs) \<or> st = 0 \<and> pending rp os = [] \<and> bs = [] \<or> st = -1 \<and> bs = [] \<and> Broken \<in> set (rnet os))"
proof -
  obtain st rp' os' where r: "rio_refill rp os = Some (st, rp', os')" "consumed 0 rp os rp' os'"
    "st = 1 \<and> 0 < rio_cnt rp' \<or> st = 0 \<and> pending rp os = [] \<or> st = -1 \<and> Broken \<in> set (rnet os)"
    using refill_result [OF assms(1,3)] by blast
  show ?thesis
  proof (cases "st = 1")
    case False
    then show ?thesis using r by (auto simp: rio_read_def)
  next
    case True
    then have pos: "0 < rio_cnt rp'" using r(3) by auto
    let ?k = "min (nat (rio_cnt rp')) n"
    let ?rp = "rp'\<lparr>rio_bufptr := rio_bufptr rp' + ?k, rio_cnt := rio_cnt rp' - int ?k\<rparr>"
    have len: "rio_bufptr rp' + nat (rio_cnt rp') \<le> length (rio_buf rp')" using consumed_ok [OF r(2)] pos by (simp add: rio_ok_def)
    have cnt: "(if rio_cnt rp' < int n then rio_cnt rp' else int n) = int ?k" using pos by auto
    let ?bs = "take ?k (drop (rio_bufptr rp') (rio_buf rp'))"
    have rd: "rio_read rp n os = Some (int ?k, ?bs, ?rp, os')"
      using r(1) True len by (simp add: rio_read_def cnt Let_def)
    have lb: "length ?bs = ?k" using len by auto
    have p: "pending rp' os' = pending rp os" using consumed_pending [OF r(2)] by simp
    have lu: "length (unread rp') = nat (rio_cnt rp')" using len by (simp add: unread_def)
    then have "take ?k (pending rp' os') = take ?k (unread rp')" by (simp add: pending_def)
    then have bs: "?bs = take ?k (pending rp' os')" by (simp add: unread_def)
    have u: "unread ?rp = drop ?k (unread rp')"
      using pos by (auto simp: unread_def drop_take nat_diff_distrib min_def add.commute)
    have "consumed ?k rp' os' ?rp os'"
      using lu u len pos by (auto simp: consumed_def pending_def rio_ok_def nat_diff_distrib intro: exI [of _ 0])
    from consumed_trans [OF r(2) this] have "consumed (length ?bs) rp os ?rp os'" using lb by simp
    moreover have "0 < int ?k" using pos assms(2) by simp
    ultimately show ?thesis using rd bs lb p by (intro exI [of _ "int ?k"] exI [of _ ?bs] exI [of _ ?rp] exI [of _ os']) simp
  qed
qed

subsection \<open>Blocks and lines\<close>

lemma readnb_result:
  assumes "rio_ok rp" and "read_ends (rio_fd rp) os \<or> nleft \<le> length (pending rp os)"
  shows "\<exists>st bs rp' os'. readnb_loop n nleft usrbuf rp os = Some (st, usrbuf @ bs, rp', os') \<and>
    consumed (length bs) rp os rp' os' \<and> bs = take (length bs) (pending rp os) \<and>
    (st = int n - int nleft + int (length bs) \<and> length bs = min nleft (length (pending rp os)) \<or>
     st = -1 \<and> Broken \<in> set (rnet os))"
  using assms
proof (induction nleft arbitrary: usrbuf rp os rule: less_induct)
  case (less nleft)
  show ?case
  proof (cases "nleft = 0")
    case True
    then show ?thesis using consumed_refl [OF less.prems(1)] by (simp add: readnb_loop.simps)
  next
    case False
    then have pos: "0 < nleft" and e: "read_ends (rio_fd rp) os \<or> pending rp os \<noteq> []" using less.prems(2) by auto
    obtain st bs rp1 os1 where r: "rio_read rp nleft os = Some (st, bs, rp1, os1)" "consumed (length bs) rp os rp1 os1"
      "bs = take (length bs) (pending rp os)" "length bs \<le> nleft"
      "0 < st \<and> st = int (length bs) \<or> st = 0 \<and> pending rp os = [] \<and> bs = [] \<or> st = -1 \<and> bs = [] \<and> Broken \<in> set (rnet os)"
      using read_result [OF less.prems(1) pos e] by blast
    show ?thesis
    proof (cases "0 < st")
      case False
      then have e: "bs = []" "st = 0 \<and> pending rp os = [] \<or> st = -1 \<and> Broken \<in> set (rnet os)" using r(5) by auto
      have "readnb_loop n nleft usrbuf rp os = Some (if st < 0 then -1 else int n - int nleft, usrbuf, rp1, os1)"
        using r(1) e(2) \<open>nleft \<noteq> 0\<close> by (subst readnb_loop.simps) auto
      then show ?thesis using e r(2)
        by (intro exI [of _ "if st < 0 then -1 else int n - int nleft"] exI [of _ "[]"] exI [of _ rp1] exI [of _ os1]) auto
    next
      case True
      then have st: "st = int (length bs)" "0 < length bs" using r(5) by auto
      have eq: "readnb_loop n nleft usrbuf rp os = readnb_loop n (nleft - length bs) (usrbuf @ bs) rp1 os1"
        using r(1) st \<open>nleft \<noteq> 0\<close> by (subst readnb_loop.simps) simp
      have less': "nleft - length bs < nleft" using st \<open>nleft \<noteq> 0\<close> by simp
      have e': "read_ends (rio_fd rp1) os1 \<or> nleft - length bs \<le> length (pending rp1 os1)"
        using less.prems(2) consumed_ends [OF r(2), of "rio_fd rp"] by (auto simp: consumed_pending [OF r(2)])
      obtain st' bs' rp' os' where IH:
        "readnb_loop n (nleft - length bs) (usrbuf @ bs) rp1 os1 = Some (st', (usrbuf @ bs) @ bs', rp', os')"
        "consumed (length bs') rp1 os1 rp' os'" "bs' = take (length bs') (pending rp1 os1)"
        "st' = int n - int (nleft - length bs) + int (length bs') \<and> length bs' = min (nleft - length bs) (length (pending rp1 os1)) \<or>
         st' = -1 \<and> Broken \<in> set (rnet os1)"
        using less.IH [OF less' consumed_ok [OF r(2)] e', of "usrbuf @ bs"] by blast
      have p1: "pending rp1 os1 = drop (length bs) (pending rp os)" by (rule consumed_pending [OF r(2)])
      have le: "length bs \<le> length (pending rp os)" using r(2) by (simp add: consumed_def)
      have lp: "length (pending rp1 os1) = length (pending rp os) - length bs" by (simp add: p1)
      note parts = r(3) [symmetric] IH(3) [unfolded p1, symmetric]
      have "take (length bs + length bs') (pending rp os) = bs @ bs'"
        by (rule trans [OF take_add arg_cong2 [where f = "(@)", OF parts]])
      then have pre: "bs @ bs' = take (length (bs @ bs')) (pending rp os)" by (simp only: length_append)
      have con: "consumed (length (bs @ bs')) rp os rp' os'" using consumed_trans [OF r(2) IH(2)] by simp
      have br: "Broken \<in> set (rnet os)" if "Broken \<in> set (rnet os1)" using that consumed_broken [OF r(2)] by blast
      have ret: "st' = int n - int nleft + int (length (bs @ bs'))"
        if "st' = int n - int (nleft - length bs) + int (length bs')" using that r(4) by simp
      have len: "length (bs @ bs') = min nleft (length (pending rp os))"
        if "length bs' = min (nleft - length bs) (length (pending rp1 os1))"
        using that le r(4) unfolding lp by simp
      have "readnb_loop n nleft usrbuf rp os = Some (st', usrbuf @ bs @ bs', rp', os')" using IH(1) eq by simp
      then show ?thesis using con pre br ret len IH(4) by blast
    qed
  qed
qed

text \<open>The first line of a stream with its newline, cut to \<open>m\<close> bytes.\<close>

definition next_line :: "nat \<Rightarrow> byte list \<Rightarrow> byte list" where
  "next_line m bs = take m (takeWhile (\<lambda>b. b \<noteq> 10) bs @ take 1 (dropWhile (\<lambda>b. b \<noteq> 10) bs))"

lemma next_line_simps [simp]:
  "next_line 0 bs = []" "next_line m [] = []"
  "next_line (Suc m) (b # bs) = (if b = 10 then [b] else b # next_line m bs)"
  by (simp_all add: next_line_def)

lemma next_line_prefix: "take (length (next_line m bs)) bs = next_line m bs"
proof (induction bs arbitrary: m)
  case (Cons b bs)
  then show ?case by (cases m) auto
qed simp

lemma readline_result:
  assumes "rio_ok rp" and "length usrbuf + m + 1 < 2 ^ 31"
    and "read_ends (rio_fd rp) os \<or> 10 \<in> set (pending rp os) \<or> m \<le> length (pending rp os)"
  shows "\<exists>st buf k rp' os'. readline_loop m usrbuf rp os = Some (st, buf, rp', os') \<and> consumed k rp os rp' os' \<and>
    (let l = next_line m (pending rp os) in
       k = length l \<and> st = int (length (usrbuf @ l)) \<and>
         buf = (if usrbuf = [] \<and> pending rp os = [] \<and> 0 < m then [] else usrbuf @ l @ [0]) \<or>
       st = -1 \<and> Broken \<in> set (rnet os))"
  using assms
proof (induction m arbitrary: usrbuf rp os)
  case 0
  then show ?case using consumed_refl [OF 0(1)] by (auto simp: Let_def intro!: exI [of _ 0])
next
  case (Suc m)
  have "read_ends (rio_fd rp) os \<or> pending rp os \<noteq> []" using Suc.prems(3) by auto
  then obtain st bs rp1 os1 where r: "rio_read rp 1 os = Some (st, bs, rp1, os1)" "consumed (length bs) rp os rp1 os1"
    "bs = take (length bs) (pending rp os)" "length bs \<le> 1"
    "0 < st \<and> st = int (length bs) \<or> st = 0 \<and> pending rp os = [] \<and> bs = [] \<or> st = -1 \<and> bs = [] \<and> Broken \<in> set (rnet os)"
    using read_result [OF Suc.prems(1), of 1 os] by auto
  show ?case
  proof (cases "0 < st")
    case False
    then show ?thesis using r by (auto simp: Let_def intro!: exI [of _ "0 :: nat"])
  next
    case True
    then have "bs \<noteq> []" "st = int (length bs)" using r(5) by auto
    then obtain b where b: "bs = [b]" using r(4) by (cases bs) auto
    then have st: "st = 1" "length bs = 1" using \<open>st = int (length bs)\<close> by simp_all
    then have p: "pending rp os = b # pending rp1 os1"
      using r(3) consumed_pending [OF r(2)] st unfolding b by (cases "pending rp os") auto
    have small: "\<not> 2 ^ 31 \<le> length (usrbuf @ bs) + 1" using Suc.prems(2) b by simp
    show ?thesis
    proof (cases "b = 10")
      case True
      then show ?thesis using r(1,2) st b p small by (auto simp: Let_def intro!: exI [of _ "1 :: nat"])
    next
      case False
      have eq: "readline_loop (Suc m) usrbuf rp os = readline_loop m (usrbuf @ [b]) rp1 os1"
        using r(1) st b False small by (simp add: Let_def)
      have "length (usrbuf @ [b]) + m + 1 < 2 ^ 31" using Suc.prems(2) by simp
      moreover have "read_ends (rio_fd rp1) os1 \<or> 10 \<in> set (pending rp1 os1) \<or> m \<le> length (pending rp1 os1)"
        using Suc.prems(3) consumed_ends [OF r(2), of "rio_fd rp"] p False by auto
      ultimately obtain st' buf k rp' os' where IH:
        "readline_loop m (usrbuf @ [b]) rp1 os1 = Some (st', buf, rp', os')" "consumed k rp1 os1 rp' os'"
        "let l = next_line m (pending rp1 os1) in
           k = length l \<and> st' = int (length ((usrbuf @ [b]) @ l)) \<and> buf = (usrbuf @ [b]) @ l @ [0] \<or>
           st' = -1 \<and> Broken \<in> set (rnet os1)"
        using Suc.IH [OF consumed_ok [OF r(2)], of "usrbuf @ [b]" os1] by (auto simp: Let_def)
      have "Broken \<in> set (rnet os)" if "Broken \<in> set (rnet os1)" using that consumed_broken [OF r(2)] by blast
      then show ?thesis
        using IH(1,3) consumed_trans [OF r(2) IH(2)] eq b p False
        by (intro exI [of _ st'] exI [of _ buf] exI [of _ "length bs + k"] exI [of _ rp'] exI [of _ os']) (auto simp: Let_def)
    qed
  qed
qed

subsection \<open>Properties\<close>

text \<open>C38: \<open>rio_writen\<close> always returns: the length when everything was written, \<open>-1\<close> when only a proper prefix
was. What one peer wrote with success the other reads back with \<open>rio_readn\<close>, from wherever it arrives,
and what follows it is left for the next call; partial transfers, writes that move nothing, and
interruptions do not matter.\<close>

theorem rio_writen_readn_roundtrip:
  assumes "rio_writen fd data eintr o1 = Some (st, o2)" and "st \<noteq> -1"
    and "inbox o3 peer = drop (length (stream fd o1)) (stream fd o2) @ later" and "Broken \<notin> set (rnet o3)"
  shows "st = int (length data) \<and>
    (\<exists>o4. rio_readn peer (length data) o3 = Some (int (length data), data, o4) \<and> inbox o4 peer = later)"
proof -
  obtain k where w: "wrote fd (take k data) o1 o2" "st = int (length data) \<and> k = length data \<or> st = -1 \<and> k < length data"
    using writen_result [of 0 "length data" data fd eintr o1] assms(1) by (auto simp: rio_writen_def)
  then have "stream fd o2 = stream fd o1 @ data" using assms(2) by (simp add: wrote_def)
  then have i: "inbox o3 peer = data @ later" using assms(3) by simp
  obtain st' k' o4 where r: "readn_loop peer (length data) (length data) ([], o3) = Some (st', [] @ take k' (inbox o3 peer), o4)"
    "took peer k' o3 o4" "st' = int (length data) - int (length data) + int k' \<and> k' = min (length data) (length (inbox o3 peer)) \<or>
      st' = -1 \<and> Broken \<in> set (rnet o3)"
    using readn_result [of peer o3 "length data" "length data" "[]"] i by auto
  then have "k' = length data" "st' = int (length data)" using assms(4) i by auto
  then show ?thesis using r(1) took_inbox [OF r(2)] i w(2) assms(2) by (auto simp: rio_readn_def)
qed

theorem rio_writen_readn_roundtrip_witness:
  "\<exists>o2 o4. rio_writen 4 [104, 105, 10] False (idle_os\<lparr>net := [Done 1, Interrupted, Done 0]\<rparr>) = Some (3, o2) \<and>
    rio_readn 5 3 (o2\<lparr>inbox := (\<lambda>_. [104, 105, 10, 33]), rnet := [Done 1]\<rparr>) = Some (3, [104, 105, 10], o4) \<and> inbox o4 5 = [33]"
proof -
  let ?o1 = "idle_os\<lparr>net := [Done 1, Interrupted, Done 0]\<rparr>"
  obtain o2 where o2: "rio_writen 4 [104, 105, 10] False ?o1 = Some (3, o2)" "stream 4 o2 = [104, 105, 10]"
    by (simp add: rio_writen_def writen_loop.simps write_at_def os_write_def idle_os_def stream_def)
  let ?o3 = "o2\<lparr>inbox := (\<lambda>_. [104, 105, 10, 33]), rnet := [Done 1]\<rparr>"
  have s: "stream 4 ?o1 = []" and l: "length [104, 105, 10 :: byte] = 3" by (simp_all add: stream_def idle_os_def)
  have "inbox ?o3 5 = drop (length (stream 4 ?o1)) (stream 4 o2) @ [33]" unfolding s o2(2) by simp
  from rio_writen_readn_roundtrip [OF o2(1) _ this] have "\<exists>o4. rio_readn 5 3 ?o3 = Some (3, [104, 105, 10], o4) \<and> inbox o4 5 = [33]"
    unfolding l by simp
  then show ?thesis using o2(1) by blast
qed

text \<open>C37: \<open>rio_readlineb\<close> implements the abstract operation that takes the next line from a stream, for every
size of the buffer below \<open>2 ^ 31\<close>, which is where its \<open>int\<close> counter would overflow. Whatever the partial
transfers and interruptions are, and however the internal buffer is filled, it returns as soon as there is
a line, or a full buffer, or the end of the stream: it reads the bytes up to and with the next newline, at
most \<open>maxlen - 1\<close> of them, terminates them with a zero byte, and leaves the rest of the stream for the next
call; at the end of the stream it returns 0. It returns \<open>-1\<close> only if the system reports an error.\<close>

theorem rio_readlineb_correct:
  assumes "rio_ok rp" and "1 < maxlen" and "maxlen < 2 ^ 31"
    and "read_ends (rio_fd rp) os \<or> 10 \<in> set (pending rp os) \<or> maxlen - 1 \<le> length (pending rp os)"
  shows "\<exists>st usrbuf rp' os'. rio_readlineb rp maxlen os = Some (st, usrbuf, rp', os') \<and> rio_ok rp' \<and>
    (let l = next_line (maxlen - 1) (pending rp os) in
       st = int (length l) \<and> l @ pending rp' os' = pending rp os \<and> usrbuf = (if l = [] then [] else l @ [0]) \<or>
       st = -1 \<and> Broken \<in> set (rnet os))"
proof -
  let ?l = "next_line (maxlen - 1) (pending rp os)"
  obtain m where m: "maxlen - 1 = Suc m" using assms(2) by (metis Suc_diff_Suc)
  obtain st buf k rp' os' where r: "readline_loop (maxlen - 1) [] rp os = Some (st, buf, rp', os')" "consumed k rp os rp' os'"
    "k = length ?l \<and> st = int (length ([] @ ?l)) \<and> buf = (if ([] :: byte list) = [] \<and> pending rp os = [] \<and> 0 < maxlen - 1 then [] else [] @ ?l @ [0]) \<or>
      st = -1 \<and> Broken \<in> set (rnet os)"
    using readline_result [OF assms(1) _ assms(4), of "[]"] assms(2,3) unfolding Let_def by auto
  have e: "?l = [] \<longleftrightarrow> pending rp os = []" unfolding m by (cases "pending rp os") auto
  have "?l @ pending rp' os' = pending rp os" if "k = length ?l"
    using consumed_pending [OF r(2)] next_line_prefix [of "maxlen - 1" "pending rp os"] that
    by (metis append_take_drop_id)
  then show ?thesis
    using r consumed_ok [OF r(2)] assms(2) e by (auto simp: rio_readlineb_def Let_def)
qed

theorem rio_readlineb_correct_witness:
  "\<exists>st usrbuf rp' os'. rio_readlineb (rio_readinitb \<lparr>rio_fd = 0, rio_cnt = 0, rio_bufptr = 0, rio_buf = []\<rparr> 4) 80
      (idle_os\<lparr>inbox := (\<lambda>_. [104, 105, 10, 111]), rnet := [Interrupted, Done 1]\<rparr>) = Some (st, usrbuf, rp', os') \<and>
    st = 3 \<and> usrbuf = [104, 105, 10, 0] \<and> pending rp' os' = [111]"
proof -
  let ?rp = "rio_readinitb \<lparr>rio_fd = 0, rio_cnt = 0, rio_bufptr = 0, rio_buf = []\<rparr> 4"
  let ?os = "idle_os\<lparr>inbox := (\<lambda>_. [104, 105, 10, 111]), rnet := [Interrupted, Done 1]\<rparr>"
  have l: "next_line (80 - 1) [104, 105, 10, 111 :: byte] = [104, 105, 10]" by (simp add: next_line_def)
  have p: "pending ?rp ?os = [104, 105, 10, 111]" by (simp add: readinitb_pending)
  have "read_ends (rio_fd ?rp) ?os \<or> 10 \<in> set (pending ?rp ?os) \<or> 80 - 1 \<le> length (pending ?rp ?os)"
    unfolding p by simp
  from rio_readlineb_correct [OF readinitb_ok _ _ this] obtain st usrbuf rp' os' where
    "rio_readlineb ?rp 80 ?os = Some (st, usrbuf, rp', os')"
    "st = 3 \<and> [104, 105, 10] @ pending rp' os' = [104, 105, 10, 111] \<and> usrbuf = [104, 105, 10, 0] \<or> Broken \<in> set (rnet ?os)"
    unfolding p l Let_def by auto
  then show ?thesis by auto
qed

end
