(* ===== verification/Sio.thy ===== *)
theory Sio
  imports Protocol "HOL-Library.Signed_Division"
begin

text \<open>
  The output functions of \<open>src/src/csapp.c\<close> for signal handlers (the package \<open>Sio\<close>): the length and the
  reversal of a string, the conversion of a \<open>long\<close>, and their output. A \<open>char\<close> array is the list of its
  bytes with the terminator. A \<open>long\<close> is an integer of 64 bits; the negation of the smallest one is undefined.
\<close>

subsection \<open>Strings\<close>

text \<open>The loop of \<open>sio_strlen\<close>; reading behind the end of the array is undefined.\<close>

function strlen_loop :: "byte list \<Rightarrow> nat \<Rightarrow> nat option" where
  "strlen_loop s i = (if length s \<le> i then None else if s ! i \<noteq> 0 then strlen_loop s (Suc i) else Some i)"
  by pat_completeness auto
termination
  by (relation "measure (\<lambda>(s, i). length s - i)") auto

declare strlen_loop.simps [simp del]

definition sio_strlen :: "byte list \<Rightarrow> nat option" where
  "sio_strlen s = strlen_loop s 0"

text \<open>The loop of \<open>sio_reverse\<close>: \<open>i\<close> and \<open>j\<close> are \<open>int\<close>, and \<open>j\<close> starts at \<open>-1\<close> for the empty string.\<close>

function reverse_loop :: "int \<Rightarrow> int \<Rightarrow> byte list \<Rightarrow> byte list" where
  "reverse_loop i j s =
    (if i < j then reverse_loop (i + 1) (j - 1) (s[nat i := s ! nat j, nat j := s ! nat i]) else s)"
  by pat_completeness auto
termination
  by (relation "measure (\<lambda>(i, j, s). nat (j - i))") auto

declare reverse_loop.simps [simp del]

definition sio_reverse :: "byte list \<Rightarrow> byte list option" where
  "sio_reverse s = map_option (\<lambda>n. reverse_loop 0 (int n - 1) s) (sio_strlen s)"

subsection \<open>Numbers\<close>

definition ltoa_digit :: "int \<Rightarrow> byte" where
  "ltoa_digit c = word_of_int (if c < 10 then c + 48 else c - 10 + 97)"

text \<open>The \<open>do\<close> loop of \<open>sio_ltoa\<close>: it divides by \<open>b\<close>, and does not end for \<open>b = 1\<close> and a positive number.\<close>

partial_function (option) ltoa_loop :: "int \<Rightarrow> int \<Rightarrow> byte list \<Rightarrow> byte list option" where
  "ltoa_loop v b s =
    (if b = 0 then None
     else
       let s = s @ [ltoa_digit (v smod b)]; v = v sdiv b in
       if 0 < v then ltoa_loop v b s else Some s)"

definition sio_ltoa :: "int \<Rightarrow> int \<Rightarrow> byte list option" where
  "sio_ltoa v b = do {
     let neg = v < 0;
     v \<leftarrow> (if neg then (if v = -(2 ^ 63) then None else Some (- v)) else Some v);
     s \<leftarrow> ltoa_loop v b [];
     sio_reverse (s @ (if neg then [45] else []) @ [0])
   }"

subsection \<open>Output\<close>

text \<open>The result of \<open>write\<close>, and the new state.\<close>

definition sio_puts :: "byte list \<Rightarrow> os_state \<Rightarrow> (int \<times> os_state) option" where
  "sio_puts s os = do {
     n \<leftarrow> sio_strlen s;
     let ((k, _), os) = os_write 1 (take n s) os;
     Some (k, os)
   }"

text \<open>The array of \<open>sio_putl\<close> has 128 elements.\<close>

definition sio_putl :: "int \<Rightarrow> os_state \<Rightarrow> (int \<times> os_state) option" where
  "sio_putl v os = do {
     s \<leftarrow> sio_ltoa v 10;
     if 128 < length s then None else sio_puts s os
   }"

subsection \<open>Lemmas\<close>

lemma strlen_loop_result:
  assumes "0 \<notin> set xs" and "i \<le> length xs"
  shows "strlen_loop (xs @ 0 # ys) i = Some (length xs)"
  using assms(2)
proof (induction "length xs - i" arbitrary: i)
  case 0
  then show ?case by (subst strlen_loop.simps) (auto simp: nth_append)
next
  case (Suc n)
  then have "i < length xs" by simp
  moreover from this have "(xs @ 0 # ys) ! i \<noteq> 0" using assms(1) by (auto simp: nth_append in_set_conv_nth)
  moreover have "strlen_loop (xs @ 0 # ys) (Suc i) = Some (length xs)" by (rule Suc.hyps(1)) (use Suc in simp_all)
  ultimately show ?case by (subst strlen_loop.simps) simp
qed

lemma sio_strlen_result: "0 \<notin> set xs \<Longrightarrow> sio_strlen (xs @ 0 # ys) = Some (length xs)"
  using strlen_loop_result [of xs 0] by (simp add: sio_strlen_def)

lemma reverse_loop_middle:
  "reverse_loop (int (length as)) (int (length as + length bs) - 1) (as @ bs @ cs) = as @ rev bs @ cs"
proof (induction "length bs" arbitrary: as bs cs rule: less_induct)
  case less
  show ?case
  proof (cases "length bs < 2")
    case True
    then have "rev bs = bs" by (cases bs) auto
    then show ?thesis using True by (subst reverse_loop.simps) simp
  next
    case False
    then obtain x ms y where bs: "bs = x # ms @ [y]"
      by (metis append_butlast_last_id length_0_conv length_Suc_conv less_2_cases_iff list.exhaust One_nat_def length_Cons list.size(3) not_less_iff_gr_or_eq)
    have n: "nat (int (length as + length bs) - 1) = length as + Suc (length ms)" by (simp add: bs nat_eq_iff)
    have swap: "(as @ bs @ cs)[length as := (as @ bs @ cs) ! (length as + Suc (length ms)),
        length as + Suc (length ms) := (as @ bs @ cs) ! length as] = (as @ [y]) @ ms @ (x # cs)"
      by (simp add: bs nth_append list_update_append)
    have "reverse_loop (int (length as)) (int (length as + length bs) - 1) (as @ bs @ cs) =
        reverse_loop (int (length as) + 1) (int (length as + length bs) - 1 - 1) ((as @ [y]) @ ms @ (x # cs))"
      using swap n by (subst reverse_loop.simps) (simp add: bs)
    also have "\<dots> = reverse_loop (int (length (as @ [y]))) (int (length (as @ [y]) + length ms) - 1) ((as @ [y]) @ ms @ (x # cs))"
      by (simp add: bs algebra_simps)
    also have "\<dots> = (as @ [y]) @ rev ms @ (x # cs)" by (rule less.hyps) (simp add: bs)
    finally show ?thesis by (simp add: bs)
  qed
qed

text \<open>\<open>sio_reverse\<close> is list reversal.\<close>

lemma sio_reverse_result: "0 \<notin> set xs \<Longrightarrow> sio_reverse (xs @ [0]) = Some (rev xs @ [0])"
  using sio_strlen_result [of xs "[]"] reverse_loop_middle [of "[]" xs "[0]"] by (simp add: sio_reverse_def)

lemma byte_of_code: "(of_char (char_of n :: char) :: byte) = of_nat (n mod 256)" for n :: nat
  by (metis of_char_of of_nat_of_char)

lemma ltoa_digit_dec: "0 \<le> c \<Longrightarrow> c < 10 \<Longrightarrow> ltoa_digit c = of_char (char_of (48 + nat c) :: char)"
proof -
  assume c: "0 \<le> c" "c < 10"
  then have "c = 0 \<or> c = 1 \<or> c = 2 \<or> c = 3 \<or> c = 4 \<or> c = 5 \<or> c = 6 \<or> c = 7 \<or> c = 8 \<or> c = 9" by presburger
  then show ?thesis by (elim disjE) (simp_all add: ltoa_digit_def byte_of_code)
qed

lemma ltoa_decimal:
  "ltoa_loop (int n) 10 s = Some (s @ rev (bytes_of (dec_digits n)))"
proof (induction n arbitrary: s rule: less_induct)
  case (less n)
  have "int n smod 10 = int (n mod 10)" "int n sdiv 10 = int (n div 10)"
    by (cases "n = 0"; simp add: signed_modulo_int_def signed_divide_int_def zmod_int zdiv_int)+
  moreover have d: "ltoa_digit (int (n mod 10)) = of_char (char_of (48 + n mod 10) :: char)"
    using ltoa_digit_dec [of "int (n mod 10)"] by simp
  ultimately have step: "ltoa_loop (int n) 10 s = (if 0 < n div 10 then ltoa_loop (int (n div 10)) 10 (s @ [of_char (char_of (48 + n mod 10) :: char)])
      else Some (s @ [of_char (char_of (48 + n mod 10) :: char)]))"
    by (subst ltoa_loop.simps) (simp add: Let_def)
  show ?case
  proof (cases "n < 10")
    case True
    then show ?thesis using step by (simp add: dec_digits.simps [of n] bytes_of_def)
  next
    case False
    then have "n div 10 < n" "0 < n div 10" by (simp_all add: div_greater_zero_iff)
    from less.IH [OF this(1)] this(2) show ?thesis using step False by (simp add: dec_digits.simps [of n] bytes_of_def)
  qed
qed

lemma dec_digits_bytes: "0 \<notin> set (bytes_of (dec_digits n))"
proof (induction n rule: less_induct)
  case (less n)
  have d: "(of_char (char_of (48 + k) :: char) :: byte) \<noteq> 0" if "k < 10" for k :: nat
  proof -
    have "(of_char (char_of (48 + k) :: char) :: byte) = ltoa_digit (int k)" using ltoa_digit_dec [of "int k"] that by simp
    moreover have "k = 0 \<or> k = 1 \<or> k = 2 \<or> k = 3 \<or> k = 4 \<or> k = 5 \<or> k = 6 \<or> k = 7 \<or> k = 8 \<or> k = 9" using that by presburger
    ultimately show ?thesis by (elim disjE) (simp_all add: ltoa_digit_def)
  qed
  show ?case
  proof (cases "n < 10")
    case True
    then show ?thesis using d [of n] by (subst dec_digits.simps) (simp add: bytes_of_def)
  next
    case False
    then have "n div 10 < n" by simp
    from less [OF this] show ?thesis using d [of "n mod 10"] False by (subst dec_digits.simps) (auto simp: bytes_of_def)
  qed
qed

lemma dec_digits_length: "n < 10 ^ k \<Longrightarrow> 0 < k \<Longrightarrow> length (dec_digits n) \<le> k"
proof (induction k arbitrary: n)
  case (Suc k)
  show ?case
  proof (cases "n < 10")
    case True
    then show ?thesis by (subst dec_digits.simps) simp
  next
    case False
    then have "0 < k" using Suc.prems(1) by (cases k) auto
    moreover have "n div 10 < 10 ^ k" using Suc.prems(1) by (simp add: less_mult_imp_div_less mult.commute)
    ultimately show ?thesis using Suc.IH [of "n div 10"] False by (subst dec_digits.simps) simp
  qed
qed simp

text \<open>\<open>sio_ltoa\<close> with the base 10 is the decimal representation.\<close>

lemma sio_ltoa_decimal:
  assumes "-(2 ^ 63) < v" and "v < 2 ^ 63"
  shows "sio_ltoa v 10 = Some (bytes_of (dec_string v) @ [0])"
proof (cases "v < 0")
  case True
  then have w: "- v = int (nat (- v))" "v \<noteq> -(2 ^ 63)" using assms by simp_all
  have "0 \<notin> set (rev (bytes_of (dec_digits (nat (- v)))) @ [45])" using dec_digits_bytes by simp
  from sio_reverse_result [OF this] show ?thesis
    using True ltoa_decimal [of "nat (- v)" "[]"] w(2) by (simp add: sio_ltoa_def dec_string_def bytes_of_def)
next
  case False
  have "0 \<notin> set (rev (bytes_of (dec_digits (nat v))))" using dec_digits_bytes by simp
  from sio_reverse_result [OF this] show ?thesis
    using False ltoa_decimal [of "nat v" "[]"] by (simp add: sio_ltoa_def dec_string_def)
qed

subsection \<open>Properties\<close>

text \<open>C39: \<open>sio_putl\<close> prints a \<open>long\<close> in decimal: what it passes to \<open>write\<close> is the usual representation, with a
minus sign for negative numbers, and it fits the array; only for the smallest \<open>long\<close>, whose negation
overflows, the behaviour is undefined.\<close>

theorem sio_putl_decimal:
  assumes "-(2 ^ 63) \<le> v" and "v < 2 ^ 63"
  shows "sio_putl v os = (if v = -(2 ^ 63) then None
    else Some (let ((k, _), os') = os_write 1 (bytes_of (dec_string v)) os in (k, os')))"
proof (cases "v = -(2 ^ 63)")
  case True
  then show ?thesis by (simp add: sio_putl_def sio_ltoa_def)
next
  case False
  let ?t = "bytes_of (dec_string v)"
  have "nat \<bar>v\<bar> < 10 ^ 19" using assms by simp
  then have "length (dec_digits (nat v)) \<le> 19" "length (dec_digits (nat (- v))) \<le> 19"
    by (intro dec_digits_length; simp)+
  then have l: "length ?t \<le> 20" by (simp add: dec_string_def bytes_of_def)
  have z: "0 \<notin> set ?t" using dec_digits_bytes by (simp add: dec_string_def bytes_of_def)
  have t: "sio_ltoa v 10 = Some (?t @ [0])"
    by (rule sio_ltoa_decimal) (use assms False in simp_all)
  have "sio_puts (?t @ [0]) os = Some (let ((k, _), os') = os_write 1 ?t os in (k, os'))"
    using z sio_strlen_result [of ?t "[]"] by (simp add: sio_puts_def Let_def case_prod_unfold)
  then show ?thesis using t l False by (simp add: sio_putl_def)
qed

theorem sio_putl_decimal_witness:
  "sio_putl (-42) idle_os = Some (3, idle_os\<lparr>wire := wire idle_os @ [(1, [45, 52, 50])]\<rparr>)"
proof -
  have "bytes_of (dec_string (-42)) = [45, 52, 50 :: byte]" by code_simp
  then show ?thesis using sio_putl_decimal [of "-42" idle_os] by (simp add: os_write_def idle_os_def)
qed

end
