(* ===== verification/Wrappers.thy ===== *)
theory Wrappers
  imports Rio Sio Listen
begin

text \<open>
  The wrappers of \<open>src/src/csapp.c\<close>: functions that call one function of the system or of the library
  and end the process with a message when it fails. The functions of the system are arguments; they may
  change \<open>errno\<close> and the rest of the system. Those that fill a structure of the caller get its address.
\<close>

text \<open>What the wrappers use of the C library. \<open>sys\<close> is the rest of the system.\<close>

record 'x libc =
  errno :: int
  err_text :: string
  strerror :: "int \<Rightarrow> string"
  gai_strerror :: "int \<Rightarrow> string"
  sys :: 'x

text \<open>A call returns, it ends the process with a status, or it ends the thread or replaces the program.\<close>

datatype ('a, 's) outcome = Returned 'a 's | Exited int 's | Gone 's

definition print_err :: "string \<Rightarrow> 'x libc \<Rightarrow> 'x libc" where
  "print_err msg s = s\<lparr>err_text := err_text s @ msg @ [CHR 0x0A]\<rparr>"

subsection \<open>Errors that end the process\<close>

definition unix_error ::
  "string \<Rightarrow> 'x libc \<Rightarrow> ('a, 'x libc) outcome" where
  "unix_error msg s = Exited 0 (print_err (msg @ '': '' @ strerror s (errno s)) s)"

definition posix_error ::
  "int \<Rightarrow> string \<Rightarrow> 'x libc \<Rightarrow> ('a, 'x libc) outcome" where
  "posix_error code msg s = Exited 0 (print_err (msg @ '': '' @ strerror s code) s)"

definition gai_error ::
  "int \<Rightarrow> string \<Rightarrow> 'x libc \<Rightarrow> ('a, 'x libc) outcome" where
  "gai_error code msg s = Exited 0 (print_err (msg @ '': '' @ gai_strerror s code) s)"

definition app_error ::
  "string \<Rightarrow> 'x libc \<Rightarrow> ('a, 'x libc) outcome" where
  "app_error msg s = Exited 0 (print_err msg s)"

definition dns_error ::
  "string \<Rightarrow> 'x libc \<Rightarrow> ('a, 'x libc) outcome" where
  "dns_error msg s = Exited 0 (print_err msg s)"

subsection \<open>Processes\<close>

definition Fork ::
  "('x libc \<Rightarrow> int \<times> 'x libc) \<Rightarrow> 'x libc \<Rightarrow> (int, 'x libc) outcome" where
  "Fork fork s =
    (case fork s of (rc, s) \<Rightarrow>
       if rc < 0 then unix_error ''Fork error'' s else Returned rc s)"

text \<open>A call of \<open>execve\<close> that succeeds does not return.\<close>

definition Execve ::
  "('f \<Rightarrow> 'av \<Rightarrow> 'ev \<Rightarrow> 'x libc \<Rightarrow> (int, 'x libc) outcome) \<Rightarrow> 'f \<Rightarrow> 'av \<Rightarrow> 'ev \<Rightarrow> 'x libc \<Rightarrow> (unit, 'x libc) outcome" where
  "Execve execve filename argv envp s =
    (case execve filename argv envp s of
       Returned rc s \<Rightarrow> if rc < 0 then unix_error ''Execve error'' s else Returned () s
     | Exited st s \<Rightarrow> Exited st s
     | Gone s \<Rightarrow> Gone s)"

definition Wait ::
  "('p \<Rightarrow> 'x libc \<Rightarrow> int \<times> 'x libc) \<Rightarrow> 'p \<Rightarrow> 'x libc \<Rightarrow> (int, 'x libc) outcome" where
  "Wait wait status s =
    (case wait status s of (rc, s) \<Rightarrow>
       if rc < 0 then unix_error ''Wait error'' s else Returned rc s)"

definition Waitpid ::
  "(int \<Rightarrow> 'p \<Rightarrow> int \<Rightarrow> 'x libc \<Rightarrow> int \<times> 'x libc) \<Rightarrow> int \<Rightarrow> 'p \<Rightarrow> int \<Rightarrow> 'x libc \<Rightarrow> (int, 'x libc) outcome" where
  "Waitpid waitpid pid iptr options s =
    (case waitpid pid iptr options s of (rc, s) \<Rightarrow>
       if rc < 0 then unix_error ''Waitpid error'' s else Returned rc s)"

definition Kill ::
  "(int \<Rightarrow> int \<Rightarrow> 'x libc \<Rightarrow> int \<times> 'x libc) \<Rightarrow> int \<Rightarrow> int \<Rightarrow> 'x libc \<Rightarrow> (unit, 'x libc) outcome" where
  "Kill kill pid signum s =
    (case kill pid signum s of (rc, s) \<Rightarrow>
       if rc < 0 then unix_error ''Kill error'' s else Returned () s)"

definition Pause ::
  "('x libc \<Rightarrow> int \<times> 'x libc) \<Rightarrow> 'x libc \<Rightarrow> (unit, 'x libc) outcome" where
  "Pause pause s = (case pause s of (rc, s) \<Rightarrow> Returned () s)"

text \<open>The result of \<open>sleep\<close> is unsigned, so the test for an error never holds.\<close>

definition Sleep ::
  "(uint32 \<Rightarrow> 'x libc \<Rightarrow> uint32 \<times> 'x libc) \<Rightarrow> uint32 \<Rightarrow> 'x libc \<Rightarrow> (uint32, 'x libc) outcome" where
  "Sleep sleep secs s =
    (case sleep secs s of (rc, s) \<Rightarrow>
       if rc < 0 then unix_error ''Sleep error'' s else Returned rc s)"

definition Alarm ::
  "(uint32 \<Rightarrow> 'x libc \<Rightarrow> uint32 \<times> 'x libc) \<Rightarrow> uint32 \<Rightarrow> 'x libc \<Rightarrow> (uint32, 'x libc) outcome" where
  "Alarm alarm seconds s = (case alarm seconds s of (rc, s) \<Rightarrow> Returned rc s)"

definition Setpgid ::
  "(int \<Rightarrow> int \<Rightarrow> 'x libc \<Rightarrow> int \<times> 'x libc) \<Rightarrow> int \<Rightarrow> int \<Rightarrow> 'x libc \<Rightarrow> (unit, 'x libc) outcome" where
  "Setpgid setpgid pid pgid s =
    (case setpgid pid pgid s of (rc, s) \<Rightarrow>
       if rc < 0 then unix_error ''Setpgid error'' s else Returned () s)"

definition Getpgrp ::
  "('x libc \<Rightarrow> int \<times> 'x libc) \<Rightarrow> 'x libc \<Rightarrow> (int, 'x libc) outcome" where
  "Getpgrp getpgrp s = (case getpgrp s of (rc, s) \<Rightarrow> Returned rc s)"

subsection \<open>Signals\<close>

record 'h sigaction =
  sa_handler :: 'h
  sa_mask :: "int set"
  sa_flags :: int

text \<open>The flag \<open>SA_RESTART\<close> of Linux.\<close>

definition SA_RESTART :: int where
  "SA_RESTART = 268435456"

text \<open>\<open>sigaction\<close> gives its status and the old action.\<close>

definition Signal ::
  "(int \<Rightarrow> 'h sigaction \<Rightarrow> 'x libc \<Rightarrow> (int \<times> 'h sigaction) \<times> 'x libc) \<Rightarrow> int \<Rightarrow> 'h \<Rightarrow> 'x libc \<Rightarrow> ('h, 'x libc) outcome" where
  "Signal sigaction signum handler s =
    (let action = \<lparr>sa_handler = handler, sa_mask = {}, sa_flags = SA_RESTART\<rparr> in
     case sigaction signum action s of ((rc, old_action), s) \<Rightarrow>
       if rc < 0 then unix_error ''Signal error'' s else Returned (sa_handler old_action) s)"

definition Sigprocmask ::
  "(int \<Rightarrow> 'p \<Rightarrow> 'q \<Rightarrow> 'x libc \<Rightarrow> int \<times> 'x libc) \<Rightarrow> int \<Rightarrow> 'p \<Rightarrow> 'q \<Rightarrow> 'x libc \<Rightarrow> (unit, 'x libc) outcome" where
  "Sigprocmask sigprocmask how st oldset s =
    (case sigprocmask how st oldset s of (rc, s) \<Rightarrow>
       if rc < 0 then unix_error ''Sigprocmask error'' s else Returned () s)"

definition Sigemptyset ::
  "('p \<Rightarrow> 'x libc \<Rightarrow> int \<times> 'x libc) \<Rightarrow> 'p \<Rightarrow> 'x libc \<Rightarrow> (unit, 'x libc) outcome" where
  "Sigemptyset sigemptyset st s =
    (case sigemptyset st s of (rc, s) \<Rightarrow>
       if rc < 0 then unix_error ''Sigemptyset error'' s else Returned () s)"

definition Sigfillset ::
  "('p \<Rightarrow> 'x libc \<Rightarrow> int \<times> 'x libc) \<Rightarrow> 'p \<Rightarrow> 'x libc \<Rightarrow> (unit, 'x libc) outcome" where
  "Sigfillset sigfillset st s =
    (case sigfillset st s of (rc, s) \<Rightarrow>
       if rc < 0 then unix_error ''Sigfillset error'' s else Returned () s)"

definition Sigaddset ::
  "('p \<Rightarrow> int \<Rightarrow> 'x libc \<Rightarrow> int \<times> 'x libc) \<Rightarrow> 'p \<Rightarrow> int \<Rightarrow> 'x libc \<Rightarrow> (unit, 'x libc) outcome" where
  "Sigaddset sigaddset st signum s =
    (case sigaddset st signum s of (rc, s) \<Rightarrow>
       if rc < 0 then unix_error ''Sigaddset error'' s else Returned () s)"

definition Sigdelset ::
  "('p \<Rightarrow> int \<Rightarrow> 'x libc \<Rightarrow> int \<times> 'x libc) \<Rightarrow> 'p \<Rightarrow> int \<Rightarrow> 'x libc \<Rightarrow> (unit, 'x libc) outcome" where
  "Sigdelset sigdelset st signum s =
    (case sigdelset st signum s of (rc, s) \<Rightarrow>
       if rc < 0 then unix_error ''Sigdelset error'' s else Returned () s)"

definition Sigismember ::
  "('p \<Rightarrow> int \<Rightarrow> 'x libc \<Rightarrow> int \<times> 'x libc) \<Rightarrow> 'p \<Rightarrow> int \<Rightarrow> 'x libc \<Rightarrow> (int, 'x libc) outcome" where
  "Sigismember sigismember st signum s =
    (case sigismember st signum s of (rc, s) \<Rightarrow>
       if rc < 0 then unix_error ''Sigismember error'' s else Returned rc s)"

text \<open>\<open>sigsuspend\<close> always returns \<open>-1\<close>; only \<open>EINTR\<close> is what the caller waited for.\<close>

definition EINTR :: int where
  "EINTR = 4"

definition Sigsuspend ::
  "('p \<Rightarrow> 'x libc \<Rightarrow> int \<times> 'x libc) \<Rightarrow> 'p \<Rightarrow> 'x libc \<Rightarrow> (int, 'x libc) outcome" where
  "Sigsuspend sigsuspend st s =
    (case sigsuspend st s of (rc, s) \<Rightarrow>
       if errno s \<noteq> EINTR then unix_error ''Sigsuspend error'' s else Returned rc s)"

subsection \<open>Output from signal handlers\<close>

text \<open>These do not use \<open>errno\<close> and end the process with status 1.\<close>

definition sio_error ::
  "byte list \<Rightarrow> os_state \<Rightarrow> ('a, os_state) outcome option" where
  "sio_error m os = map_option (\<lambda>(_, os). Exited 1 os) (sio_puts m os)"

definition Sio_putl ::
  "int \<Rightarrow> os_state \<Rightarrow> (int, os_state) outcome option" where
  "Sio_putl v os = do {
     (n, os) \<leftarrow> sio_putl v os;
     if n < 0 then sio_error (bytes_of ''Sio_putl error'' @ [0]) os else Some (Returned n os)
   }"

definition Sio_puts ::
  "byte list \<Rightarrow> os_state \<Rightarrow> (int, os_state) outcome option" where
  "Sio_puts m os = do {
     (n, os) \<leftarrow> sio_puts m os;
     if n < 0 then sio_error (bytes_of ''Sio_puts error'' @ [0]) os else Some (Returned n os)
   }"

definition Sio_error ::
  "byte list \<Rightarrow> os_state \<Rightarrow> ('a, os_state) outcome option" where
  "Sio_error m os = sio_error m os"

subsection \<open>Files\<close>

definition Open ::
  "('f \<Rightarrow> int \<Rightarrow> int \<Rightarrow> 'x libc \<Rightarrow> int \<times> 'x libc) \<Rightarrow> 'f \<Rightarrow> int \<Rightarrow> int \<Rightarrow> 'x libc \<Rightarrow> (int, 'x libc) outcome" where
  "Open open_file pathname flags mode s =
    (case open_file pathname flags mode s of (rc, s) \<Rightarrow>
       if rc < 0 then unix_error ''Open error'' s else Returned rc s)"

definition Read ::
  "(int \<Rightarrow> 'p \<Rightarrow> size_t \<Rightarrow> 'x libc \<Rightarrow> int \<times> 'x libc) \<Rightarrow> int \<Rightarrow> 'p \<Rightarrow> size_t \<Rightarrow> 'x libc \<Rightarrow> (int, 'x libc) outcome" where
  "Read read fd buf count s =
    (case read fd buf count s of (rc, s) \<Rightarrow>
       if rc < 0 then unix_error ''Read error'' s else Returned rc s)"

definition Write ::
  "(int \<Rightarrow> 'p \<Rightarrow> size_t \<Rightarrow> 'x libc \<Rightarrow> int \<times> 'x libc) \<Rightarrow> int \<Rightarrow> 'p \<Rightarrow> size_t \<Rightarrow> 'x libc \<Rightarrow> (int, 'x libc) outcome" where
  "Write write fd buf count s =
    (case write fd buf count s of (rc, s) \<Rightarrow>
       if rc < 0 then unix_error ''Write error'' s else Returned rc s)"

definition Lseek ::
  "(int \<Rightarrow> int \<Rightarrow> int \<Rightarrow> 'x libc \<Rightarrow> int \<times> 'x libc) \<Rightarrow> int \<Rightarrow> int \<Rightarrow> int \<Rightarrow> 'x libc \<Rightarrow> (int, 'x libc) outcome" where
  "Lseek lseek fildes offset whence s =
    (case lseek fildes offset whence s of (rc, s) \<Rightarrow>
       if rc < 0 then unix_error ''Lseek error'' s else Returned rc s)"

definition Close ::
  "(int \<Rightarrow> 'x libc \<Rightarrow> int \<times> 'x libc) \<Rightarrow> int \<Rightarrow> 'x libc \<Rightarrow> (unit, 'x libc) outcome" where
  "Close close_file fd s =
    (case close_file fd s of (rc, s) \<Rightarrow>
       if rc < 0 then unix_error ''Close error'' s else Returned () s)"

definition Select ::
  "(int \<Rightarrow> 'p \<Rightarrow> 'p \<Rightarrow> 'p \<Rightarrow> 'q \<Rightarrow> 'x libc \<Rightarrow> int \<times> 'x libc) \<Rightarrow> int \<Rightarrow> 'p \<Rightarrow> 'p \<Rightarrow> 'p \<Rightarrow> 'q \<Rightarrow> 'x libc \<Rightarrow> (int, 'x libc) outcome" where
  "Select select n readfds writefds exceptfds timeout s =
    (case select n readfds writefds exceptfds timeout s of (rc, s) \<Rightarrow>
       if rc < 0 then unix_error ''Select error'' s else Returned rc s)"

definition Dup2 ::
  "(int \<Rightarrow> int \<Rightarrow> 'x libc \<Rightarrow> int \<times> 'x libc) \<Rightarrow> int \<Rightarrow> int \<Rightarrow> 'x libc \<Rightarrow> (int, 'x libc) outcome" where
  "Dup2 dup2 fd1 fd2 s =
    (case dup2 fd1 fd2 s of (rc, s) \<Rightarrow>
       if rc < 0 then unix_error ''Dup2 error'' s else Returned rc s)"

definition Stat ::
  "('f \<Rightarrow> 'p \<Rightarrow> 'x libc \<Rightarrow> int \<times> 'x libc) \<Rightarrow> 'f \<Rightarrow> 'p \<Rightarrow> 'x libc \<Rightarrow> (unit, 'x libc) outcome" where
  "Stat stat filename buf s =
    (case stat filename buf s of (rc, s) \<Rightarrow>
       if rc < 0 then unix_error ''Stat error'' s else Returned () s)"

definition Fstat ::
  "(int \<Rightarrow> 'p \<Rightarrow> 'x libc \<Rightarrow> int \<times> 'x libc) \<Rightarrow> int \<Rightarrow> 'p \<Rightarrow> 'x libc \<Rightarrow> (unit, 'x libc) outcome" where
  "Fstat fstat fd buf s =
    (case fstat fd buf s of (rc, s) \<Rightarrow>
       if rc < 0 then unix_error ''Fstat error'' s else Returned () s)"

definition Opendir ::
  "('f \<Rightarrow> 'x libc \<Rightarrow> 'd option \<times> 'x libc) \<Rightarrow> 'f \<Rightarrow> 'x libc \<Rightarrow> ('d option, 'x libc) outcome" where
  "Opendir opendir name s =
    (case opendir name s of (rc, s) \<Rightarrow>
       if rc = None then unix_error ''opendir error'' s else Returned rc s)"

text \<open>\<open>readdir\<close> returns \<open>NULL\<close> at the end of the directory and for an error; only the latter sets \<open>errno\<close>.\<close>

definition Readdir ::
  "('d \<Rightarrow> 'x libc \<Rightarrow> 'e option \<times> 'x libc) \<Rightarrow> 'd \<Rightarrow> 'x libc \<Rightarrow> ('e option, 'x libc) outcome" where
  "Readdir readdir dirp s =
    (case readdir dirp (s\<lparr>errno := 0\<rparr>) of (dep, s) \<Rightarrow>
       if dep = None \<and> errno s \<noteq> 0 then unix_error ''readdir error'' s else Returned dep s)"

definition Closedir ::
  "('d \<Rightarrow> 'x libc \<Rightarrow> int \<times> 'x libc) \<Rightarrow> 'd \<Rightarrow> 'x libc \<Rightarrow> (int, 'x libc) outcome" where
  "Closedir closedir dirp s =
    (case closedir dirp s of (rc, s) \<Rightarrow>
       if rc < 0 then unix_error ''closedir error'' s else Returned rc s)"

subsection \<open>Memory\<close>

text \<open>An address is a word of 64 bits; \<open>mmap\<close> reports an error by the address \<open>-1\<close>, the others by \<open>NULL\<close>.\<close>

definition Mmap ::
  "(size_t \<Rightarrow> size_t \<Rightarrow> int \<Rightarrow> int \<Rightarrow> int \<Rightarrow> int \<Rightarrow> 'x libc \<Rightarrow> size_t \<times> 'x libc) \<Rightarrow> size_t \<Rightarrow> size_t \<Rightarrow> int \<Rightarrow> int \<Rightarrow> int \<Rightarrow> int \<Rightarrow> 'x libc \<Rightarrow> (size_t, 'x libc) outcome" where
  "Mmap mmap addr len prot flags fd offset s =
    (case mmap addr len prot flags fd offset s of (rc, s) \<Rightarrow>
       if rc = -1 then unix_error ''mmap error'' s else Returned rc s)"

definition Munmap ::
  "(size_t \<Rightarrow> size_t \<Rightarrow> 'x libc \<Rightarrow> int \<times> 'x libc) \<Rightarrow> size_t \<Rightarrow> size_t \<Rightarrow> 'x libc \<Rightarrow> (unit, 'x libc) outcome" where
  "Munmap munmap start len s =
    (case munmap start len s of (rc, s) \<Rightarrow>
       if rc < 0 then unix_error ''munmap error'' s else Returned () s)"

definition Malloc ::
  "(size_t \<Rightarrow> 'x libc \<Rightarrow> size_t \<times> 'x libc) \<Rightarrow> size_t \<Rightarrow> 'x libc \<Rightarrow> (size_t, 'x libc) outcome" where
  "Malloc malloc_fn sz s =
    (case malloc_fn sz s of (rc, s) \<Rightarrow>
       if rc = 0 then unix_error ''Malloc error'' s else Returned rc s)"

definition Realloc ::
  "(size_t \<Rightarrow> size_t \<Rightarrow> 'x libc \<Rightarrow> size_t \<times> 'x libc) \<Rightarrow> size_t \<Rightarrow> size_t \<Rightarrow> 'x libc \<Rightarrow> (size_t, 'x libc) outcome" where
  "Realloc realloc ptr sz s =
    (case realloc ptr sz s of (rc, s) \<Rightarrow>
       if rc = 0 then unix_error ''Realloc error'' s else Returned rc s)"

definition Calloc ::
  "(size_t \<Rightarrow> size_t \<Rightarrow> 'x libc \<Rightarrow> size_t \<times> 'x libc) \<Rightarrow> size_t \<Rightarrow> size_t \<Rightarrow> 'x libc \<Rightarrow> (size_t, 'x libc) outcome" where
  "Calloc calloc nmemb sz s =
    (case calloc nmemb sz s of (rc, s) \<Rightarrow>
       if rc = 0 then unix_error ''Calloc error'' s else Returned rc s)"

definition Free ::
  "(size_t \<Rightarrow> 'x libc \<Rightarrow> unit \<times> 'x libc) \<Rightarrow> size_t \<Rightarrow> 'x libc \<Rightarrow> (unit, 'x libc) outcome" where
  "Free free ptr s = (case free ptr s of (rc, s) \<Rightarrow> Returned () s)"

subsection \<open>Streams\<close>

definition Fclose ::
  "('fp \<Rightarrow> 'x libc \<Rightarrow> int \<times> 'x libc) \<Rightarrow> 'fp \<Rightarrow> 'x libc \<Rightarrow> (unit, 'x libc) outcome" where
  "Fclose fclose fp s =
    (case fclose fp s of (rc, s) \<Rightarrow>
       if rc \<noteq> 0 then unix_error ''Fclose error'' s else Returned () s)"

definition Fdopen ::
  "(int \<Rightarrow> string \<Rightarrow> 'x libc \<Rightarrow> 'fp option \<times> 'x libc) \<Rightarrow> int \<Rightarrow> string \<Rightarrow> 'x libc \<Rightarrow> ('fp option, 'x libc) outcome" where
  "Fdopen fdopen fd typ s =
    (case fdopen fd typ s of (rc, s) \<Rightarrow>
       if rc = None then unix_error ''Fdopen error'' s else Returned rc s)"

definition Fgets ::
  "('p \<Rightarrow> int \<Rightarrow> 'fp \<Rightarrow> 'x libc \<Rightarrow> 'p option \<times> 'x libc) \<Rightarrow> ('fp \<Rightarrow> 'x libc \<Rightarrow> bool) \<Rightarrow> 'p \<Rightarrow> int \<Rightarrow> 'fp \<Rightarrow> 'x libc \<Rightarrow> ('p option, 'x libc) outcome" where
  "Fgets fgets ferror ptr n fp s =
    (case fgets ptr n fp s of (rptr, s) \<Rightarrow>
       if rptr = None \<and> ferror fp s then app_error ''Fgets error'' s else Returned rptr s)"

definition Fopen ::
  "('f \<Rightarrow> string \<Rightarrow> 'x libc \<Rightarrow> 'fp option \<times> 'x libc) \<Rightarrow> 'f \<Rightarrow> string \<Rightarrow> 'x libc \<Rightarrow> ('fp option, 'x libc) outcome" where
  "Fopen fopen filename mode s =
    (case fopen filename mode s of (rc, s) \<Rightarrow>
       if rc = None then unix_error ''Fopen error'' s else Returned rc s)"

text \<open>\<open>EOF\<close> is \<open>-1\<close>.\<close>

definition Fputs ::
  "(string \<Rightarrow> 'fp \<Rightarrow> 'x libc \<Rightarrow> int \<times> 'x libc) \<Rightarrow> string \<Rightarrow> 'fp \<Rightarrow> 'x libc \<Rightarrow> (unit, 'x libc) outcome" where
  "Fputs fputs ptr fp s =
    (case fputs ptr fp s of (rc, s) \<Rightarrow>
       if rc = -1 then unix_error ''Fputs error'' s else Returned () s)"

definition Fread ::
  "('p \<Rightarrow> size_t \<Rightarrow> size_t \<Rightarrow> 'fp \<Rightarrow> 'x libc \<Rightarrow> size_t \<times> 'x libc) \<Rightarrow> ('fp \<Rightarrow> 'x libc \<Rightarrow> bool) \<Rightarrow> 'p \<Rightarrow> size_t \<Rightarrow> size_t \<Rightarrow> 'fp \<Rightarrow> 'x libc \<Rightarrow> (size_t, 'x libc) outcome" where
  "Fread fread ferror ptr sz nmemb fp s =
    (case fread ptr sz nmemb fp s of (n, s) \<Rightarrow>
       if n < nmemb \<and> ferror fp s then unix_error ''Fread error'' s else Returned n s)"

definition Fwrite ::
  "('p \<Rightarrow> size_t \<Rightarrow> size_t \<Rightarrow> 'fp \<Rightarrow> 'x libc \<Rightarrow> size_t \<times> 'x libc) \<Rightarrow> 'p \<Rightarrow> size_t \<Rightarrow> size_t \<Rightarrow> 'fp \<Rightarrow> 'x libc \<Rightarrow> (unit, 'x libc) outcome" where
  "Fwrite fwrite ptr sz nmemb fp s =
    (case fwrite ptr sz nmemb fp s of (rc, s) \<Rightarrow>
       if rc < nmemb then unix_error ''Fwrite error'' s else Returned () s)"

subsection \<open>Sockets\<close>

definition Socket ::
  "(int \<Rightarrow> int \<Rightarrow> int \<Rightarrow> 'x libc \<Rightarrow> int \<times> 'x libc) \<Rightarrow> int \<Rightarrow> int \<Rightarrow> int \<Rightarrow> 'x libc \<Rightarrow> (int, 'x libc) outcome" where
  "Socket socket domain typ protocol s =
    (case socket domain typ protocol s of (rc, s) \<Rightarrow>
       if rc < 0 then unix_error ''Socket error'' s else Returned rc s)"

definition Setsockopt ::
  "(int \<Rightarrow> int \<Rightarrow> int \<Rightarrow> 'p \<Rightarrow> int \<Rightarrow> 'x libc \<Rightarrow> int \<times> 'x libc) \<Rightarrow> int \<Rightarrow> int \<Rightarrow> int \<Rightarrow> 'p \<Rightarrow> int \<Rightarrow> 'x libc \<Rightarrow> (unit, 'x libc) outcome" where
  "Setsockopt setsockopt sock level optname optval optlen s =
    (case setsockopt sock level optname optval optlen s of (rc, s) \<Rightarrow>
       if rc < 0 then unix_error ''Setsockopt error'' s else Returned () s)"

definition Bind ::
  "(int \<Rightarrow> 'p \<Rightarrow> int \<Rightarrow> 'x libc \<Rightarrow> int \<times> 'x libc) \<Rightarrow> int \<Rightarrow> 'p \<Rightarrow> int \<Rightarrow> 'x libc \<Rightarrow> (unit, 'x libc) outcome" where
  "Bind bind_fn sockfd my_addr addrlen s =
    (case bind_fn sockfd my_addr addrlen s of (rc, s) \<Rightarrow>
       if rc < 0 then unix_error ''Bind error'' s else Returned () s)"

definition Listen ::
  "(int \<Rightarrow> int \<Rightarrow> 'x libc \<Rightarrow> int \<times> 'x libc) \<Rightarrow> int \<Rightarrow> int \<Rightarrow> 'x libc \<Rightarrow> (unit, 'x libc) outcome" where
  "Listen listen_fn sock backlog s =
    (case listen_fn sock backlog s of (rc, s) \<Rightarrow>
       if rc < 0 then unix_error ''Listen error'' s else Returned () s)"

definition Accept ::
  "(int \<Rightarrow> 'p \<Rightarrow> 'q \<Rightarrow> 'x libc \<Rightarrow> int \<times> 'x libc) \<Rightarrow> int \<Rightarrow> 'p \<Rightarrow> 'q \<Rightarrow> 'x libc \<Rightarrow> (int, 'x libc) outcome" where
  "Accept accept_fn sock addr addrlen s =
    (case accept_fn sock addr addrlen s of (rc, s) \<Rightarrow>
       if rc < 0 then unix_error ''Accept error'' s else Returned rc s)"

definition Connect ::
  "(int \<Rightarrow> 'p \<Rightarrow> int \<Rightarrow> 'x libc \<Rightarrow> int \<times> 'x libc) \<Rightarrow> int \<Rightarrow> 'p \<Rightarrow> int \<Rightarrow> 'x libc \<Rightarrow> (unit, 'x libc) outcome" where
  "Connect connect_fn sockfd serv_addr addrlen s =
    (case connect_fn sockfd serv_addr addrlen s of (rc, s) \<Rightarrow>
       if rc < 0 then unix_error ''Connect error'' s else Returned () s)"

definition Getaddrinfo ::
  "('n \<Rightarrow> 'n \<Rightarrow> 'h \<Rightarrow> 'p \<Rightarrow> 'x libc \<Rightarrow> int \<times> 'x libc) \<Rightarrow> 'n \<Rightarrow> 'n \<Rightarrow> 'h \<Rightarrow> 'p \<Rightarrow> 'x libc \<Rightarrow> (unit, 'x libc) outcome" where
  "Getaddrinfo getaddrinfo node service hints res s =
    (case getaddrinfo node service hints res s of (rc, s) \<Rightarrow>
       if rc \<noteq> 0 then gai_error rc ''Getaddrinfo error'' s else Returned () s)"

definition Getnameinfo ::
  "('p \<Rightarrow> uint32 \<Rightarrow> 'q \<Rightarrow> size_t \<Rightarrow> 'q \<Rightarrow> size_t \<Rightarrow> int \<Rightarrow> 'x libc \<Rightarrow> int \<times> 'x libc) \<Rightarrow> 'p \<Rightarrow> uint32 \<Rightarrow> 'q \<Rightarrow> size_t \<Rightarrow> 'q \<Rightarrow> size_t \<Rightarrow> int \<Rightarrow> 'x libc \<Rightarrow> (unit, 'x libc) outcome" where
  "Getnameinfo getnameinfo sa salen host hostlen serv servlen flags s =
    (case getnameinfo sa salen host hostlen serv servlen flags s of (rc, s) \<Rightarrow>
       if rc \<noteq> 0 then gai_error rc ''Getnameinfo error'' s else Returned () s)"

definition Freeaddrinfo ::
  "('p \<Rightarrow> 'x libc \<Rightarrow> unit \<times> 'x libc) \<Rightarrow> 'p \<Rightarrow> 'x libc \<Rightarrow> (unit, 'x libc) outcome" where
  "Freeaddrinfo freeaddrinfo res s = (case freeaddrinfo res s of (rc, s) \<Rightarrow> Returned () s)"

definition Inet_ntop ::
  "(int \<Rightarrow> 'p \<Rightarrow> 'q \<Rightarrow> uint32 \<Rightarrow> 'x libc \<Rightarrow> 'r option \<times> 'x libc) \<Rightarrow> int \<Rightarrow> 'p \<Rightarrow> 'q \<Rightarrow> uint32 \<Rightarrow> 'x libc \<Rightarrow> (unit, 'x libc) outcome" where
  "Inet_ntop inet_ntop af src dst sz s =
    (case inet_ntop af src dst sz s of (rc, s) \<Rightarrow>
       if rc = None then unix_error ''Inet_ntop error'' s else Returned () s)"

definition Inet_pton ::
  "(int \<Rightarrow> 'n \<Rightarrow> 'p \<Rightarrow> 'x libc \<Rightarrow> int \<times> 'x libc) \<Rightarrow> int \<Rightarrow> 'n \<Rightarrow> 'p \<Rightarrow> 'x libc \<Rightarrow> (unit, 'x libc) outcome" where
  "Inet_pton inet_pton af src dst s =
    (case inet_pton af src dst s of (rc, s) \<Rightarrow>
       if rc = 0 then app_error ''inet_pton error: invalid dotted-decimal address'' s
       else if rc < 0 then unix_error ''Inet_pton error'' s
       else Returned () s)"

definition Gethostbyname ::
  "('n \<Rightarrow> 'x libc \<Rightarrow> 'h option \<times> 'x libc) \<Rightarrow> 'n \<Rightarrow> 'x libc \<Rightarrow> ('h option, 'x libc) outcome" where
  "Gethostbyname gethostbyname name s =
    (case gethostbyname name s of (rc, s) \<Rightarrow>
       if rc = None then dns_error ''Gethostbyname error'' s else Returned rc s)"

definition Gethostbyaddr ::
  "('n \<Rightarrow> int \<Rightarrow> int \<Rightarrow> 'x libc \<Rightarrow> 'h option \<times> 'x libc) \<Rightarrow> 'n \<Rightarrow> int \<Rightarrow> int \<Rightarrow> 'x libc \<Rightarrow> ('h option, 'x libc) outcome" where
  "Gethostbyaddr gethostbyaddr addr len typ s =
    (case gethostbyaddr addr len typ s of (rc, s) \<Rightarrow>
       if rc = None then dns_error ''Gethostbyaddr error'' s else Returned rc s)"

subsection \<open>Threads and semaphores\<close>

definition Pthread_create ::
  "('p \<Rightarrow> 'q \<Rightarrow> 'r \<Rightarrow> 'a \<Rightarrow> 'x libc \<Rightarrow> int \<times> 'x libc) \<Rightarrow> 'p \<Rightarrow> 'q \<Rightarrow> 'r \<Rightarrow> 'a \<Rightarrow> 'x libc \<Rightarrow> (unit, 'x libc) outcome" where
  "Pthread_create pthread_create tidp attrp routine argp s =
    (case pthread_create tidp attrp routine argp s of (rc, s) \<Rightarrow>
       if rc \<noteq> 0 then posix_error rc ''Pthread_create error'' s else Returned () s)"

definition Pthread_cancel ::
  "('t \<Rightarrow> 'x libc \<Rightarrow> int \<times> 'x libc) \<Rightarrow> 't \<Rightarrow> 'x libc \<Rightarrow> (unit, 'x libc) outcome" where
  "Pthread_cancel pthread_cancel tid s =
    (case pthread_cancel tid s of (rc, s) \<Rightarrow>
       if rc \<noteq> 0 then posix_error rc ''Pthread_cancel error'' s else Returned () s)"

definition Pthread_join ::
  "('t \<Rightarrow> 'p \<Rightarrow> 'x libc \<Rightarrow> int \<times> 'x libc) \<Rightarrow> 't \<Rightarrow> 'p \<Rightarrow> 'x libc \<Rightarrow> (unit, 'x libc) outcome" where
  "Pthread_join pthread_join tid thread_return s =
    (case pthread_join tid thread_return s of (rc, s) \<Rightarrow>
       if rc \<noteq> 0 then posix_error rc ''Pthread_join error'' s else Returned () s)"

definition Pthread_detach ::
  "('t \<Rightarrow> 'x libc \<Rightarrow> int \<times> 'x libc) \<Rightarrow> 't \<Rightarrow> 'x libc \<Rightarrow> (unit, 'x libc) outcome" where
  "Pthread_detach pthread_detach tid s =
    (case pthread_detach tid s of (rc, s) \<Rightarrow>
       if rc \<noteq> 0 then posix_error rc ''Pthread_detach error'' s else Returned () s)"

text \<open>\<open>pthread_exit\<close> does not return: only the state that it leaves is given.\<close>

definition Pthread_exit ::
  "('p \<Rightarrow> 'x libc \<Rightarrow> 'x libc) \<Rightarrow> 'p \<Rightarrow> 'x libc \<Rightarrow> (unit, 'x libc) outcome" where
  "Pthread_exit pthread_exit retval s = Gone (pthread_exit retval s)"

definition Pthread_self ::
  "('x libc \<Rightarrow> 't \<times> 'x libc) \<Rightarrow> 'x libc \<Rightarrow> ('t, 'x libc) outcome" where
  "Pthread_self pthread_self s = (case pthread_self s of (rc, s) \<Rightarrow> Returned rc s)"

definition Pthread_once ::
  "('p \<Rightarrow> 'r \<Rightarrow> 'x libc \<Rightarrow> int \<times> 'x libc) \<Rightarrow> 'p \<Rightarrow> 'r \<Rightarrow> 'x libc \<Rightarrow> (unit, 'x libc) outcome" where
  "Pthread_once pthread_once once_control init_function s = (case pthread_once once_control init_function s of (rc, s) \<Rightarrow> Returned () s)"

definition Sem_init ::
  "('p \<Rightarrow> int \<Rightarrow> uint32 \<Rightarrow> 'x libc \<Rightarrow> int \<times> 'x libc) \<Rightarrow> 'p \<Rightarrow> int \<Rightarrow> uint32 \<Rightarrow> 'x libc \<Rightarrow> (unit, 'x libc) outcome" where
  "Sem_init sem_init sem pshared val s =
    (case sem_init sem pshared val s of (rc, s) \<Rightarrow>
       if rc < 0 then unix_error ''Sem_init error'' s else Returned () s)"

definition P_sem ::
  "('p \<Rightarrow> 'x libc \<Rightarrow> int \<times> 'x libc) \<Rightarrow> 'p \<Rightarrow> 'x libc \<Rightarrow> (unit, 'x libc) outcome" where
  "P_sem sem_wait sem s =
    (case sem_wait sem s of (rc, s) \<Rightarrow> if rc < 0 then unix_error ''P error'' s else Returned () s)"

definition V_sem ::
  "('p \<Rightarrow> 'x libc \<Rightarrow> int \<times> 'x libc) \<Rightarrow> 'p \<Rightarrow> 'x libc \<Rightarrow> (unit, 'x libc) outcome" where
  "V_sem sem_post sem s =
    (case sem_post sem s of (rc, s) \<Rightarrow> if rc < 0 then unix_error ''V error'' s else Returned () s)"

subsection \<open>Robust input and output, and connections\<close>

text \<open>The operating system is the one of \<open>Protocol\<close>. It does not keep \<open>errno\<close>: \<open>e\<close> is the value that a failing call leaves there.\<close>

definition Rio_readn ::
  "int \<Rightarrow> int \<Rightarrow> nat \<Rightarrow> os_state libc \<Rightarrow> (int \<times> byte list, os_state libc) outcome option" where
  "Rio_readn e fd nbytes s = do {
     (n, buf, os) \<leftarrow> rio_readn fd nbytes (sys s);
     let s = s\<lparr>sys := os\<rparr>;
     if n < 0 then Some (unix_error ''Rio_readn error'' (s\<lparr>errno := e\<rparr>)) else Some (Returned (n, buf) s)
   }"

text \<open>The comparison of the signed result with the unsigned number of bytes is one of words of 64 bits.\<close>

definition Rio_writen ::
  "int \<Rightarrow> int \<Rightarrow> byte list \<Rightarrow> bool \<Rightarrow> os_state libc \<Rightarrow> (unit, os_state libc) outcome option" where
  "Rio_writen e fd usrbuf intr s = do {
     (n, os) \<leftarrow> rio_writen fd usrbuf intr (sys s);
     let s = s\<lparr>sys := os\<rparr>;
     if (word_of_int n :: size_t) \<noteq> word_of_nat (length usrbuf) then Some (unix_error ''Rio_writen error'' (s\<lparr>errno := e\<rparr>)) else Some (Returned () s)
   }"

definition Rio_readinitb ::
  "rio_t \<Rightarrow> int \<Rightarrow> rio_t" where
  "Rio_readinitb rp fd = rio_readinitb rp fd"

definition Rio_readnb ::
  "int \<Rightarrow> rio_t \<Rightarrow> nat \<Rightarrow> os_state libc \<Rightarrow> (int \<times> byte list \<times> rio_t, os_state libc) outcome option" where
  "Rio_readnb e rp len s = do {
     (n, buf, rp, os) \<leftarrow> rio_readnb rp len (sys s);
     let s = s\<lparr>sys := os\<rparr>;
     if n < 0 then Some (unix_error ''Rio_readnb error'' (s\<lparr>errno := e\<rparr>)) else Some (Returned (n, buf, rp) s)
   }"

definition Rio_readlineb ::
  "int \<Rightarrow> rio_t \<Rightarrow> nat \<Rightarrow> os_state libc \<Rightarrow> (int \<times> byte list \<times> rio_t, os_state libc) outcome option" where
  "Rio_readlineb e rp maxlen s = do {
     (n, buf, rp, os) \<leftarrow> rio_readlineb rp maxlen (sys s);
     let s = s\<lparr>sys := os\<rparr>;
     if n < 0 then Some (unix_error ''Rio_readlineb error'' (s\<lparr>errno := e\<rparr>)) else Some (Returned (n, buf, rp) s)
   }"

definition Open_clientfd ::
  "int \<Rightarrow> candidate list option \<Rightarrow> os_state libc \<Rightarrow> (int, os_state libc) outcome" where
  "Open_clientfd e addresses s =
    (case open_clientfd addresses (sys s) of (rc, os) \<Rightarrow>
       let s = s\<lparr>sys := os\<rparr> in
       if rc < 0 then unix_error ''Open_clientfd error'' (s\<lparr>errno := e\<rparr>) else Returned rc s)"

definition Open_listenfd ::
  "int \<Rightarrow> candidate list option \<Rightarrow> bool \<Rightarrow> os_state libc \<Rightarrow> (int, os_state libc) outcome" where
  "Open_listenfd e addresses listens s =
    (case open_listenfd addresses listens (sys s) of (rc, os) \<Rightarrow>
       let s = s\<lparr>sys := os\<rparr> in
       if rc < 0 then unix_error ''Open_listenfd error'' (s\<lparr>errno := e\<rparr>) else Returned rc s)"

subsection \<open>What a wrapper that returns has done\<close>

lemma Rio_writen_result:
  assumes "length usrbuf < 2 ^ 64 - 1"
  shows "\<exists>s'. Rio_writen e fd usrbuf intr s = Some (Returned () s') \<and> wrote fd usrbuf (sys s) (sys s') \<or>
    Rio_writen e fd usrbuf intr s = Some (Exited 0 s')"
proof -
  have m: "(word_of_int (- 1) :: size_t) \<noteq> word_of_nat (length usrbuf)"
  proof
    assume "(word_of_int (- 1) :: size_t) = word_of_nat (length usrbuf)"
    then have "(word_of_int (- 1) :: size_t) = word_of_int (int (length usrbuf))" by (simp only: of_int_of_nat_eq)
    then have "(- 1) mod 2 ^ 64 = int (length usrbuf) mod 2 ^ 64"
      by (simp only: word_of_int_eq_iff take_bit_eq_mod) simp
    then show False using assms by simp
  qed
  obtain st k os' where r: "writen_loop fd usrbuf 0 (length usrbuf) intr (sys s) = Some (st, os')"
      "wrote fd (take k (drop 0 usrbuf)) (sys s) os'" "st = int (length usrbuf) \<and> k = length usrbuf \<or> st = -1 \<and> k < length usrbuf"
    using writen_result [of 0 "length usrbuf" usrbuf fd intr "sys s"] by auto
  show ?thesis
    using r(3)
  proof
    assume "st = int (length usrbuf) \<and> k = length usrbuf"
    then show ?thesis using r by (intro exI [of _ "s\<lparr>sys := os'\<rparr>"]) (simp add: Rio_writen_def rio_writen_def)
  next
    assume "st = -1 \<and> k < length usrbuf"
    then show ?thesis using r m by (auto simp: Rio_writen_def rio_writen_def unix_error_def)
  qed
qed

lemma Rio_readlineb_result:
  assumes "rio_ok rp" and "1 < maxlen" and "maxlen < 2 ^ 31"
    and "read_ends (rio_fd rp) (sys s) \<or> 10 \<in> set (pending rp (sys s)) \<or> maxlen - 1 \<le> length (pending rp (sys s))"
  shows "\<exists>s'. let l = next_line (maxlen - 1) (pending rp (sys s)) in
    (\<exists>rp'. Rio_readlineb e rp maxlen s = Some (Returned (int (length l), if l = [] then [] else l @ [0], rp') s') \<and>
       rio_ok rp' \<and> pending rp' (sys s') = drop (length l) (pending rp (sys s))) \<or>
    Rio_readlineb e rp maxlen s = Some (Exited 0 s')"
proof -
  let ?l = "next_line (maxlen - 1) (pending rp (sys s))"
  obtain m where m: "maxlen - 1 = Suc m" using assms(2) by (metis Suc_diff_Suc)
  have e: "?l = [] \<longleftrightarrow> pending rp (sys s) = []" unfolding m by (cases "pending rp (sys s)") auto
  obtain st buf k rp' os' where r: "readline_loop (maxlen - 1) [] rp (sys s) = Some (st, buf, rp', os')" "consumed k rp (sys s) rp' os'"
    "k = length ?l \<and> st = int (length ([] @ ?l)) \<and> buf = (if ([] :: byte list) = [] \<and> pending rp (sys s) = [] \<and> 0 < maxlen - 1 then [] else [] @ ?l @ [0]) \<or>
      st = -1 \<and> Broken \<in> set (rnet (sys s))"
    using readline_result [OF assms(1) _ assms(4), of "[]"] assms(2,3) unfolding Let_def by auto
  have l: "rio_readlineb rp maxlen (sys s) = Some (st, buf, rp', os')" using r(1) assms(2) by (simp add: rio_readlineb_def)
  show ?thesis
    using r(3)
  proof
    assume "st = -1 \<and> Broken \<in> set (rnet (sys s))"
    then show ?thesis using l by (auto simp: Rio_readlineb_def unix_error_def)
  next
    assume *: "k = length ?l \<and> st = int (length ([] @ ?l)) \<and> buf = (if ([] :: byte list) = [] \<and> pending rp (sys s) = [] \<and> 0 < maxlen - 1 then [] else [] @ ?l @ [0])"
    then have "Rio_readlineb e rp maxlen s = Some (Returned (int (length ?l), if ?l = [] then [] else ?l @ [0], rp') (s\<lparr>sys := os'\<rparr>))"
      using l e m assms(2) by (simp add: Rio_readlineb_def)
    moreover have "rio_ok rp'" "pending rp' os' = drop (length ?l) (pending rp (sys s))"
      using r(2) * by (simp_all add: consumed_def)
    ultimately show ?thesis unfolding Let_def by (intro exI [of _ "s\<lparr>sys := os'\<rparr>"]) simp
  qed
qed

lemma Open_listenfd_returned: "Open_listenfd e addresses listens s = Returned fd s' \<Longrightarrow> 0 \<le> fd"
  by (auto simp: Open_listenfd_def unix_error_def Let_def split: prod.splits if_splits)

lemma Open_clientfd_returned: "Open_clientfd e addresses s = Returned fd s' \<Longrightarrow> 0 \<le> fd"
  by (auto simp: Open_clientfd_def unix_error_def Let_def split: prod.splits if_splits)

text \<open>The wrapper of \<open>sleep\<close> never reports an error.\<close>

lemma Sleep_returns: "\<exists>rc s'. Sleep sleep secs s = Returned rc s'"
  by (auto simp: Sleep_def split: prod.split)

end
