(* ===== verification/Spec2Isabelle.thy ===== *)
theory Spec2Isabelle
  imports Process_Properties Invite_Effects Login_Race Move_Race Invite_Race Rating_Locks Wrappers
begin

text \<open>
  Jeux is a server on which clients log in, invite one another to games of tic-tac-toe, and play.
  The process accepts connections; one thread per connection receives packets and answers them
  (\<open>src/src/server.c\<close>). The threads share a client registry, a player registry, the clients, the
  invitations between clients, and the games, all of them reference counted structures.

  The theories, in the order of their dependencies:

  \<^item> \<open>Prelude\<close>: C integers and strings, the scripts of allocation results, arrays of slots.
  \<^item> \<open>Refcount\<close>: the interface of a reference counted structure (a locale); \<open>Game\<close> and \<open>Player\<close>
    interpret it.
  \<^item> \<open>Slots\<close>: the interface of a table of pointers with free slots (a locale); \<open>Client_Base\<close>
    interprets it.
  \<^item> \<open>Game\<close> (\<open>game.c\<close>): every operation of a game. \<open>Tictactoe\<close>: the abstract game, the refinement,
    the invariant of a game, its histories, and the parser and printer of moves.
  \<^item> \<open>Protocol\<close> (\<open>protocol.c\<close>, \<open>packet_common.c\<close>): headers, the transfer loop, sending and receiving,
    over a record of the operating system with scripted partial transfers, interruptions and errors.
  \<^item> \<open>Player\<close> (\<open>player.c\<close>): players and the rating update.
  \<^item> \<open>World\<close>: the heaps of all structures, the registries, the operating system.
  \<^item> \<open>Lock_Order\<close>: the interface of threads that take locks in one global order (a locale), which never
    deadlock. \<open>Rating_Locks\<close> (\<open>player_post_result\<close>): the rating update statement by statement with its two
    mutexes, for any number of threads; it interprets \<open>Lock_Order\<close>. No interleaving gets stuck, and
    every one leaves the ratings of some order of the calls.
  \<^item> \<open>Lifetime\<close> (\<open>client_ref\<close>, \<open>client_unref\<close>, \<open>inv_ref\<close>, \<open>inv_unref\<close>): reference counts of structures
    that free one another.
  \<^item> \<open>Invitation\<close> (\<open>invitation.c\<close>): creation, acceptance, closing; its life cycle.
  \<^item> \<open>Client_Base\<close> and \<open>Client_Ops\<close> (\<open>client.c\<close>): a client's table of invitations, sending packets;
    login, logout, and the operations on invitations and games.
  \<^item> \<open>Client_Registry\<close> (\<open>client_registry.c\<close>), \<open>Player_Registry\<close> (\<open>player_registry.c\<close>).
  \<^item> \<open>Server\<close> (\<open>server.c\<close>): the request handlers, one iteration of the service loop, and the step
    relation \<open>serial_step\<close> of the server, in which the threads take turns request by request.
  \<^item> \<open>Listen\<close> (\<open>open_listenfd\<close> and \<open>open_clientfd\<close> of \<open>csapp.c\<close>): the socket that the server listens on,
    and the socket of a connection to a server. \<open>Jeux_Main\<close>
    (\<open>main.c\<close>): the arguments, the initial state, and the process: the loop that accepts connections,
    \<open>SIGHUP\<close>, threads that start, and the shutdown, as a step relation.
  \<^item> \<open>Ownership\<close>: the invariant that every reference count is the number of references, and that
    dropping references is safe under it.
  \<^item> \<open>Safety\<close>: the elementary steps of a request (taking, handing over and dropping references, filling
    and clearing slots, sending), each under the invariant \<open>world_ok\<close> of the whole heap; what is put on
    the wire. \<open>Client_Safety\<close>, \<open>Play_Safety\<close>, \<open>Move_Safety\<close>: every operation of \<open>client.c\<close> returns and
    keeps the invariant (invitations; games, resigning, logging out; moves).
  \<^item> \<open>Player_Counts\<close>: the references to players, whose counts are never exceeded, and the invariant \<open>sane\<close>
    of the shared state between two requests.
  \<^item> \<open>Request_Safety\<close>, \<open>User_List\<close>, \<open>Login_Safety\<close>, \<open>Session_Safety\<close>: the handlers of \<open>server.c\<close>, the list
    of users, login, and the start and the end of a session, each on top of the operations of the client.
  \<^item> \<open>Server_Safety\<close>: the invariant \<open>server_ok\<close> of the server with all its threads, for every step, and
    the runs from the start. \<open>Server_Properties\<close>: what follows for the running server: its counts and
    pointers, that a request is always finished, and that after \<open>creg_shutdown_all\<close> every run of the
    threads is finite and ends with all threads.
  \<^item> \<open>Process_Safety\<close>, \<open>Process_Properties\<close>: the same for the whole process, with its main thread: the
    invariant, progress, the clean shutdown, and the race between a shutdown and a thread that starts.
  \<^item> \<open>Client_Effects\<close>, \<open>Move_Halves\<close>, \<open>Move_Effects\<close>, \<open>Invite_Effects\<close>: the exact effect of every operation of a client
    on the whole state and on the wire: revoking, declining, accepting, resigning; moving; inviting.
  \<^item> \<open>Login_Race\<close>: \<open>client_login\<close> in two steps, and what two threads can do between them. \<open>Move_Race\<close>:
    \<open>client_make_move\<close> in the two halves of \<open>Move_Halves\<close>, the move and the end of the game; two threads that
    run between each other's halves post the result of one game twice. \<open>Slot_Race\<close>:
    \<open>client_revoke_invitation\<close> in two steps, the slot read without the lock and the rest; between them
    the other party can free the invitation. \<open>Invite_Race\<close>: the same between the two parts of
    \<open>client_make_invitation\<close>, which uses the invitation after it gave back its reference.
  \<^item> \<open>Rio\<close>, \<open>Sio\<close> (\<open>csapp.c\<close>): the package for robust input and output (\<open>rio_readn\<close>, \<open>rio_writen\<close>, buffered
    reads, lines) and the output of strings and numbers from signal handlers, over the operating system
    of \<open>Protocol\<close>. \<open>Wrappers\<close>: the wrappers of \<open>csapp.c\<close> that end the process when the function that
    they call fails; the functions of the system are arguments.

  Conventions. A pointer is an optional address into one of the heaps of \<open>World\<close>; addresses are never
  reused, and an access to memory that was freed, through \<open>NULL\<close>, or outside an array has no value
  (\<open>None\<close>), as has an operation that never returns. Statuses are the integers of the code. A
  \<open>read\<close> takes bytes of the stream that the client sends; when none is left it returns 0 if the client has
  closed the connection or the socket was shut down (\<open>read_ends\<close>), and otherwise waits, which has no value
  either, so that the thread makes no step.

  Atomicity. In \<open>serial_step\<close>, \<open>serial_run\<close>, \<open>thread_run\<close> and \<open>jeux_step\<close> one iteration of a service thread, a
  whole request, is one step. The code holds no lock over a request, so the theorems about these runs
  (C1 to C6) describe the program when requests do not overlap, and each says so. What goes wrong when
  they do overlap is proved in \<open>Login_Race\<close>, \<open>Move_Race\<close>, \<open>Slot_Race\<close>, \<open>Invite_Race\<close> and \<open>Process_Properties\<close>.
  Mutexes that an operation takes and gives back are not part of the state, except for the two mutexes
  of \<open>player_post_result\<close> in \<open>Rating_Locks\<close>, and for the state mutex of an invitation, which one path of
  \<open>inv_accept\<close> never gives back; that the other mutexes are released is not shown.

  Loops. The loop that moves bytes (\<open>fd_op\<close>), the recursion between \<open>client_unref\<close> and \<open>inv_unref\<close>, the
  loops of \<open>Rio\<close> and the conversion of numbers (\<open>ltoa_loop\<close>) are partial functions whose result \<open>None\<close>
  includes not returning; that they return, a \<open>read\<close> that waits apart, is proved. All other loops are structural recursions over
  the arrays or have a termination proof, so no fuel is used anywhere.

  Bounds. Reference counts are \<open>size_t\<close> in the code: the count of a player grows by at most one with
  every request, so the theorems on runs hold for the first \<open>2 ^ 61 - 10\<close> steps. They assume that memory is
  available, which is the empty script of allocation results; the theorems on single operations say
  what the code does when an allocation fails.

  Not modelled: the debug output, the tests, interleavings inside one operation of a thread (except in \<open>Login_Race\<close>,
  \<open>Move_Race\<close>, \<open>Slot_Race\<close>, \<open>Invite_Race\<close> and \<open>Rating_Locks\<close>), the rounding of floating point ratings, and a \<open>SIGHUP\<close>
  before \<open>run_server\<close> has stored the main thread.
\<close>

end
